(* ===== verification/Loke_Prelude.thy ===== *)
theory Loke_Prelude
  imports Main "HOL-Library.Word" "HOL-Library.While_Combinator"
begin

unbundle bit_operations_syntax

text \<open>
  Shared vocabulary of the development: names for the C integer types of the runtime, the
  outcome of a runtime call that may not return, the small state-and-failure monad the
  stateful components are written in, and the lemmas on words, lists and options that the
  component theories use.

  Conventions.  A \<^verbatim>\<open>uint64_t\<close>, \<^verbatim>\<open>uint32_t\<close> or \<^verbatim>\<open>uint8_t\<close> is a word of that width, so its
  arithmetic wraps as the C does.  An \<^verbatim>\<open>int64_t\<close> is an \<open>int\<close>: C leaves signed overflow
  undefined, and the operations that could reach it are the checked ones, which are modelled
  with their guards; \<open>i64\<close> is the range predicate.  An address is a \<open>u64\<close>, and the null
  pointer is \<open>0\<close>.
\<close>

section \<open>Integer types\<close>

type_synonym u8 = "8 word"
type_synonym u32 = "32 word"
type_synonym u64 = "64 word"
type_synonym u128 = "128 word"
type_synonym addr = u64

definition INT64_MAX :: int where
  "INT64_MAX = 2 ^ 63 - 1"

definition UINT64_MAX :: u64 where
  "UINT64_MAX = - 1"

definition i64 :: "int \<Rightarrow> bool" where
  "i64 x \<longleftrightarrow> - (2 ^ 63) \<le> x \<and> x \<le> INT64_MAX"

section \<open>Outcomes\<close>

text \<open>
  The three ways a runtime call ends without returning: the program panic strategy
  (\<^verbatim>\<open>loke_rt_v1_panic\<close>), an immediate stop (\<^verbatim>\<open>loke_rt_v1_abort\<close>), and a loop that never
  ends.  The state at that point is kept, because an unwind reads it.
\<close>

datatype fault = Panic string | Abort string | Diverge

type_synonym ('s, 'a) proc = "'s \<Rightarrow> (fault + 'a) \<times> 's"

definition return :: "'a \<Rightarrow> ('s, 'a) proc" where
  "return x s = (Inr x, s)"

definition stop :: "fault \<Rightarrow> ('s, 'a) proc" where
  "stop e s = (Inl e, s)"

definition bind :: "('s, 'a) proc \<Rightarrow> ('a \<Rightarrow> ('s, 'b) proc) \<Rightarrow> ('s, 'b) proc" where
  "bind m f s = (case m s of (Inl e, t) \<Rightarrow> (Inl e, t) | (Inr x, t) \<Rightarrow> f x t)"

definition get_state :: "('s, 's) proc" where
  "get_state s = (Inr s, s)"

definition put_state :: "'s \<Rightarrow> ('s, unit) proc" where
  "put_state t s = (Inr (), t)"

definition modify :: "('s \<Rightarrow> 's) \<Rightarrow> ('s, unit) proc" where
  "modify f s = (Inr (), f s)"

text \<open>A C loop over a loop variable and the state.  A loop that never ends is \<open>Diverge\<close>; the
  state it would have is never observed.\<close>

definition while_proc :: "('x \<Rightarrow> 's \<Rightarrow> bool) \<Rightarrow> ('x \<Rightarrow> ('s, 'x) proc) \<Rightarrow> 'x \<Rightarrow> ('s, 'x) proc" where
  "while_proc b body x s =
     (case while_option (\<lambda>(r, s). case r of Inl e \<Rightarrow> False | Inr x \<Rightarrow> b x s)
             (\<lambda>(r, s). case r of Inl e \<Rightarrow> (Inl e, s) | Inr x \<Rightarrow> body x s) (Inr x, s) of
        None \<Rightarrow> (Inl Diverge, undefined)
      | Some rs \<Rightarrow> rs)"

named_theorems rt_simps \<open>laws of the state-and-failure monad\<close>

lemma return_run [rt_simps]: "return x s = (Inr x, s)"
  by (simp add: return_def)

lemma stop_run [rt_simps]: "stop e s = (Inl e, s)"
  by (simp add: stop_def)

lemma get_state_run [rt_simps]: "get_state s = (Inr s, s)"
  by (simp add: get_state_def)

lemma put_state_run [rt_simps]: "put_state t s = (Inr (), t)"
  by (simp add: put_state_def)

lemma modify_run [rt_simps]: "modify f s = (Inr (), f s)"
  by (simp add: modify_def)

lemma bind_return [rt_simps]: "bind m f s = f x t" if "m s = (Inr x, t)"
  using that by (simp add: bind_def)

lemma bind_stop [rt_simps]: "bind m f s = (Inl e, t)" if "m s = (Inl e, t)"
  using that by (simp add: bind_def)

lemma bind_cases:
  assumes "bind m f s = (r, u)"
  obtains (stopped) e where "m s = (Inl e, u)" and "r = Inl e"
    | (returned) x t where "m s = (Inr x, t)" and "f x t = (r, u)"
  using assms by (auto simp: bind_def split: prod.splits sum.splits)

lemma bind_assoc: "bind (bind m f) g = bind m (\<lambda>x. bind (f x) g)"
  by (rule ext) (auto simp: bind_def split: prod.splits sum.splits)

lemma bind_return_right: "bind m return = m"
  by (rule ext) (auto simp: bind_def return_def split: prod.splits sum.splits)

lemma while_proc_unfold:
  "while_proc b body x s = (if b x s then bind (body x) (while_proc b body) s else (Inr x, s))"
proof (cases "b x s")
  case True
  obtain r t where r: "body x s = (r, t)" by fastforce
  show ?thesis
    using True r
    by (cases r; simp add: while_proc_def bind_def while_option_unfold [of _ _ "(Inr x, s)"];
        simp add: while_option_unfold [of _ _ "(Inl _, t)"])
next
  case False
  then show ?thesis by (simp add: while_proc_def while_option_unfold [of _ _ "(Inr x, s)"])
qed

lemma while_proc_stop [rt_simps]: "\<not> b x s \<Longrightarrow> while_proc b body x s = (Inr x, s)"
  by (simp add: while_proc_unfold [of b body x s])

lemma while_proc_step [rt_simps]:
  "b x s \<Longrightarrow> body x s = (Inr y, t) \<Longrightarrow> while_proc b body x s = while_proc b body y t"
  by (simp add: while_proc_unfold [of b body x s] bind_def)

lemma while_proc_fault [rt_simps]:
  "b x s \<Longrightarrow> body x s = (Inl e, t) \<Longrightarrow> while_proc b body x s = (Inl e, t)"
  by (simp add: while_proc_unfold [of b body x s] bind_def)

section \<open>Words read as natural numbers\<close>

named_theorems word_nat \<open>word arithmetic read through \<open>unat\<close>\<close>

lemmas [word_nat] = word_le_nat_alt word_less_nat_alt word_unat_eq_iff unat_div

lemma unat_UINT64_MAX [simp]: "unat UINT64_MAX = 2 ^ 64 - 1"
  by (simp add: UINT64_MAX_def unsigned_minus_1_eq_mask mask_eq_exp_minus_1)

lemma unat_u64_lt [simp]: "unat (a :: u64) < 2 ^ 64"
  using unsigned_less [of a] by simp

lemma unat_plus_exact: "unat (a + b) = unat a + unat b"
  if "unat a + unat b < 2 ^ 64" for a b :: u64
  using that unat_add_lem [of a b] by simp

lemma unat_times_exact: "unat (a * b) = unat a * unat b"
  if "unat a * unat b < 2 ^ 64" for a b :: u64
  using that unat_mult_lem [of a b] by simp

lemma unat_minus_exact: "unat (a - b) = unat a - unat b"
  if "unat b \<le> unat a" for a b :: u64
  using that by (simp add: unat_sub word_le_nat_alt)

lemma unat_pred: "unat (a - 1) = unat a - 1" if "0 < unat a" for a :: u64
  using that by (metis unat_minus_one unat_gt_0)

lemma plus_no_wrap: "a \<le> a + b \<longleftrightarrow> unat a + unat b < 2 ^ 64" for a b :: u64
  using no_olen_add_nat [of a b] by simp

lemma unat_word_of_int: "unat (word_of_int n :: u64) = nat n" if "0 \<le> n" and "n < 2 ^ 64"
proof -
  have "uint (word_of_int n :: u64) = n"
    using that by (simp add: uint_word_of_int)
  then show ?thesis by (metis nat_uint_eq)
qed

lemma i64_nonneg_fits: "0 \<le> n \<Longrightarrow> i64 n \<Longrightarrow> n < 2 ^ 64"
  by (simp add: i64_def INT64_MAX_def)

lemma unat_word_of_i64: "unat (word_of_int n :: u64) = nat n" if "0 \<le> n" and "i64 n"
  using that by (intro unat_word_of_int i64_nonneg_fits)

end
