(* ===== verification/Loke_Utf8.thy ===== *)
theory Loke_Utf8
  imports Loke_Prelude "HOL-Library.Sublist"
begin

text \<open>
  The UTF-8 half of \<^verbatim>\<open>runtime/text.c\<close>: the decoder, the validator, the rune counter, the
  encoder and the byte-wise comparison.  A byte pointer with its length is an
  \<open>u8 list option\<close>, \<open>None\<close> the null pointer, and the length the caller passes; a rune
  is the 32-bit pattern of its \<^verbatim>\<open>int32_t\<close>.  The encoder's output buffer is the list of bytes it
  writes, whose length is the count it answers.
\<close>

section \<open>Definitions\<close>

text \<open>The continuation loop of the decoder: \<open>None\<close> where a byte is not a continuation byte.\<close>

function rune_tail :: "u8 list \<Rightarrow> nat \<Rightarrow> nat \<Rightarrow> nat \<Rightarrow> u32 \<Rightarrow> u32 option" where
  "rune_tail data offset i need v =
     (if i < need then
        let cont = (ucast (data ! (offset + i)) :: u32) in
        if cont AND 0xC0 \<noteq> 0x80 then None
        else rune_tail data offset (i + 1) need (push_bit 6 v OR (cont AND 0x3F))
      else Some v)"
  by pat_completeness auto
termination
  by (relation "measure (\<lambda>(data, offset, i, need, v). need - i)") auto

declare rune_tail.simps [simp del]

text \<open>How many bytes a lead byte asks for, the bits it holds, and the least value that many
  bytes may encode.\<close>

definition rune_lead :: "u32 \<Rightarrow> (nat \<times> u32 \<times> u32) option" where
  "rune_lead b0 =
     (if b0 AND 0xE0 = 0xC0 then Some (2, b0 AND 0x1F, 0x80)
      else if b0 AND 0xF0 = 0xE0 then Some (3, b0 AND 0x0F, 0x800)
      else if b0 AND 0xF8 = 0xF0 then Some (4, b0 AND 0x07, 0x10000)
      else None)"

text \<open>The answer is the number of bytes used, 0 for a rejection, and the rune stored through
  the output parameter.\<close>

definition loke_rt_v1_rune_at :: "u8 list option \<Rightarrow> int \<Rightarrow> int \<Rightarrow> int \<times> u32" where
  "loke_rt_v1_rune_at ptr len offset =
     (case ptr of
        None \<Rightarrow> (0, 0xFFFD)
      | Some data \<Rightarrow>
          if offset < 0 \<or> offset \<ge> len then (0, 0xFFFD)
          else let b0 = (ucast (data ! nat offset) :: u32) in
            if b0 < 0x80 then (1, b0)
            else (case rune_lead b0 of
                None \<Rightarrow> (0, 0xFFFD)
              | Some (need, v0, lowest) \<Rightarrow>
                  if offset + int need > len then (0, 0xFFFD)
                  else (case rune_tail data (nat offset) 1 need v0 of
                      None \<Rightarrow> (0, 0xFFFD)
                    | Some v \<Rightarrow>
                        if v < lowest \<or> v > 0x10FFFF \<or> (v \<ge> 0xD800 \<and> v \<le> 0xDFFF) then (0, 0xFFFD)
                        else (int need, v))))"

lemma rune_lead_need: "rune_lead b0 = Some (need, v0, lowest) \<Longrightarrow> need \<in> {2, 3, 4}"
  by (auto simp: rune_lead_def split: if_splits)

lemma rune_at_used: "fst (loke_rt_v1_rune_at ptr len offset) \<in> {0, 1, 2, 3, 4}"
  using rune_lead_need
  by (auto simp: loke_rt_v1_rune_at_def Let_def split: option.splits)

lemma rune_at_progress:
  "fst (loke_rt_v1_rune_at ptr len offset) \<noteq> 0 \<Longrightarrow> 0 < fst (loke_rt_v1_rune_at ptr len offset)"
  using rune_at_used [of ptr len offset] by auto

function utf8_valid_from :: "u8 list option \<Rightarrow> int \<Rightarrow> int \<Rightarrow> bool" where
  "utf8_valid_from data len offset =
     (if offset < len then
        let used = fst (loke_rt_v1_rune_at data len offset) in
        if used = 0 then False else utf8_valid_from data len (offset + used)
      else True)"
  by pat_completeness auto
termination
  by (relation "measure (\<lambda>(data, len, offset). nat (len - offset))")
    (use rune_at_progress in force)+

declare utf8_valid_from.simps [simp del]

definition loke_rt_v1_utf8_valid :: "u8 list option \<Rightarrow> int \<Rightarrow> bool" where
  "loke_rt_v1_utf8_valid data len = (if len < 0 then False else utf8_valid_from data len 0)"

function rune_count_from :: "u8 list option \<Rightarrow> int \<Rightarrow> int \<Rightarrow> int \<Rightarrow> int" where
  "rune_count_from data len offset n =
     (if offset < len then
        let used = fst (loke_rt_v1_rune_at data len offset) in
        if used = 0 then n else rune_count_from data len (offset + used) (n + 1)
      else n)"
  by pat_completeness auto
termination
  by (relation "measure (\<lambda>(data, len, offset, n). nat (len - offset))")
    (use rune_at_progress in force)+

declare rune_count_from.simps [simp del]

definition loke_rt_v1_rune_count :: "u8 list option \<Rightarrow> int \<Rightarrow> int" where
  "loke_rt_v1_rune_count data len = rune_count_from data len 0 0"

definition loke_rt_encode_rune :: "u32 \<Rightarrow> u8 list" where
  "loke_rt_encode_rune v =
     (if sint v < 0 \<or> v > 0x10FFFF \<or> (v \<ge> 0xD800 \<and> v \<le> 0xDFFF) then []
      else if v < 0x80 then [ucast v]
      else if v < 0x800 then
        [ucast (0xC0 OR drop_bit 6 v), ucast (0x80 OR (v AND 0x3F))]
      else if v < 0x10000 then
        [ucast (0xE0 OR drop_bit 12 v), ucast (0x80 OR (drop_bit 6 v AND 0x3F)),
         ucast (0x80 OR (v AND 0x3F))]
      else
        [ucast (0xF0 OR drop_bit 18 v), ucast (0x80 OR (drop_bit 12 v AND 0x3F)),
         ucast (0x80 OR (drop_bit 6 v AND 0x3F)), ucast (0x80 OR (v AND 0x3F))])"

text \<open>\<^verbatim>\<open>memcmp\<close> over the first \<open>n\<close> bytes, as the sign of its answer.\<close>

fun memcmp_sign :: "u8 list \<Rightarrow> u8 list \<Rightarrow> nat \<Rightarrow> int" where
  "memcmp_sign (x # xs) (y # ys) (Suc n) =
     (if x < y then - 1 else if y < x then 1 else memcmp_sign xs ys n)"
| "memcmp_sign xs ys n = 0"

definition loke_rt_v1_bytes_compare :: "u8 list \<Rightarrow> int \<Rightarrow> u8 list \<Rightarrow> int \<Rightarrow> int" where
  "loke_rt_v1_bytes_compare a_data a_len b_data b_len =
     (let shared = (if a_len < b_len then a_len else b_len);
          order = (if shared > 0 then memcmp_sign a_data b_data (nat shared) else 0)
      in if order \<noteq> 0 then (if order < 0 then - 1 else 1)
         else if a_len = b_len then 0
         else if a_len < b_len then - 1 else 1)"

text \<open>The zero-terminated length: \<open>None\<close> where no zero byte follows, which C leaves undefined.\<close>

function cstring_len_from :: "u8 list \<Rightarrow> nat \<Rightarrow> nat option" where
  "cstring_len_from p n =
     (if n < length p then if p ! n \<noteq> 0 then cstring_len_from p (n + 1) else Some n else None)"
  by pat_completeness auto
termination
  by (relation "measure (\<lambda>(p, n). length p - n)") auto

declare cstring_len_from.simps [simp del]

definition loke_rt_v1_cstring_len :: "u8 list option \<Rightarrow> nat option" where
  "loke_rt_v1_cstring_len ptr = (case ptr of None \<Rightarrow> Some 0 | Some p \<Rightarrow> cstring_len_from p 0)"

section \<open>Bits and bytes as numbers\<close>

text \<open>A Unicode scalar value, and its UTF-8 form in plain arithmetic: the specification the
  encoder and the decoder are both compared with.\<close>

definition scalar :: "u32 \<Rightarrow> bool" where
  "scalar v \<longleftrightarrow> uint v \<le> 0x10FFFF \<and> \<not> (0xD800 \<le> uint v \<and> uint v \<le> 0xDFFF)"

definition utf8_code :: "int \<Rightarrow> int list" where
  "utf8_code n =
     (if n < 128 then [n]
      else if n < 2048 then [192 + n div 64, 128 + n mod 64]
      else if n < 65536 then [224 + n div 4096, 128 + n div 64 mod 64, 128 + n mod 64]
      else [240 + n div 262144, 128 + n div 4096 mod 64, 128 + n div 64 mod 64, 128 + n mod 64])"

lemma word_table:
  assumes "list_all (\<lambda>x. P (word_of_int x)) [0..n]" and "uint w \<le> n"
  shows "P w"
proof -
  have "uint w \<in> set [0..n]" using assms(2) by simp
  then have "P (word_of_int (uint w))" using assms(1) by (simp only: list_all_iff)
  then show ?thesis by simp
qed

lemma uint_and_63: "uint (v AND 0x3F) = uint v mod 64" for v :: u32
proof -
  have "v AND 0x3F = take_bit 6 v"
    unfolding take_bit_eq_mask by (simp add: mask_eq_exp_minus_1)
  then show ?thesis by (simp add: take_bit_eq_mod uint_mod)
qed

lemma uint_shift_right: "uint (drop_bit k v) = uint v div 2 ^ k" for v :: u32
proof -
  have "unat (drop_bit k v) = unat v div 2 ^ k"
    unfolding unat_drop_bit_eq by (rule drop_bit_eq_div)
  then show ?thesis by (simp only: uint_nat zdiv_int) simp
qed

lemma uint_shift_or:
  fixes v y :: u32
  assumes "uint y < 64" and "uint v < 2 ^ 26"
  shows "uint (push_bit 6 v OR y) = uint v * 64 + uint y"
proof -
  have "push_bit 6 (uint v) AND uint y = 0"
  proof (rule bit_eqI)
    fix k
    show "bit (push_bit 6 (uint v) AND uint y) k = bit 0 k"
    proof (cases "k < 6")
      case True
      then show ?thesis by (simp add: bit_and_iff bit_push_bit_iff)
    next
      case False
      have "uint y < 2 ^ k"
        using assms(1) False power_increasing [of 6 k "2::int"] by simp
      then have "\<not> bit (uint y) k" by (simp add: bit_iff_odd)
      then show ?thesis by (simp add: bit_and_iff)
    qed
  qed
  then have "push_bit 6 (uint v) OR uint y = push_bit 6 (uint v) + uint y"
    by (rule disjunctive_add_eq_or [symmetric])
  moreover have "uint (push_bit 6 v) = push_bit 6 (uint v)"
    using assms(2) by (simp only: unsigned_push_bit_eq) (simp add: push_bit_eq_mult take_bit_int_eq_self)
  ultimately show ?thesis by (simp only: unsigned_or_eq push_bit_eq_mult) simp
qed

lemma byte_or:
  fixes w :: u32
  shows "uint w \<le> 63 \<Longrightarrow> uint (ucast (0x80 OR w) :: u8) = 128 + uint w"
    and "uint w \<le> 31 \<Longrightarrow> uint (ucast (0xC0 OR w) :: u8) = 192 + uint w"
    and "uint w \<le> 15 \<Longrightarrow> uint (ucast (0xE0 OR w) :: u8) = 224 + uint w"
    and "uint w \<le> 7 \<Longrightarrow> uint (ucast (0xF0 OR w) :: u8) = 240 + uint w"
  by (erule word_table [rotated], code_simp)+

definition byte_facts :: "u8 \<Rightarrow> bool" where
  "byte_facts b \<longleftrightarrow> (let x = uint b; c = (ucast b :: u32) in
     uint c = x \<and> (c AND 0xC0 = 0x80 \<longleftrightarrow> 128 \<le> x \<and> x < 192) \<and>
     (c AND 0xE0 = 0xC0 \<longleftrightarrow> 192 \<le> x \<and> x < 224) \<and>
     (c AND 0xF0 = 0xE0 \<longleftrightarrow> 224 \<le> x \<and> x < 240) \<and>
     (c AND 0xF8 = 0xF0 \<longleftrightarrow> 240 \<le> x \<and> x < 248) \<and>
     uint (c AND 0x3F) = x mod 64 \<and> uint (c AND 0x1F) = x mod 32 \<and>
     uint (c AND 0x0F) = x mod 16 \<and> uint (c AND 0x07) = x mod 8)"

lemma byte_facts_all: "byte_facts b"
proof (rule word_table)
  show "list_all (\<lambda>x. byte_facts (word_of_int x)) [0..255]" by code_simp
  show "uint b \<le> 255" using uint_lt2p [of b] by simp
qed

lemmas byte_class = byte_facts_all [unfolded byte_facts_def Let_def]

lemmas u32_uint = word_less_alt word_le_def

lemma byte_ascii: "uint (ucast v :: u8) = uint v" if "uint v < 128" for v :: u32
  using that by (simp add: unsigned_ucast_eq take_bit_int_eq_self)

section \<open>The encoder\<close>

lemma sint_nonneg: "0 \<le> sint v" if "uint v < 2 ^ 31" for v :: u32
proof -
  have "\<not> bit v 31"
  proof -
    have "uint v div 2 ^ 31 = 0" using that by simp
    then have "\<not> bit (uint v) 31" by (simp only: bit_iff_odd) simp
    then show ?thesis by (simp add: bit_uint_iff)
  qed
  then show ?thesis using bit_last_iff [of v] by simp
qed

lemma encode_rune_guard:
  "(sint v < 0 \<or> v > 0x10FFFF \<or> (v \<ge> 0xD800 \<and> v \<le> 0xDFFF)) \<longleftrightarrow> \<not> scalar v"
proof -
  have "sint v < 0 \<Longrightarrow> 0x10FFFF < uint v"
    using sint_nonneg [of v] by (cases "uint v < 2 ^ 31") simp_all
  then show ?thesis by (auto simp: scalar_def u32_uint)
qed

lemma encode_rune_scalar: "loke_rt_encode_rune v \<noteq> [] \<longleftrightarrow> scalar v"
  by (simp add: loke_rt_encode_rune_def encode_rune_guard)

lemma mod_64_le: "(x::int) mod 64 \<le> 63"
  by presburger

lemma encode_rune_utf8: "map uint (loke_rt_encode_rune v) = utf8_code (uint v)" if "scalar v"
proof -
  have "uint v \<le> 0x10FFFF" and "0 \<le> uint v" using that by (simp_all add: scalar_def)
  then have small: "uint v div 64 mod 64 \<le> 63" "uint v div 4096 mod 64 \<le> 63" "uint v mod 64 \<le> 63"
    "uint v div 262144 \<le> 7"
    using zdiv_mono1 [OF \<open>uint v \<le> 0x10FFFF\<close>, of 262144] by (simp_all add: mod_64_le)
  from that show ?thesis
    unfolding loke_rt_encode_rune_def encode_rune_guard utf8_code_def
    by (auto simp: u32_uint byte_ascii byte_or uint_and_63 uint_shift_right small)
qed

section \<open>The decoder\<close>

definition is_cont :: "u8 \<Rightarrow> bool" where
  "is_cont b \<longleftrightarrow> 128 \<le> uint b \<and> uint b < 192"

lemma rune_tail_done: "rune_tail data offset need need v = Some v"
  by (simp add: rune_tail.simps)

lemma rune_tail_step:
  fixes b :: u8
  assumes "i < need" and "b = data ! (offset + i)"
  shows "rune_tail data offset i need v =
    (if is_cont b
     then rune_tail data offset (i + 1) need (push_bit 6 v OR (ucast b AND 0x3F)) else None)"
  using assms byte_class [of b] by (simp add: rune_tail.simps [of data offset i] is_cont_def)

lemma shift_byte:
  fixes b :: u8
  assumes "128 \<le> uint b" and "uint b < 192" and "uint v < 2 ^ 26"
  shows "uint (push_bit 6 v OR (ucast b AND 0x3F :: u32)) = uint v * 64 + (uint b - 128)"
proof -
  have "uint b mod 64 = uint b - 128" using assms(1,2) by presburger
  then show ?thesis using assms byte_class [of b] by (simp add: uint_shift_or)
qed


text \<open>The decoder in arithmetic, per length.  \<open>x k\<close> is the byte \<open>k\<close> past the offset.\<close>

definition rune_ok :: "int \<Rightarrow> int \<Rightarrow> bool" where
  "rune_ok lowest n \<longleftrightarrow> lowest \<le> n \<and> n \<le> 0x10FFFF \<and> \<not> (0xD800 \<le> n \<and> n \<le> 0xDFFF)"

lemma rune_ok_word: "\<not> (v < lowest \<or> v > 0x10FFFF \<or> (v \<ge> 0xD800 \<and> v \<le> 0xDFFF)) \<longleftrightarrow>
    rune_ok (uint lowest) (uint v)" for v :: u32
  by (auto simp: rune_ok_def u32_uint)


lemma rune_tail_Some:
  assumes "(uint v + 1) * 64 ^ (need - i) \<le> 2 ^ 32"
  shows "rune_tail data k i need v = Some r \<longleftrightarrow>
    list_all (\<lambda>j. is_cont (data ! (k + j))) [i..<need] \<and>
    uint r = foldl (\<lambda>a x. a * 64 + x) (uint v) (map (\<lambda>j. uint (data ! (k + j)) - 128) [i..<need])"
  using assms
proof (induction data k i need v rule: rune_tail.induct)
  case (1 data k i need v)
  show ?case
  proof (cases "i < need")
    case False
    then show ?thesis by (auto simp: rune_tail.simps [of data k i] word_uint_eq_iff)
  next
    case True
    let ?b = "data ! (k + i)" and ?w = "push_bit 6 v OR (ucast (data ! (k + i)) AND 0x3F)"
    have upt: "[i..<need] = i # [i + 1..<need]" using True by (simp add: upt_conv_Cons)
    show ?thesis
    proof (cases "is_cont ?b")
      case False
      then show ?thesis
        using upt by (simp add: rune_tail_step [OF True refl])
    next
      case cont: True
      have pow: "64 ^ (need - i) = 64 * (64 ^ (need - (i + 1)) :: int)"
        using True by (simp add: Suc_diff_Suc flip: power_Suc)
      have prem: "(uint v + 1) * 64 * 64 ^ (need - (i + 1)) \<le> 2 ^ 32"
        using "1.prems" unfolding pow by (simp only: mult.assoc)
      have "(uint v + 1) * 64 \<le> (uint v + 1) * 64 * 64 ^ (need - (i + 1))"
        using mult_left_mono [of 1 "64 ^ (need - (i + 1))" "(uint v + 1) * 64"] by simp
      with prem have "(uint v + 1) * 64 \<le> 2 ^ 32" by (rule order_trans [rotated])
      then have w: "uint ?w = uint v * 64 + (uint ?b - 128)"
        using shift_byte [of ?b v] cont by (simp add: is_cont_def)
      have "(uint ?w + 1) * 64 ^ (need - (i + 1)) \<le> (uint v + 1) * 64 * 64 ^ (need - (i + 1))"
        using cont by (intro mult_right_mono) (simp_all add: w is_cont_def)
      with prem have "(uint ?w + 1) * 64 ^ (need - (i + 1)) \<le> 2 ^ 32" by (rule order_trans [rotated])
      then show ?thesis
        using "1.IH" [OF True refl] cont byte_class [of ?b] upt w
        by (simp add: rune_tail_step [OF True refl]) (simp add: is_cont_def)
    qed
  qed
qed

lemma digit64: "(q * 64 + c) div 64 = q" "(q * 64 + c) mod 64 = c" if "0 \<le> c" "c < 64" for q c :: int
  using that by simp_all

lemma shift_div: "n div 4096 = n div 64 div 64" "n div 262144 = n div 64 div 64 div 64" for n :: int
  by (simp_all flip: zdiv_zmult2_eq)

lemma rune_lead_cases:
  fixes b :: u8
  defines "x \<equiv> uint b"
  shows "rune_lead (ucast b) =
    (if 192 \<le> x \<and> x < 224 then Some (2, ucast b AND 0x1F, 0x80)
     else if 224 \<le> x \<and> x < 240 then Some (3, ucast b AND 0x0F, 0x800)
     else if 240 \<le> x \<and> x < 248 then Some (4, ucast b AND 0x07, 0x10000) else None)"
  using byte_class [of b] by (simp add: rune_lead_def x_def)

definition utf8_at :: "u8 list \<Rightarrow> int \<Rightarrow> int \<Rightarrow> u32 \<Rightarrow> int \<Rightarrow> bool" where
  "utf8_at data len offset v n \<longleftrightarrow> scalar v \<and> n = int (length (utf8_code (uint v))) \<and>
     offset + n \<le> len \<and> map (\<lambda>j. uint (data ! (nat offset + j))) [0..<nat n] = utf8_code (uint v)"

text \<open>A multi-byte form is the lead bits followed by base-64 digits.\<close>

lemma base64_digit:
  fixes n m c :: int
  assumes "n = m * 64 + (c - 128)" and "128 \<le> c" and "c < 192"
  shows "n div 64 = m" and "n mod 64 = c - 128"
  using digit64 [of "c - 128" m] assms by simp_all

lemma utf8_code_2:
  assumes "rune_ok 0x80 n" and "n = (a - 192) * 64 + (b - 128)" and "a < 224" and "128 \<le> b" and "b < 192"
  shows "utf8_code n = [a, b]"
proof -
  note d = base64_digit [OF assms(2,4,5)]
  have "128 \<le> n" and "n < 2048" using assms by (simp_all add: rune_ok_def)
  then show ?thesis by (simp add: utf8_code_def d)
qed

lemma utf8_code_3:
  assumes "rune_ok 0x800 n" and "n = m * 64 + (c - 128)" and "m = (a - 224) * 64 + (b - 128)"
    and "a < 240" and "128 \<le> b" and "b < 192" and "128 \<le> c" and "c < 192"
  shows "utf8_code n = [a, b, c]"
proof -
  note d = base64_digit [OF assms(2,7,8)] base64_digit [OF assms(3,5,6)]
  have "2048 \<le> n" and "n < 65536" using assms by (simp_all add: rune_ok_def)
  then show ?thesis by (simp add: utf8_code_def shift_div d)
qed

lemma utf8_code_4:
  assumes "rune_ok 0x10000 n" and "n = m * 64 + (d - 128)" and "m = k * 64 + (c - 128)"
    and "k = (a - 240) * 64 + (b - 128)" and "128 \<le> b" and "b < 192" and "128 \<le> c" and "c < 192"
    and "128 \<le> d" and "d < 192"
  shows "utf8_code n = [a, b, c, d]"
proof -
  note d = base64_digit [OF assms(2,9,10)] base64_digit [OF assms(3,7,8)] base64_digit [OF assms(4,5,6)]
  have "65536 \<le> n" using assms by (simp add: rune_ok_def)
  then show ?thesis by (simp add: utf8_code_def shift_div d)
qed

lemma upt_small: "[0..<2] = [0, 1]" "[0..<3] = [0, 1, 2]" "[0..<4] = [0, 1, 2, 3]"
  "[Suc 0..<2] = [1]" "[Suc 0..<3] = [1, 2]" "[Suc 0..<4] = [1, 2, 3]"
  by (simp_all add: upt_rec)

lemma rune_ok_scalar: "rune_ok lowest (uint v) \<longleftrightarrow> lowest \<le> uint v \<and> scalar v"
  by (auto simp: rune_ok_def scalar_def)

lemma lead_bits:
  fixes b :: u8
  shows "192 \<le> uint b \<Longrightarrow> uint b < 224 \<Longrightarrow> uint (ucast b AND 0x1F :: u32) = uint b - 192"
    and "224 \<le> uint b \<Longrightarrow> uint b < 240 \<Longrightarrow> uint (ucast b AND 0x0F :: u32) = uint b - 224"
    and "240 \<le> uint b \<Longrightarrow> uint b < 248 \<Longrightarrow> uint (ucast b AND 0x07 :: u32) = uint b - 240"
  using byte_class [of b] by (simp_all, presburger+)

text \<open>What one branch of the decoder answers, before the result is compared with the encoder.\<close>

lemma rune_at_multi:
  fixes data :: "u8 list"
  defines "x \<equiv> \<lambda>j offset. uint (data ! (nat offset + j))"
  assumes "0 \<le> offset" and "offset < len" and "128 \<le> x 0 offset"
  shows "loke_rt_v1_rune_at (Some data) len offset =
    (case rune_lead (ucast (data ! nat offset)) of None \<Rightarrow> (0, 0xFFFD)
     | Some (need, v0, lowest) \<Rightarrow>
        if offset + int need > len then (0, 0xFFFD)
        else (case rune_tail data (nat offset) 1 need v0 of None \<Rightarrow> (0, 0xFFFD)
          | Some v \<Rightarrow> if rune_ok (uint lowest) (uint v) then (int need, v) else (0, 0xFFFD)))"
  using assms byte_class [of "data ! nat offset"]
  by (auto simp: loke_rt_v1_rune_at_def u32_uint rune_ok_def split: option.split)

lemma rune_at_sound:
  assumes "loke_rt_v1_rune_at (Some data) len offset = (n, v)" and "n \<noteq> 0"
  shows "0 \<le> offset" and "offset < len" and "utf8_at data len offset v n"
proof -
  show bounds: "0 \<le> offset" "offset < len"
    using assms by (auto simp: loke_rt_v1_rune_at_def split: if_splits)
  let ?x = "\<lambda>j. data ! (nat offset + j)"
  show "utf8_at data len offset v n"
  proof (cases "uint (?x 0) < 128")
    case True
    then have "n = 1 \<and> v = ucast (?x 0)"
      using assms bounds byte_class [of "?x 0"] by (auto simp: loke_rt_v1_rune_at_def u32_uint)
    then show ?thesis
      using True bounds byte_class [of "?x 0"]
      by (simp add: utf8_at_def scalar_def utf8_code_def)
  next
    case False
    then obtain need v0 lowest where lead: "rune_lead (ucast (?x 0)) = Some (need, v0, lowest)"
      and fits: "offset + int need \<le> len"
      and tail: "rune_tail data (nat offset) 1 need v0 = Some v"
      and ok: "rune_ok (uint lowest) (uint v)" and n: "n = int need"
      using assms rune_at_multi [OF bounds] by (auto split: option.splits if_splits)
    have v: "scalar v" using ok by (simp add: rune_ok_scalar)
    consider (two) "192 \<le> uint (?x 0)" "uint (?x 0) < 224" "need = 2" "uint v0 = uint (?x 0) - 192" "lowest = 0x80"
      | (three) "224 \<le> uint (?x 0)" "uint (?x 0) < 240" "need = 3" "uint v0 = uint (?x 0) - 224" "lowest = 0x800"
      | (four) "240 \<le> uint (?x 0)" "uint (?x 0) < 248" "need = 4" "uint v0 = uint (?x 0) - 240" "lowest = 0x10000"
      using lead lead_bits [of "?x 0"] by (auto simp: rune_lead_cases split: if_splits)
    then have "map (\<lambda>j. uint (?x j)) [0..<need] = utf8_code (uint v)"
    proof cases
      case two
      then have "is_cont (?x 1)" and "uint v = (uint (?x 0) - 192) * 64 + (uint (?x 1) - 128)"
        using tail by (simp_all add: rune_tail_Some upt_small)
      then show ?thesis
        using two ok utf8_code_2 [of "uint v" "uint (?x 0)" "uint (?x 1)"]
        by (simp add: is_cont_def upt_small)
    next
      case three
      then have "is_cont (?x 1)" and "is_cont (?x 2)" and
        "uint v = ((uint (?x 0) - 224) * 64 + (uint (?x 1) - 128)) * 64 + (uint (?x 2) - 128)"
        using tail by (simp_all add: rune_tail_Some upt_small)
      then show ?thesis
        using three ok utf8_code_3 [where n = "uint v" and a = "uint (?x 0)" and b = "uint (?x 1)" and c = "uint (?x 2)", OF _ _ refl]
        by (simp add: is_cont_def upt_small)
    next
      case four
      then have "is_cont (?x 1)" and "is_cont (?x 2)" and "is_cont (?x 3)" and
        "uint v = (((uint (?x 0) - 240) * 64 + (uint (?x 1) - 128)) * 64 + (uint (?x 2) - 128)) * 64
           + (uint (?x 3) - 128)"
        using tail by (simp_all add: rune_tail_Some upt_small)
      then show ?thesis
        using four ok utf8_code_4 [where n = "uint v" and a = "uint (?x 0)" and b = "uint (?x 1)" and c = "uint (?x 2)"
            and d = "uint (?x 3)", OF _ _ refl refl]
        by (simp add: is_cont_def upt_small)
    qed
    then show ?thesis
      using v fits n by (simp add: utf8_at_def) (metis length_map length_upt minus_nat.diff_0)
  qed
qed

lemma div_range:
  fixes n k b :: int
  assumes "0 < b"
  shows "n < k * b \<Longrightarrow> n div b < k" and "k * b \<le> n \<Longrightarrow> k \<le> n div b"
proof -
  show "n div b < k" if "n < k * b"
  proof (rule ccontr)
    assume "\<not> n div b < k"
    then have "k * b \<le> n div b * b" using assms by (simp add: mult_right_mono)
    also have "\<dots> \<le> n" using assms by (simp add: minus_mod_eq_div_mult [symmetric])
    finally show False using that by simp
  qed
  show "k \<le> n div b" if "k * b \<le> n"
    using zdiv_mono1 [OF that assms] assms by simp
qed

lemma utf8_at_facts:
  assumes "utf8_at data len offset v n"
  shows "scalar v" and "0 \<le> uint v" and "uint v \<le> 0x10FFFF" and "n = int (length (utf8_code (uint v)))"
    and "offset + n \<le> len"
    and "map (\<lambda>j. uint (data ! (nat offset + j))) [0..<length (utf8_code (uint v))] = utf8_code (uint v)"
  using assms by (auto simp: utf8_at_def scalar_def)

lemma rune_at_accepts:
  assumes "0 \<le> offset" and "offset < len" and "128 \<le> uint (data ! nat offset)"
    and "rune_lead (ucast (data ! nat offset)) = Some (need, v0, lowest)" and "offset + int need \<le> len"
    and "rune_tail data (nat offset) 1 need v0 = Some v" and "uint lowest \<le> uint v" and "scalar v"
  shows "loke_rt_v1_rune_at (Some data) len offset = (int need, v)"
  using assms rune_at_multi [OF assms(1,2), of data] by (simp add: rune_ok_scalar)

lemma mod64_range [simp]: "0 \<le> y mod 64" "y mod 64 < 64" for y :: int
  by simp_all

lemma base64_join:
  "n div 64 * 64 + n mod 64 = n"
  "(n div 64 div 64 * 64 + n div 64 mod 64) * 64 + n mod 64 = n"
  "((n div 64 div 64 div 64 * 64 + n div 64 div 64 mod 64) * 64 + n div 64 mod 64) * 64 + n mod 64 = n"
  for n :: int
  by (simp_all only: div_mult_mod_eq)

lemma rune_at_complete_2:
  assumes "0 \<le> offset" "offset < len" and at: "utf8_at data len offset v n"
    and two: "128 \<le> uint v" "uint v < 2048"
  shows "loke_rt_v1_rune_at (Some data) len offset = (n, v)"
proof -
  note f = utf8_at_facts [OF at] and b = base64_join(1) [of "uint v"]
  let ?x = "\<lambda>j. data ! (nat offset + j)"
  have n: "n = 2" and x: "uint (?x 0) = 192 + uint v div 64" "uint (?x 1) = 128 + uint v mod 64"
    using two f(4,6) by (simp_all add: utf8_code_def upt_small)
  have lead: "192 \<le> uint (?x 0)" "uint (?x 0) < 224"
    using two x div_range [of 64 "uint v" 32] div_range [of 64 "uint v" 2] by simp_all
  have "rune_tail data (nat offset) 1 2 (ucast (?x 0) AND 0x1F) = Some v"
    using x lead b lead_bits(1) [OF lead]
    by (subst rune_tail_Some) (simp_all add: upt_small is_cont_def)
  then show ?thesis
    using assms f(1,5) n lead rune_lead_cases [of "?x 0"]
    by (simp add: rune_at_accepts [where need = 2])
qed

lemma rune_at_complete_3:
  assumes "0 \<le> offset" "offset < len" and at: "utf8_at data len offset v n"
    and three: "2048 \<le> uint v" "uint v < 65536"
  shows "loke_rt_v1_rune_at (Some data) len offset = (n, v)"
proof -
  note f = utf8_at_facts [OF at] and b = base64_join(2) [of "uint v"]
  let ?x = "\<lambda>j. data ! (nat offset + j)"
  have n: "n = 3" and x: "uint (?x 0) = 224 + uint v div 64 div 64"
      "uint (?x 1) = 128 + uint v div 64 mod 64" "uint (?x 2) = 128 + uint v mod 64"
    using three f(4,6) by (simp_all add: utf8_code_def upt_small shift_div)
  have "uint v div 64 div 64 < 16" and "0 \<le> uint v div 64 div 64"
    using three div_range [of 4096 "uint v" 16] by (simp_all add: shift_div)
  with x have lead: "224 \<le> uint (?x 0)" "uint (?x 0) < 240" by linarith+
  have "rune_tail data (nat offset) 1 3 (ucast (?x 0) AND 0x0F) = Some v"
    using x lead b lead_bits(2) [OF lead]
    by (subst rune_tail_Some) (simp_all add: upt_small is_cont_def)
  then show ?thesis
    using assms f(1,5) n lead rune_lead_cases [of "?x 0"]
    by (simp add: rune_at_accepts [where need = 3])
qed

lemma rune_at_complete_4:
  assumes "0 \<le> offset" "offset < len" and at: "utf8_at data len offset v n"
    and four: "65536 \<le> uint v"
  shows "loke_rt_v1_rune_at (Some data) len offset = (n, v)"
proof -
  note f = utf8_at_facts [OF at]
  let ?x = "\<lambda>j. data ! (nat offset + j)"
  define p q r s where "p = uint v div 64 div 64 div 64" and "q = uint v div 64 div 64 mod 64"
    and "r = uint v div 64 mod 64" and "s = uint v mod 64"
  note pqrs = p_def q_def r_def s_def
  have n: "n = 4" and x: "uint (?x 0) = 240 + p" "uint (?x 1) = 128 + q" "uint (?x 2) = 128 + r"
      "uint (?x 3) = 128 + s"
    using four f(4,6) by (simp_all add: utf8_code_def upt_small shift_div numeral_3_eq_3 pqrs)
  have join: "uint v = ((p * 64 + q) * 64 + r) * 64 + s"
    unfolding pqrs by (rule base64_join(3) [symmetric])
  have digits: "0 \<le> p" "0 \<le> q" "q < 64" "0 \<le> r" "r < 64" "0 \<le> s" "s < 64"
    unfolding pqrs by (simp_all add: pos_imp_zdiv_nonneg_iff)
  have lead: "240 \<le> uint (?x 0)" "uint (?x 0) < 248"
    using f(3) join digits x(1) by (simp_all add: algebra_simps)
  have "rune_tail data (nat offset) 1 4 (ucast (?x 0) AND 0x07) = Some v"
    using x lead join digits lead_bits(3) [OF lead]
    by (subst rune_tail_Some) (simp_all add: upt_small is_cont_def)
  then show ?thesis
    using assms f(1,5) n lead rune_lead_cases [of "?x 0"]
    by (simp add: rune_at_accepts [where need = 4])
qed

lemma rune_at_complete:
  assumes "0 \<le> offset" "offset < len" and at: "utf8_at data len offset v n"
  shows "loke_rt_v1_rune_at (Some data) len offset = (n, v)"
proof (cases "uint v < 128")
  case True
  let ?b = "data ! nat offset"
  have "n = 1" and "uint ?b = uint v"
    using True utf8_at_facts(4,6) [OF at] by (simp_all add: utf8_code_def)
  moreover have "ucast ?b = v"
    using byte_class [of ?b] \<open>uint ?b = uint v\<close> by (simp add: word_uint_eq_iff)
  ultimately show ?thesis
    using assms True by (simp add: loke_rt_v1_rune_at_def u32_uint)
next
  case False
  then show ?thesis
    using rune_at_complete_2 [OF assms] rune_at_complete_3 [OF assms] rune_at_complete_4 [OF assms]
    by (meson not_less)
qed

lemma map_uint_inject: "map uint xs = map uint ys \<longleftrightarrow> xs = ys" for xs ys :: "u8 list"
  by (rule inj_map_eq_map) (simp add: inj_def word_uint_eq_iff)

lemma nth_segment: "map (\<lambda>j. f ((pre @ rest) ! (length pre + j))) [0..<n] = map f (take n rest)" if "n \<le> length rest"
  using that by (auto intro: nth_equalityI)

text \<open>The decoder on a whole buffer.\<close>

definition decode_at :: "u8 list \<Rightarrow> nat \<Rightarrow> int \<times> u32" where
  "decode_at bs k = loke_rt_v1_rune_at (Some bs) (int (length bs)) (int k)"

lemma utf8_at_prefix:
  "utf8_at (pre @ rest) (int (length (pre @ rest))) (int (length pre)) v n \<longleftrightarrow>
     scalar v \<and> n = int (length (loke_rt_encode_rune v)) \<and> prefix (loke_rt_encode_rune v) rest"
proof (cases "scalar v")
  case True
  note enc = encode_rune_utf8 [OF True]
  have len: "length (utf8_code (uint v)) = length (loke_rt_encode_rune v)"
    by (simp flip: enc)
  have "map (\<lambda>j. uint ((pre @ rest) ! (length pre + j))) [0..<length (loke_rt_encode_rune v)] = utf8_code (uint v)
      \<longleftrightarrow> take (length (loke_rt_encode_rune v)) rest = loke_rt_encode_rune v"
    if "length (loke_rt_encode_rune v) \<le> length rest"
    using that by (simp only: nth_segment enc [symmetric] map_uint_inject)
  then show ?thesis
    using True by (auto simp: utf8_at_def len prefix_def dest: arg_cong [of _ _ length])
      (metis append_take_drop_id)
qed (simp add: utf8_at_def)

lemma encode_rune_nonempty: "scalar v \<Longrightarrow> 0 < length (loke_rt_encode_rune v)"
  by (simp add: encode_rune_scalar)

lemma decode_at_prefix:
  "decode_at (pre @ rest) (length pre) = (n, v) \<and> n \<noteq> 0 \<longleftrightarrow>
     scalar v \<and> n = int (length (loke_rt_encode_rune v)) \<and> prefix (loke_rt_encode_rune v) rest"
proof
  assume "decode_at (pre @ rest) (length pre) = (n, v) \<and> n \<noteq> 0"
  then show "scalar v \<and> n = int (length (loke_rt_encode_rune v)) \<and> prefix (loke_rt_encode_rune v) rest"
    unfolding decode_at_def using rune_at_sound(3) utf8_at_prefix by blast
next
  assume acc: "scalar v \<and> n = int (length (loke_rt_encode_rune v)) \<and> prefix (loke_rt_encode_rune v) rest"
  then have "0 < n" and "int (length pre) < int (length (pre @ rest))"
    using encode_rune_nonempty [of v] by (auto simp: prefix_def)
  moreover have "utf8_at (pre @ rest) (int (length (pre @ rest))) (int (length pre)) v n"
    using acc utf8_at_prefix by blast
  ultimately show "decode_at (pre @ rest) (length pre) = (n, v) \<and> n \<noteq> 0"
    unfolding decode_at_def by (simp add: rune_at_complete del: length_append)
qed

lemma decode_at_encoded:
  "decode_at (pre @ loke_rt_encode_rune v @ post) (length pre) = (int (length (loke_rt_encode_rune v)), v)"
  if "scalar v"
  using decode_at_prefix [of pre "loke_rt_encode_rune v @ post" "int (length (loke_rt_encode_rune v))" v] that
  by simp

abbreviation encode_runes :: "u32 list \<Rightarrow> u8 list" where
  "encode_runes vs \<equiv> concat (map loke_rt_encode_rune vs)"

lemma encode_runes_length: "length (encode_runes vs) \<le> 4 * length vs"
proof (induction vs)
  case (Cons v vs)
  have "length (loke_rt_encode_rune v) \<le> 4" by (simp add: loke_rt_encode_rune_def)
  with Cons show ?case by simp
qed simp

text \<open>One step of the validator and of the counter, at a position inside the buffer.\<close>

lemma utf8_valid_step:
  "utf8_valid_from (Some bs) (int (length bs)) (int k) \<longleftrightarrow>
     k < length bs \<longrightarrow> (fst (decode_at bs k) \<noteq> 0 \<and>
        utf8_valid_from (Some bs) (int (length bs)) (int k + fst (decode_at bs k)))"
  by (simp add: utf8_valid_from.simps [of _ _ "int k"] decode_at_def Let_def)

lemma rune_count_step:
  "rune_count_from (Some bs) (int (length bs)) (int k) c =
     (if k < length bs \<and> fst (decode_at bs k) \<noteq> 0
      then rune_count_from (Some bs) (int (length bs)) (int k + fst (decode_at bs k)) (c + 1) else c)"
  by (simp add: rune_count_from.simps [of _ _ "int k"] decode_at_def Let_def)

lemma encoded_step:
  assumes "list_all scalar (v # vs)" and "bs = pre @ encode_runes (v # vs)"
  shows "decode_at bs (length pre) = (int (length (loke_rt_encode_rune v)), v)"
    and "length pre < length bs" and "loke_rt_encode_rune v \<noteq> []"
    and "bs = (pre @ loke_rt_encode_rune v) @ encode_runes vs"
  using assms decode_at_encoded [of v pre "encode_runes vs"] encode_rune_nonempty [of v] by auto

lemma encoded_valid:
  "list_all scalar vs \<Longrightarrow> bs = pre @ encode_runes vs \<Longrightarrow>
     utf8_valid_from (Some bs) (int (length bs)) (int (length pre))"
proof (induction vs arbitrary: pre)
  case Nil
  then show ?case by (simp add: utf8_valid_from.simps)
next
  case (Cons v vs)
  note step = encoded_step [OF Cons.prems]
  have "utf8_valid_from (Some bs) (int (length bs)) (int (length (pre @ loke_rt_encode_rune v)))"
    using Cons.prems(1) step(4) by (intro Cons.IH) simp_all
  with step(1-3) show ?case by (simp add: utf8_valid_step [of bs "length pre"])
qed

lemma encoded_count:
  "list_all scalar vs \<Longrightarrow> bs = pre @ encode_runes vs \<Longrightarrow>
     rune_count_from (Some bs) (int (length bs)) (int (length pre)) c = c + int (length vs)"
proof (induction vs arbitrary: pre c)
  case Nil
  then show ?case by (simp add: rune_count_from.simps)
next
  case (Cons v vs)
  note step = encoded_step [OF Cons.prems]
  have "rune_count_from (Some bs) (int (length bs)) (int (length (pre @ loke_rt_encode_rune v))) (c + 1)
      = c + 1 + int (length vs)"
    using Cons.prems(1) step(4) by (intro Cons.IH) simp_all
  with step(1-3) show ?case by (simp add: rune_count_step [of bs "length pre"])
qed

lemma utf8_valid_from_decodes:
  assumes "utf8_valid_from (Some bs) (int (length bs)) (int (length pre))" and "bs = pre @ rest"
  shows "\<exists>vs. list_all scalar vs \<and> rest = encode_runes vs"
  using assms
proof (induction "length rest" arbitrary: pre rest rule: less_induct)
  case less
  show ?case
  proof (cases "rest = []")
    case True
    then show ?thesis by (intro exI [of _ "[]"]) simp
  next
    case False
    obtain n v where at: "decode_at bs (length pre) = (n, v)" by fastforce
    then have used: "n \<noteq> 0" and go: "utf8_valid_from (Some bs) (int (length bs)) (int (length pre) + n)"
      using less.prems False utf8_valid_step [of bs "length pre"] by simp_all
    obtain post where v: "scalar v" and n: "n = int (length (loke_rt_encode_rune v))"
      and rest: "rest = loke_rt_encode_rune v @ post"
      using used at decode_at_prefix [of pre rest n v] less.prems(2) by (auto simp: prefix_def)
    have "\<exists>vs. list_all scalar vs \<and> post = encode_runes vs"
      using less.prems(2) go rest n encode_rune_nonempty [OF v]
      by (intro less.hyps [of post "pre @ loke_rt_encode_rune v"]) simp_all
    then obtain vs where "list_all scalar vs" and "post = encode_runes vs" by blast
    then show ?thesis
      using v rest by (intro exI [of _ "v # vs"]) simp
  qed
qed

lemma utf8_valid_encoded:
  "loke_rt_v1_utf8_valid (Some bs) (int (length bs)) \<longleftrightarrow> (\<exists>vs. list_all scalar vs \<and> bs = encode_runes vs)"
  using encoded_valid [of _ bs "[]"] utf8_valid_from_decodes [of bs "[]" bs]
  by (auto simp: loke_rt_v1_utf8_valid_def)

lemma encode_rune_inject:
  assumes "scalar v" and "scalar w" and "loke_rt_encode_rune v @ p = loke_rt_encode_rune w @ q"
  shows "v = w" and "p = q"
proof -
  show "v = w"
    using decode_at_encoded [OF assms(1), of "[]" p] decode_at_encoded [OF assms(2), of "[]" q] assms(3) by simp
  then show "p = q" using assms(3) by simp
qed

lemma encode_runes_inject:
  "list_all scalar vs \<Longrightarrow> list_all scalar ws \<Longrightarrow> encode_runes vs = encode_runes ws \<Longrightarrow> vs = ws"
proof (induction vs arbitrary: ws)
  case Nil
  then show ?case using encode_rune_scalar by (cases ws) auto
next
  case (Cons v vs)
  then obtain w ws' where ws: "ws = w # ws'"
    using encode_rune_nonempty [of v] by (cases ws) auto
  have "loke_rt_encode_rune v @ encode_runes vs = loke_rt_encode_rune w @ encode_runes ws'"
    using Cons.prems(3) ws by simp
  moreover have "scalar v" "scalar w" using Cons.prems ws by simp_all
  ultimately have "v = w" and "encode_runes vs = encode_runes ws'"
    using encode_rune_inject by blast+
  moreover have "vs = ws'" using Cons.prems ws calculation(2) by (intro Cons.IH) simp_all
  ultimately show ?case using ws by simp
qed

section \<open>Comparison\<close>

abbreviation below :: "('a::ord \<times> 'a) set" where
  "below \<equiv> {(x, y). x < y}"

lemma lexord_asym_below: "(xs, ys) \<in> lexord (below :: ('a::order \<times> 'a) set) \<Longrightarrow> (ys, xs) \<notin> lexord below"
  by (rule lexord_asymmetric [rotated]) (auto simp: asym_iff)

lemma lexord_irrefl_below: "(xs, xs) \<notin> lexord (below :: ('a::order \<times> 'a) set)"
  using lexord_asym_below by blast

lemma lexord_total_below: "xs = ys \<or> (xs, ys) \<in> lexord below \<or> (ys, xs) \<in> lexord below" for xs :: "'a::linorder list"
  by (induction xs arbitrary: ys; case_tac ys) auto

lemma memcmp_sign_range: "memcmp_sign xs ys n \<in> {- 1, 0, 1}"
  by (induction xs ys n rule: memcmp_sign.induct) auto

lemma bytes_compare_Cons:
  "loke_rt_v1_bytes_compare (x # xs) (int (length (x # xs))) (y # ys) (int (length (y # ys))) =
     (if x < y then - 1 else if y < x then 1
      else loke_rt_v1_bytes_compare xs (int (length xs)) ys (int (length ys)))"
  by (auto simp: loke_rt_v1_bytes_compare_def Let_def nat_add_distrib)

lemma bytes_compare_lexord:
  "loke_rt_v1_bytes_compare a (int (length a)) b (int (length b)) =
     (if a = b then 0 else if (a, b) \<in> lexord below then - 1 else 1)"
proof (induction a b rule: list_induct2')
  case (4 x xs y ys)
  then show ?case unfolding bytes_compare_Cons by auto
qed (simp_all add: loke_rt_v1_bytes_compare_def)

lemma div_mod_lex:
  fixes n m k :: int
  assumes "n < m" and "0 < k"
  shows "n div k < m div k \<or> n div k = m div k \<and> n mod k < m mod k"
proof -
  have "n div k \<le> m div k" using assms by (intro zdiv_mono1) simp_all
  moreover have "n mod k < m mod k" if "n div k = m div k"
    using assms(1) div_mult_mod_eq [of n k] div_mult_mod_eq [of m k] unfolding that by linarith
  ultimately show ?thesis by linarith
qed

lemma utf8_code_less:
  assumes "0 \<le> n" and "n < m" and "m \<le> 0x10FFFF"
  shows "(utf8_code n @ p, utf8_code m @ q) \<in> lexord below"
proof -
  define n1 n2 n3 where "n1 = n div 64" and "n2 = n1 div 64" and "n3 = n2 div 64"
  define m1 m2 m3 where "m1 = m div 64" and "m2 = m1 div 64" and "m3 = m2 div 64"
  note defs = n1_def n2_def n3_def m1_def m2_def m3_def
  have d: "n1 < m1 \<or> n1 = m1 \<and> n mod 64 < m mod 64"
    "n1 < m1 \<Longrightarrow> n2 < m2 \<or> n2 = m2 \<and> n1 mod 64 < m1 mod 64"
    "n2 < m2 \<Longrightarrow> n3 < m3 \<or> n3 = m3 \<and> n2 mod 64 < m2 mod 64"
    "n1 = m1 \<Longrightarrow> n2 = m2" "n2 = m2 \<Longrightarrow> n3 = m3"
    using assms(2) by (simp_all add: div_mod_lex defs)
  have r: "n < 2048 \<Longrightarrow> n1 < 32" "n < 65536 \<Longrightarrow> n2 < 16"
    using div_range(1) [of 64 n 32] div_range(1) [of 4096 n 16] by (simp_all add: shift_div defs)
  have s: "0 \<le> m1" "0 \<le> m2" "0 \<le> m3"
    using assms(1,2) unfolding defs by (simp_all add: pos_imp_zdiv_nonneg_iff)
  have code: "utf8_code n = (if n < 128 then [n] else if n < 2048 then [192 + n1, 128 + n mod 64]
      else if n < 65536 then [224 + n2, 128 + n1 mod 64, 128 + n mod 64]
      else [240 + n3, 128 + n2 mod 64, 128 + n1 mod 64, 128 + n mod 64])"
    "utf8_code m = (if m < 128 then [m] else if m < 2048 then [192 + m1, 128 + m mod 64]
      else if m < 65536 then [224 + m2, 128 + m1 mod 64, 128 + m mod 64]
      else [240 + m3, 128 + m2 mod 64, 128 + m1 mod 64, 128 + m mod 64])"
    unfolding utf8_code_def shift_div defs by simp_all
  show ?thesis
    unfolding code using assms d r s by auto
qed

lemma lexord_map_uint: "(map uint xs, map uint ys) \<in> lexord below \<longleftrightarrow> (xs, ys) \<in> lexord below"
  for xs ys :: "u8 list"
  by (induction xs ys rule: list_induct2') (auto simp: word_less_alt word_uint_eq_iff)

lemma encode_rune_less:
  assumes "scalar v" and "scalar w" and "v < w"
  shows "(loke_rt_encode_rune v @ p, loke_rt_encode_rune w @ q) \<in> lexord below"
proof -
  have "(map uint (loke_rt_encode_rune v @ p), map uint (loke_rt_encode_rune w @ q)) \<in> lexord below"
    unfolding map_append encode_rune_utf8 [OF assms(1)] encode_rune_utf8 [OF assms(2)]
    using assms by (intro utf8_code_less) (simp_all add: u32_uint scalar_def)
  then show ?thesis by (simp only: lexord_map_uint)
qed

lemma encode_runes_less:
  "list_all scalar vs \<Longrightarrow> list_all scalar ws \<Longrightarrow> (vs, ws) \<in> lexord below \<Longrightarrow>
     (encode_runes vs, encode_runes ws) \<in> lexord below"
proof (induction vs ws rule: list_induct2')
  case (3 w ws)
  then show ?case by (cases "loke_rt_encode_rune w") (use encode_rune_scalar [of w] in auto)
next
  case (4 v vs w ws)
  then show ?case
    using encode_rune_less [of v w] by (auto intro: lexord_append_leftI)
qed simp_all

section \<open>Properties\<close>

text \<open>C8. Decoding is the exact inverse of encoding: at any position of any buffer the decoder
  accepts precisely when the bytes there begin with the encoding of a Unicode scalar value, and
  then it answers that value and its encoded length. Overlong forms, surrogates, values above
  U+10FFFF, stray continuation bytes and truncated sequences are all refused.\<close>

theorem rune_at_inverts_encode:
  "loke_rt_v1_rune_at (Some (pre @ rest)) (int (length (pre @ rest))) (int (length pre)) = (n, v) \<and> n \<noteq> 0
   \<longleftrightarrow> scalar v \<and> n = int (length (loke_rt_encode_rune v)) \<and> prefix (loke_rt_encode_rune v) rest"
  using decode_at_prefix [of pre rest n v] by (simp only: decode_at_def)

text \<open>C9. The validator accepts a buffer exactly when it is the concatenation of the encodings of
  some list of scalar values, that list is unique, and the rune counter answers its length.\<close>

theorem utf8_valid_iff_encoded:
  "loke_rt_v1_utf8_valid (Some bs) (int (length bs)) \<longleftrightarrow>
     (\<exists>!vs. list_all scalar vs \<and> bs = concat (map loke_rt_encode_rune vs) \<and>
        loke_rt_v1_rune_count (Some bs) (int (length bs)) = int (length vs))"
proof -
  have count: "loke_rt_v1_rune_count (Some bs) (int (length bs)) = int (length vs)"
    if "list_all scalar vs" and "bs = encode_runes vs" for vs
    using encoded_count [OF that(1), of bs "[]" 0] that(2) by (simp add: loke_rt_v1_rune_count_def)
  show ?thesis
    unfolding utf8_valid_encoded using count encode_runes_inject by blast
qed

text \<open>C14. Byte-wise comparison of two valid strings is the lexical order of their code points: the
  answer is 0 exactly for equal strings, and -1 exactly when the first is smaller rune by rune.\<close>

theorem bytes_compare_is_rune_order:
  assumes "list_all scalar vs" and "list_all scalar ws"
  defines "a \<equiv> concat (map loke_rt_encode_rune vs)" and "b \<equiv> concat (map loke_rt_encode_rune ws)"
  shows "loke_rt_v1_bytes_compare a (int (length a)) b (int (length b)) =
     (if vs = ws then 0 else if (vs, ws) \<in> lexord {(x, y). x < y} then - 1 else 1)"
proof -
  have eq: "a = b \<longleftrightarrow> vs = ws" using assms encode_runes_inject by auto
  have "(a, b) \<in> lexord below" if "(vs, ws) \<in> lexord below"
    using that assms encode_runes_less by blast
  moreover have "(a, b) \<notin> lexord below" if "(ws, vs) \<in> lexord below"
    using that assms encode_runes_less lexord_asym_below by blast
  ultimately show ?thesis
    unfolding bytes_compare_lexord eq using lexord_total_below [of vs ws] by auto
qed

theorem bytes_compare_is_rune_order_witness:
  "list_all scalar [0xFF5E] \<and> list_all scalar [0x1F600] \<and>
   loke_rt_v1_bytes_compare (concat (map loke_rt_encode_rune [0xFF5E])) 3
     (concat (map loke_rt_encode_rune [0x1F600])) 4 = - 1"
proof -
  have "list_all scalar [0xFF5E]" "list_all scalar [0x1F600]" by (simp_all add: scalar_def)
  moreover have "length (concat (map loke_rt_encode_rune [0xFF5E])) = 3"
    "length (concat (map loke_rt_encode_rune [0x1F600])) = 4" by code_simp+
  ultimately show ?thesis
    using bytes_compare_is_rune_order [of "[0xFF5E]" "[0x1F600]"] by (simp del: concat.simps list.map)
qed

end
