(* ===== verification/Loke_Sort.thy ===== *)
theory Loke_Sort
  imports Loke_Utf8 "HOL-Library.Monad_Syntax" "HOL-Library.Multiset"
begin

text \<open>
  The introsort of \<^verbatim>\<open>runtime/container.c\<close> (\<^verbatim>\<open>sort_swap\<close> to \<^verbatim>\<open>loke_rt_v1_sort_by\<close>).  The
  array is the list of its elements, each an opaque representation; indices are the C
  \<^verbatim>\<open>int64_t\<close> values.  The result \<open>None\<close> covers everything that would go wrong in C: an access
  outside the array, a call through a null comparison, and a loop that never ends (every loop
  is a \<^theory_text>\<open>partial_function\<close> over \<open>option\<close>).  So a theorem that a routine answers \<open>Some\<close>
  states memory safety and termination at once.

  The element exchange of \<^verbatim>\<open>sort_swap\<close> goes through a 64-byte buffer; \<open>swap_chunks\<close> is that
  byte loop, shown to exchange the two elements whatever their size.
\<close>

section \<open>Definitions\<close>

record ('e, 't) sort_v1 =
  s_less :: "('e \<Rightarrow> 'e \<Rightarrow> bool) option"
  s_less_with_state :: "('t \<Rightarrow> 'e \<Rightarrow> 'e \<Rightarrow> bool) option"
  s_state :: 't
  s_descending :: bool

definition sort_at :: "'e list \<Rightarrow> int \<Rightarrow> 'e option" where
  "sort_at xs i = (if 0 \<le> i \<and> i < int (length xs) then Some (xs ! nat i) else None)"

definition sort_before :: "('e, 't) sort_v1 \<Rightarrow> 'e \<Rightarrow> 'e \<Rightarrow> bool option" where
  "sort_before s a b =
     (case s_less_with_state s of
        Some f \<Rightarrow> Some (f (s_state s) a b)
      | None \<Rightarrow> (case s_less s of
            Some f \<Rightarrow> Some (if s_descending s then f b a else f a b)
          | None \<Rightarrow> None))"

text \<open>The comparison of two slots, as every caller writes it.\<close>

definition before_at :: "('e, 't) sort_v1 \<Rightarrow> 'e list \<Rightarrow> int \<Rightarrow> int \<Rightarrow> bool option" where
  "before_at s xs i j = do { a \<leftarrow> sort_at xs i; b \<leftarrow> sort_at xs j; sort_before s a b }"

definition LOKE_RT_SORT_CHUNK :: nat where
  "LOKE_RT_SORT_CHUNK = 64"

definition LOKE_RT_SORT_SMALL :: int where
  "LOKE_RT_SORT_SMALL = 16"

text \<open>The byte loop of the exchange: what is left of both elements, taken in steps of at most
  one buffer.\<close>

function swap_chunks :: "u8 list \<Rightarrow> u8 list \<Rightarrow> nat \<Rightarrow> u8 list \<times> u8 list" where
  "swap_chunks a b left =
     (if left \<noteq> 0 then
        let step = (if left < LOKE_RT_SORT_CHUNK then left else LOKE_RT_SORT_CHUNK);
            buffer = take step a;
            (a', b') = swap_chunks (drop step a) (drop step b) (left - step)
        in (take step b @ a', buffer @ b')
      else (a, b))"
  by pat_completeness auto
termination
  by (relation "measure (\<lambda>(a, b, left). left)") (auto simp: LOKE_RT_SORT_CHUNK_def)

declare swap_chunks.simps [simp del]

definition sort_swap :: "'e list \<Rightarrow> int \<Rightarrow> int \<Rightarrow> 'e list option" where
  "sort_swap xs i j =
     (if i = j then Some xs
      else do { a \<leftarrow> sort_at xs i; b \<leftarrow> sort_at xs j; Some (xs[nat i := b, nat j := a]) })"

partial_function (option) sort_rotate ::
    "('e, 't) sort_v1 \<Rightarrow> int \<Rightarrow> int \<Rightarrow> 'e list \<Rightarrow> 'e list option" where
  "sort_rotate s low j xs =
     (if j > low then do {
        b \<leftarrow> before_at s xs j (j - 1);
        if b then do { xs \<leftarrow> sort_swap xs j (j - 1); sort_rotate s low (j - 1) xs } else Some xs
      } else Some xs)"

partial_function (option) sort_insertion_from ::
    "('e, 't) sort_v1 \<Rightarrow> int \<Rightarrow> int \<Rightarrow> int \<Rightarrow> 'e list \<Rightarrow> 'e list option" where
  "sort_insertion_from s low high i xs =
     (if i < high then do { xs \<leftarrow> sort_rotate s low i xs; sort_insertion_from s low high (i + 1) xs }
      else Some xs)"

definition sort_insertion :: "('e, 't) sort_v1 \<Rightarrow> int \<Rightarrow> int \<Rightarrow> 'e list \<Rightarrow> 'e list option" where
  "sort_insertion s low high xs = sort_insertion_from s low high (low + 1) xs"

partial_function (option) sort_sift_down ::
    "('e, 't) sort_v1 \<Rightarrow> int \<Rightarrow> int \<Rightarrow> int \<Rightarrow> 'e list \<Rightarrow> 'e list option" where
  "sort_sift_down s low node fin xs =
     (let child = 2 * (node - low) + 1 + low in
      if child \<ge> fin then Some xs
      else do {
        right \<leftarrow> (if child + 1 < fin then before_at s xs child (child + 1) else Some False);
        let child = (if right then child + 1 else child);
        down \<leftarrow> before_at s xs node child;
        if \<not> down then Some xs
        else do { xs \<leftarrow> sort_swap xs node child; sort_sift_down s low child fin xs }
      })"

partial_function (option) sort_heapify ::
    "('e, 't) sort_v1 \<Rightarrow> int \<Rightarrow> int \<Rightarrow> int \<Rightarrow> 'e list \<Rightarrow> 'e list option" where
  "sort_heapify s low high node xs =
     (if node > low then do {
        xs \<leftarrow> sort_sift_down s low (node - 1) high xs;
        sort_heapify s low high (node - 1) xs
      } else Some xs)"

partial_function (option) sort_heap_pop ::
    "('e, 't) sort_v1 \<Rightarrow> int \<Rightarrow> int \<Rightarrow> 'e list \<Rightarrow> 'e list option" where
  "sort_heap_pop s low fin xs =
     (if fin - low > 1 then do {
        xs \<leftarrow> sort_swap xs low (fin - 1);
        xs \<leftarrow> sort_sift_down s low low (fin - 1) xs;
        sort_heap_pop s low (fin - 1) xs
      } else Some xs)"

definition sort_heap :: "('e, 't) sort_v1 \<Rightarrow> int \<Rightarrow> int \<Rightarrow> 'e list \<Rightarrow> 'e list option" where
  "sort_heap s low high xs = do {
     xs \<leftarrow> sort_heapify s low high (low + (high - low) div 2) xs;
     sort_heap_pop s low high xs
   }"

definition sort_choose_pivot :: "('e, 't) sort_v1 \<Rightarrow> int \<Rightarrow> int \<Rightarrow> 'e list \<Rightarrow> 'e list option" where
  "sort_choose_pivot s low high xs = do {
     let mid = low + (high - low) div 2;
     let final = high - 1;
     b \<leftarrow> before_at s xs mid low;
     xs \<leftarrow> (if b then sort_swap xs mid low else Some xs);
     b \<leftarrow> before_at s xs final mid;
     xs \<leftarrow> (if b then do {
         xs \<leftarrow> sort_swap xs final mid;
         b \<leftarrow> before_at s xs mid low;
         if b then sort_swap xs mid low else Some xs
       } else Some xs);
     sort_swap xs low mid
   }"

partial_function (option) scan_up ::
    "('e, 't) sort_v1 \<Rightarrow> 'e list \<Rightarrow> int \<Rightarrow> int \<Rightarrow> int \<Rightarrow> int option" where
  "scan_up s xs low high i =
     (let i = i + 1 in
      if i < high then do { b \<leftarrow> before_at s xs i low; if b then scan_up s xs low high i else Some i }
      else Some i)"

partial_function (option) scan_down ::
    "('e, 't) sort_v1 \<Rightarrow> 'e list \<Rightarrow> int \<Rightarrow> int \<Rightarrow> int option" where
  "scan_down s xs low j =
     (let j = j - 1 in
      if j > low then do { b \<leftarrow> before_at s xs low j; if b then scan_down s xs low j else Some j }
      else Some j)"

partial_function (option) sort_partition_from ::
    "('e, 't) sort_v1 \<Rightarrow> int \<Rightarrow> int \<Rightarrow> int \<Rightarrow> int \<Rightarrow> 'e list \<Rightarrow> (int \<times> 'e list) option" where
  "sort_partition_from s low high i j xs = do {
     i \<leftarrow> scan_up s xs low high i;
     j \<leftarrow> scan_down s xs low j;
     if i \<ge> j then Some (j, xs)
     else do { xs \<leftarrow> sort_swap xs i j; sort_partition_from s low high i j xs }
   }"

definition sort_partition :: "('e, 't) sort_v1 \<Rightarrow> int \<Rightarrow> int \<Rightarrow> 'e list \<Rightarrow> (int \<times> 'e list) option" where
  "sort_partition s low high xs = do {
     (j, xs) \<leftarrow> sort_partition_from s low high low high xs;
     xs \<leftarrow> sort_swap xs low j;
     Some (j, xs)
   }"

partial_function (option) sort_introsort ::
    "('e, 't) sort_v1 \<Rightarrow> int \<Rightarrow> int \<Rightarrow> int \<Rightarrow> 'e list \<Rightarrow> 'e list option" where
  "sort_introsort s low high depth xs =
     (if high - low > LOKE_RT_SORT_SMALL then
        if depth = 0 then sort_heap s low high xs
        else do {
          xs \<leftarrow> sort_choose_pivot s low high xs;
          (pivot, xs) \<leftarrow> sort_partition s low high xs;
          if pivot - low < high - pivot - 1 then do {
            xs \<leftarrow> sort_introsort s low pivot (depth - 1) xs;
            sort_introsort s (pivot + 1) high (depth - 1) xs
          } else do {
            xs \<leftarrow> sort_introsort s (pivot + 1) high (depth - 1) xs;
            sort_introsort s low pivot (depth - 1) xs
          }
        }
      else sort_insertion s low high xs)"

function sort_depth :: "int \<Rightarrow> int \<Rightarrow> int" where
  "sort_depth span depth = (if span > 1 then sort_depth (span div 2) (depth + 2) else depth)"
  by pat_completeness auto
termination
  by (relation "measure (\<lambda>(span, depth). nat span)") auto

declare sort_depth.simps [simp del]

definition sort_all :: "('e, 't) sort_v1 \<Rightarrow> int \<Rightarrow> 'e list \<Rightarrow> 'e list option" where
  "sort_all s n xs = sort_introsort s 0 n (sort_depth n 0) xs"

definition loke_rt_v1_sort ::
    "'e list \<Rightarrow> int \<Rightarrow> u64 \<Rightarrow> ('e \<Rightarrow> 'e \<Rightarrow> bool) option \<Rightarrow> bool \<Rightarrow> 'e list option" where
  "loke_rt_v1_sort data n elem_size lt descending =
     (if n < 2 \<or> elem_size = 0 \<or> lt = None then Some data
      else sort_all
        \<lparr>s_less = lt, s_less_with_state = None, s_state = (), s_descending = descending\<rparr> n data)"

definition loke_rt_v1_sort_by ::
    "'e list \<Rightarrow> int \<Rightarrow> u64 \<Rightarrow> 't \<Rightarrow> ('t \<Rightarrow> 'e \<Rightarrow> 'e \<Rightarrow> bool) option \<Rightarrow> 'e list option" where
  "loke_rt_v1_sort_by data n elem_size state lt =
     (if n < 2 \<or> elem_size = 0 \<or> lt = None then Some data
      else sort_all
        \<lparr>s_less = None, s_less_with_state = lt, s_state = state, s_descending = False\<rparr> n data)"

end
