(* ===== verification/Loke_Sort_Safety.thy ===== *)
theory Loke_Sort_Safety
  imports Loke_Sort
begin

text \<open>
  The sort is memory safe, ends and only exchanges elements, whatever the comparison answers:
  a comparison that is not an order (a language program can pass any predicate) may leave the
  array unsorted but never reaches outside it, never loses or duplicates an element and never
  hangs.  \<open>swapped l h xs ys\<close> is the invariant every routine keeps: \<open>ys\<close> arises from \<open>xs\<close> by
  exchanges between slots of \<open>{l..<h}\<close>.
\<close>

section \<open>Arrays with integer indices\<close>

definition at :: "'e list \<Rightarrow> int \<Rightarrow> 'e" where
  "at xs i = xs ! nat i"

definition swap_at :: "'e list \<Rightarrow> int \<Rightarrow> int \<Rightarrow> 'e list" where
  "swap_at xs i j = xs[nat i := at xs j, nat j := at xs i]"

abbreviation inside :: "'e list \<Rightarrow> int \<Rightarrow> bool" where
  "inside xs i \<equiv> 0 \<le> i \<and> i < int (length xs)"

lemma length_swap_at [simp]: "length (swap_at xs i j) = length xs"
  by (simp add: swap_at_def)

lemma at_swap_at:
  assumes "inside xs i" and "inside xs j" and "inside xs k"
  shows "at (swap_at xs i j) k = (if k = i then at xs j else if k = j then at xs i else at xs k)"
  using assms by (auto simp: swap_at_def at_def nth_list_update nat_eq_iff2)

lemma mset_swap_at: "inside xs i \<Longrightarrow> inside xs j \<Longrightarrow> mset (swap_at xs i j) = mset xs"
  by (simp add: swap_at_def at_def mset_swap nat_less_iff)

lemma sort_at_inside [simp]: "inside xs i \<Longrightarrow> sort_at xs i = Some (at xs i)"
  by (simp add: sort_at_def at_def)

lemma sort_swap_inside [simp]: "inside xs i \<Longrightarrow> inside xs j \<Longrightarrow> sort_swap xs i j = Some (swap_at xs i j)"
  by (auto simp: sort_swap_def swap_at_def at_def sort_at_def)

text \<open>Arrays that differ by exchanges inside \<open>{l..<h}\<close> only.\<close>

inductive swapped :: "int \<Rightarrow> int \<Rightarrow> 'e list \<Rightarrow> 'e list \<Rightarrow> bool" for l h :: int and xs :: "'e list" where
  swapped_refl: "swapped l h xs xs"
| swapped_step: "swapped l h xs ys \<Longrightarrow> l \<le> i \<Longrightarrow> i < h \<Longrightarrow> l \<le> j \<Longrightarrow> j < h \<Longrightarrow> swapped l h xs (swap_at ys i j)"

inductive_cases swappedE: "swapped l h xs ys"

text \<open>The part of the array a routine works on.\<close>

definition region :: "int \<Rightarrow> int \<Rightarrow> 'e list \<Rightarrow> bool" where
  "region l h xs \<longleftrightarrow> 0 \<le> l \<and> h \<le> int (length xs)"

lemma region_inside: "region l h xs \<Longrightarrow> l \<le> i \<Longrightarrow> i < h \<Longrightarrow> inside xs i"
  by (auto simp: region_def)

lemma swapped_length [simp]: "swapped l h xs ys \<Longrightarrow> length ys = length xs"
  by (induction rule: swapped.induct) auto

lemma swapped_region: "swapped l h xs ys \<Longrightarrow> region l' h' ys \<longleftrightarrow> region l' h' xs"
  by (simp add: region_def)

lemma swapped_mset: "swapped l h xs ys \<Longrightarrow> region l h xs \<Longrightarrow> mset ys = mset xs"
  by (induction rule: swapped.induct) (auto simp: mset_swap_at region_def)

lemma swapped_outside:
  "swapped l h xs ys \<Longrightarrow> region l h xs \<Longrightarrow> inside xs k \<Longrightarrow> k < l \<or> h \<le> k \<Longrightarrow> at ys k = at xs k"
  by (induction rule: swapped.induct) (auto simp: at_swap_at region_def)

lemma swapped_all:
  "swapped l h xs ys \<Longrightarrow> region l h xs \<Longrightarrow> \<forall>k. l \<le> k \<and> k < h \<longrightarrow> P (at xs k) \<Longrightarrow>
     \<forall>k. l \<le> k \<and> k < h \<longrightarrow> P (at ys k)"
proof (induction rule: swapped.induct)
  case (swapped_step ys i j)
  then have "region l h ys" by (simp add: swapped_region)
  with swapped_step show ?case
    by (auto simp: at_swap_at region_inside)
qed

lemma swapped_trans: "swapped l h ys zs \<Longrightarrow> swapped l h xs ys \<Longrightarrow> swapped l h xs zs"
  by (induction rule: swapped.induct) (auto intro: swapped.intros)

lemma swapped_widen: "swapped l h xs ys \<Longrightarrow> l' \<le> l \<Longrightarrow> h \<le> h' \<Longrightarrow> swapped l' h' xs ys"
  by (induction rule: swapped.induct) (auto intro: swapped.intros)

lemma swapped_then: "swapped l' h' ys zs \<Longrightarrow> swapped l h xs ys \<Longrightarrow> l \<le> l' \<Longrightarrow> h' \<le> h \<Longrightarrow> swapped l h xs zs"
  by (blast intro: swapped_trans swapped_widen)

lemma swapped_swap: "l \<le> i \<Longrightarrow> i < h \<Longrightarrow> l \<le> j \<Longrightarrow> j < h \<Longrightarrow> swapped l h xs (swap_at xs i j)"
  by (intro swapped.intros)

section \<open>Safety: any comparison\<close>

text \<open>A comparison is callable; nothing else is assumed of it here.\<close>

definition callable :: "('e, 't) sort_v1 \<Rightarrow> bool" where
  "callable s \<longleftrightarrow> s_less_with_state s \<noteq> None \<or> s_less s \<noteq> None"

definition before :: "('e, 't) sort_v1 \<Rightarrow> 'e \<Rightarrow> 'e \<Rightarrow> bool" where
  "before s a b = the (sort_before s a b)"

lemma before_at_inside: "callable s \<Longrightarrow> inside xs i \<Longrightarrow> inside xs j \<Longrightarrow> before_at s xs i j = Some (before s (at xs i) (at xs j))"
  by (auto simp: before_at_def before_def sort_before_def callable_def split: option.splits)


lemma sort_rotate_safe:
  assumes "callable s" and "region low (j + 1) xs"
  shows "\<exists>ys. sort_rotate s low j xs = Some ys \<and> swapped low (j + 1) xs ys"
  using assms
proof (induction "nat (j - low)" arbitrary: j xs rule: less_induct)
  case less
  show ?case
  proof (cases "j > low")
    case True
    have in_: "inside xs j" "inside xs (j - 1)"
      using less.prems True by (auto simp: region_def)
    let ?zs = "swap_at xs j (j - 1)"
    have "\<exists>ys. sort_rotate s low (j - 1) ?zs = Some ys \<and> swapped low (j - 1 + 1) ?zs ys"
      using less.prems True by (intro less.hyps) (auto simp: region_def)
    then obtain ys where "sort_rotate s low (j - 1) ?zs = Some ys" and "swapped low j ?zs ys"
      by auto
    moreover have "swapped low (j + 1) xs ?zs" using True by (intro swapped_swap) auto
    ultimately have "sort_rotate s low (j - 1) ?zs = Some ys" "swapped low (j + 1) xs ys"
      by (auto elim: swapped_then)
    then show ?thesis
      using less.prems(1) in_ True
      by (auto simp: sort_rotate.simps [of s low j] before_at_inside swapped_refl)
  qed (simp add: sort_rotate.simps [of s low j] swapped_refl)
qed

lemma sort_insertion_from_safe:
  assumes "callable s" and "region low high xs" and "low \<le> i"
  shows "\<exists>ys. sort_insertion_from s low high i xs = Some ys \<and> swapped low high xs ys"
  using assms
proof (induction "nat (high - i)" arbitrary: i xs rule: less_induct)
  case less
  show ?case
  proof (cases "i < high")
    case True
    then obtain zs where zs: "sort_rotate s low i xs = Some zs" "swapped low (i + 1) xs zs"
      using sort_rotate_safe [of s low i xs] less.prems by (auto simp: region_def)
    have "\<exists>ys. sort_insertion_from s low high (i + 1) zs = Some ys \<and> swapped low high zs ys"
      using less.prems True zs by (intro less.hyps) (auto simp: swapped_region)
    then obtain ys where "sort_insertion_from s low high (i + 1) zs = Some ys" "swapped low high zs ys"
      by blast
    moreover have "swapped low high xs zs" using zs(2) True by (auto elim: swapped_widen)
    ultimately show ?thesis
      using True zs(1) by (auto simp: sort_insertion_from.simps [of s low high i] elim: swapped_then)
  qed (simp add: sort_insertion_from.simps [of s low high i] swapped_refl)
qed

lemma sort_insertion_safe:
  "callable s \<Longrightarrow> region low high xs \<Longrightarrow> \<exists>ys. sort_insertion s low high xs = Some ys \<and> swapped low high xs ys"
  by (simp add: sort_insertion_def sort_insertion_from_safe)

lemma sort_sift_down_safe:
  assumes "callable s" and "region low fin xs" and "low \<le> node" and "node < fin"
  shows "\<exists>ys. sort_sift_down s low node fin xs = Some ys \<and> swapped low fin xs ys"
  using assms
proof (induction "nat (fin - node)" arbitrary: node xs rule: less_induct)
  case less
  let ?c = "2 * (node - low) + 1 + low"
  show ?case
  proof (cases "?c < fin")
    case True
    have child: "?c + 1 < fin \<Longrightarrow> inside xs (?c + 1)" "inside xs ?c" "inside xs node"
      using less.prems True by (auto simp: region_def)
    have step: "\<exists>ys. sort_sift_down s low d fin (swap_at xs node d) = Some ys \<and> swapped low fin xs ys"
      if "node < d" and "d < fin" for d
    proof -
      have "\<exists>ys. sort_sift_down s low d fin (swap_at xs node d) = Some ys \<and> swapped low fin (swap_at xs node d) ys"
        using that less.prems by (intro less.hyps) (auto simp: region_def)
      moreover have "swapped low fin xs (swap_at xs node d)"
        using that less.prems by (intro swapped_swap) auto
      ultimately show ?thesis by (blast intro: swapped_trans)
    qed
    show ?thesis
      using True child less.prems step [of ?c] step [of "?c + 1"]
      by (auto simp: sort_sift_down.simps [of s low node] Let_def before_at_inside swapped_refl)
  qed (simp add: sort_sift_down.simps [of s low node] swapped_refl)
qed

lemma sort_heapify_safe:
  assumes "callable s" and "region low high xs" and "node \<le> high"
  shows "\<exists>ys. sort_heapify s low high node xs = Some ys \<and> swapped low high xs ys"
  using assms
proof (induction "nat (node - low)" arbitrary: node xs rule: less_induct)
  case less
  show ?case
  proof (cases "node > low")
    case True
    then obtain zs where zs: "sort_sift_down s low (node - 1) high xs = Some zs" "swapped low high xs zs"
      using sort_sift_down_safe [of s low high xs "node - 1"] less.prems by auto
    have "\<exists>ys. sort_heapify s low high (node - 1) zs = Some ys \<and> swapped low high zs ys"
      using less.prems True zs by (intro less.hyps) (auto simp: swapped_region)
    then show ?thesis
      using True zs by (auto simp: sort_heapify.simps [of s low high node] elim: swapped_then)
  qed (simp add: sort_heapify.simps [of s low high node] swapped_refl)
qed

lemma sort_heap_pop_safe:
  assumes "callable s" and "region low fin xs"
  shows "\<exists>ys. sort_heap_pop s low fin xs = Some ys \<and> swapped low fin xs ys"
  using assms
proof (induction "nat (fin - low)" arbitrary: fin xs rule: less_induct)
  case less
  show ?case
  proof (cases "fin - low > 1")
    case True
    let ?ys = "swap_at xs low (fin - 1)"
    have in_: "inside xs low" "inside xs (fin - 1)" using less.prems True by (auto simp: region_def)
    have s1: "swapped low fin xs ?ys" using True by (intro swapped_swap) auto
    obtain zs where zs: "sort_sift_down s low low (fin - 1) ?ys = Some zs" "swapped low (fin - 1) ?ys zs"
      using sort_sift_down_safe [of s low "fin - 1" ?ys low] less.prems True by (auto simp: region_def)
    have s2: "swapped low fin xs zs" using zs(2) s1 by (rule swapped_then) auto
    have "\<exists>us. sort_heap_pop s low (fin - 1) zs = Some us \<and> swapped low (fin - 1) zs us"
      using less.prems True zs s2 by (intro less.hyps) (auto simp: region_def)
    then obtain us where us: "sort_heap_pop s low (fin - 1) zs = Some us" "swapped low (fin - 1) zs us"
      by blast
    then have "swapped low fin xs us" using s2 by (auto elim: swapped_then)
    then show ?thesis
      using True zs(1) in_ us(1) by (simp add: sort_heap_pop.simps [of s low fin])
  qed (simp add: sort_heap_pop.simps [of s low fin] swapped_refl)
qed

lemma sort_heap_safe:
  assumes "callable s" and "region low high xs" and "low \<le> high"
  shows "\<exists>ys. sort_heap s low high xs = Some ys \<and> swapped low high xs ys"
proof -
  have "low + (high - low) div 2 \<le> high" using assms(3) by linarith
  then obtain zs where zs: "sort_heapify s low high (low + (high - low) div 2) xs = Some zs" "swapped low high xs zs"
    using sort_heapify_safe [OF assms(1,2)] by blast
  moreover obtain ys where "sort_heap_pop s low high zs = Some ys" "swapped low high zs ys"
    using sort_heap_pop_safe [OF assms(1), of low high zs] assms(2) zs by (auto simp: swapped_region)
  ultimately show ?thesis by (auto simp: sort_heap_def elim: swapped_then)
qed


lemma sort_choose_pivot_safe:
  assumes "callable s" and "region low high xs" and "low < high"
  shows "\<exists>ys. sort_choose_pivot s low high xs = Some ys \<and> swapped low high xs ys"
proof -
  let ?mid = "low + (high - low) div 2"
  have mid: "low \<le> ?mid" "?mid < high" using assms(3) by auto
  have in_: "inside zs low \<and> inside zs ?mid \<and> inside zs (high - 1)" if "length zs = length xs" for zs :: "'a list"
    using that assms mid by (auto simp: region_def)
  have step: "swapped low high xs (swap_at zs i j)"
    if "swapped low high xs zs" and "i \<in> {low, ?mid, high - 1}" and "j \<in> {low, ?mid, high - 1}" for zs i j
    using that mid by (intro swapped_step) auto
  show ?thesis
    using assms(1) in_
    by (auto simp: sort_choose_pivot_def Let_def before_at_inside step swapped_refl)
qed

lemma scan_up_safe:
  assumes "callable s" and "region low high xs" and "low \<le> i" and "i < high"
  shows "\<exists>r. scan_up s xs low high i = Some r \<and> i < r \<and> r \<le> high"
  using assms(3,4)
proof (induction "nat (high - i)" arbitrary: i rule: less_induct)
  case less
  have "inside xs low" using assms less.prems by (auto simp: region_def)
  moreover have "inside xs (i + 1)" if "i + 1 < high" using that assms(2) less.prems by (auto simp: region_def)
  moreover have "\<exists>r. scan_up s xs low high (i + 1) = Some r \<and> i + 1 < r \<and> r \<le> high" if "i + 1 < high"
    using that less.prems by (intro less.hyps) auto
  ultimately show ?case
    using assms(1) less.prems by (auto simp: scan_up.simps [of s xs low high i] Let_def before_at_inside)
qed

lemma scan_down_safe:
  assumes "callable s" and "region low high xs" and "low < j" and "j \<le> high"
  shows "\<exists>r. scan_down s xs low j = Some r \<and> low \<le> r \<and> r < j"
  using assms(3,4)
proof (induction "nat (j - low)" arbitrary: j rule: less_induct)
  case less
  have "inside xs low" "inside xs (j - 1)" using assms(2) less.prems by (auto simp: region_def)
  moreover have "\<exists>r. scan_down s xs low (j - 1) = Some r \<and> low \<le> r \<and> r < j - 1" if "low < j - 1"
    using that less.prems by (intro less.hyps) auto
  ultimately show ?case
    using assms(1) less.prems by (auto simp: scan_down.simps [of s xs low j] Let_def before_at_inside)
qed

lemma sort_partition_from_safe:
  assumes "callable s" and "region low high xs" and "low \<le> i" and "i < high" and "low < j" and "j \<le> high"
  shows "\<exists>p ys. sort_partition_from s low high i j xs = Some (p, ys) \<and> low \<le> p \<and> p < high \<and> swapped low high xs ys"
  using assms
proof (induction "nat (high - i)" arbitrary: i j xs rule: less_induct)
  case less
  obtain i' where i': "scan_up s xs low high i = Some i'" "i < i'" "i' \<le> high"
    using scan_up_safe less.prems by blast
  obtain j' where j': "scan_down s xs low j = Some j'" "low \<le> j'" "j' < j"
    using scan_down_safe less.prems by blast
  show ?case
  proof (cases "i' \<ge> j'")
    case True
    then show ?thesis
      using i' j' less.prems by (auto simp: sort_partition_from.simps [of s low high i] swapped_refl)
  next
    case False
    let ?zs = "swap_at xs i' j'"
    have "inside xs i'" "inside xs j'" using False i' j' less.prems by (auto simp: region_def)
    moreover have "swapped low high xs ?zs"
      using False i' j' less.prems by (intro swapped_swap) auto
    moreover have "\<exists>p ys. sort_partition_from s low high i' j' ?zs = Some (p, ys) \<and> low \<le> p \<and> p < high \<and> swapped low high ?zs ys"
      using False i' j' less.prems by (intro less.hyps) (auto simp: region_def)
    ultimately show ?thesis
      using False i' j' by (auto simp: sort_partition_from.simps [of s low high i] elim: swapped_then)
  qed
qed

lemma sort_partition_safe:
  assumes "callable s" and "region low high xs" and "low < high"
  shows "\<exists>p ys. sort_partition s low high xs = Some (p, ys) \<and> low \<le> p \<and> p < high \<and> swapped low high xs ys"
proof -
  obtain p zs where p: "sort_partition_from s low high low high xs = Some (p, zs)" "low \<le> p" "p < high"
    and zs: "swapped low high xs zs"
    using sort_partition_from_safe [OF assms(1,2), of low high] assms(3) by auto
  then have "inside zs low" "inside zs p" using assms by (auto simp: region_def)
  moreover have "swapped low high xs (swap_at zs low p)"
    using zs p by (intro swapped_step) auto
  ultimately show ?thesis using p by (simp add: sort_partition_def)
qed

lemma sort_introsort_safe:
  assumes "callable s" and "region low high xs" and "low \<le> high"
  shows "\<exists>ys. sort_introsort s low high depth xs = Some ys \<and> swapped low high xs ys"
  using assms
proof (induction "nat (high - low)" arbitrary: low high depth xs rule: less_induct)
  case less
  show ?case
  proof (cases "high - low > LOKE_RT_SORT_SMALL \<and> depth \<noteq> 0")
    case True
    then have big: "low < high" by (simp add: LOKE_RT_SORT_SMALL_def)
    obtain ys where ys: "sort_choose_pivot s low high xs = Some ys" "swapped low high xs ys"
      using sort_choose_pivot_safe [OF less.prems(1,2) big] by blast
    obtain p zs where p: "sort_partition s low high ys = Some (p, zs)" "low \<le> p" "p < high" "swapped low high ys zs"
      using sort_partition_safe [OF less.prems(1) _ big, of ys] ys less.prems(2) by (auto simp: swapped_region)
    have zs: "swapped low high xs zs" using p(4) ys(2) by (rule swapped_trans)
    have half: "\<exists>vs. sort_introsort s l h (depth - 1) us = Some vs \<and> swapped low high us vs"
      if "swapped low high xs us" and "(l, h) \<in> {(low, p), (p + 1, high)}" for l h us
    proof -
      have "\<exists>vs. sort_introsort s l h (depth - 1) us = Some vs \<and> swapped l h us vs"
        using that less.prems p(2,3) by (intro less.hyps) (auto simp: region_def)
      then show ?thesis using that(2) p(2,3) swapped_widen [of l h us _ low high] by auto
    qed
    obtain us vs where left: "sort_introsort s low p (depth - 1) zs = Some us" "swapped low high zs us"
      and right: "sort_introsort s (p + 1) high (depth - 1) us = Some vs" "swapped low high us vs"
      using half [OF zs, of low p] half [of _ "p + 1" high] zs swapped_trans by (metis insertI1 insertI2)
    obtain us' vs' where right': "sort_introsort s (p + 1) high (depth - 1) zs = Some us'" "swapped low high zs us'"
      and left': "sort_introsort s low p (depth - 1) us' = Some vs'" "swapped low high us' vs'"
      using half [OF zs, of "p + 1" high] half [of _ low p] zs swapped_trans by (metis insertI1 insertI2)
    have "swapped low high xs vs" "swapped low high xs vs'"
      using zs left(2) right(2) left'(2) right'(2) swapped_trans by blast+
    then show ?thesis
      using True ys p left right left' right' by (simp add: sort_introsort.simps [of s low high])
  next
    case False
    then show ?thesis
      using sort_heap_safe [OF less.prems] sort_insertion_safe [OF less.prems(1,2)]
      by (auto simp: sort_introsort.simps [of s low high])
  qed
qed

section \<open>The byte exchange\<close>

lemma swap_chunks_exchange: "length a = n \<Longrightarrow> length b = n \<Longrightarrow> swap_chunks a b n = (b, a)"
proof (induction n arbitrary: a b rule: less_induct)
  case (less n)
  show ?case
  proof (cases "n = 0")
    case False
    define k where "k = (if n < LOKE_RT_SORT_CHUNK then n else LOKE_RT_SORT_CHUNK)"
    have "0 < k" "k \<le> n" using False by (auto simp: k_def LOKE_RT_SORT_CHUNK_def)
    then have "swap_chunks (drop k a) (drop k b) (n - k) = (drop k b, drop k a)"
      using less.prems by (intro less.IH) auto
    with False show ?thesis
      by (simp add: swap_chunks.simps [of a b n] k_def [symmetric])
  qed (use less.prems in \<open>simp add: swap_chunks.simps\<close>)
qed

section \<open>Properties\<close>

lemma sort_all_safe:
  assumes "callable s"
  shows "\<exists>ys. sort_all s (int (length xs)) xs = Some ys \<and> mset ys = mset xs"
proof -
  have "region 0 (int (length xs)) xs" by (simp add: region_def)
  with assms sort_introsort_safe [of s 0 "int (length xs)" xs] show ?thesis
    by (auto simp: sort_all_def dest: swapped_mset)
qed

text \<open>C17. Whatever predicate the program hands to the sort, and whatever state that predicate
  carries, sorting the whole array ends, touches no slot outside it and answers a permutation of
  it: a comparison that is no order at all cannot make the runtime misbehave.\<close>

theorem sort_by_any_comparison:
  "\<exists>ys. loke_rt_v1_sort_by xs (int (length xs)) elem_size state (Some f) = Some ys \<and> mset ys = mset xs"
  by (simp add: loke_rt_v1_sort_by_def sort_all_safe callable_def)

text \<open>The exchange of two elements through the 64-byte buffer exchanges them entirely, for
  every element size: the last, shorter step included.\<close>

lemma sort_swap_bytes:
  assumes "length a = length b"
  shows "swap_chunks a b (length a) = (b, a)"
  using assms by (simp add: swap_chunks_exchange)

end
