(* ===== verification/Loke_Sort_Order.thy ===== *)
theory Loke_Sort_Order
  imports Loke_Sort_Safety
begin

text \<open>
  The sort sorts.  The contract of a comparison is the locale \<open>strict_weak_order\<close>; the sort
  description that calls one is \<open>ordered_sort\<close>, inside which insertion sort, heapsort, the
  Hoare partition and the introsort over them are shown to leave their range in order.  Both
  are interpreted on the byte comparison of \<^verbatim>\<open>text.c\<close>, the order of Loke strings.
\<close>

section \<open>The contract of a comparison\<close>

locale strict_weak_order =
  fixes lt :: "'e \<Rightarrow> 'e \<Rightarrow> bool"
  assumes asym: "lt a b \<Longrightarrow> \<not> lt b a"
    and incomparable_trans: "\<not> lt a b \<Longrightarrow> \<not> lt b c \<Longrightarrow> \<not> lt a c"
begin

definition le :: "'e \<Rightarrow> 'e \<Rightarrow> bool" where
  "le a b \<longleftrightarrow> \<not> lt b a"

lemma le_refl [simp]: "le a a"
  using asym by (auto simp: le_def)

lemma le_trans: "le a b \<Longrightarrow> le b c \<Longrightarrow> le a c"
  using incomparable_trans by (auto simp: le_def)

lemma lt_le: "lt a b \<Longrightarrow> le a b"
  using asym by (auto simp: le_def)

lemma flipped: "strict_weak_order (\<lambda>a b. lt b a)"
  using asym incomparable_trans by unfold_locales blast+

end

locale ordered_sort = strict_weak_order "before s" for s :: "('e, 't) sort_v1" +
  assumes callable: "callable s"
begin

definition sorted_on :: "int \<Rightarrow> int \<Rightarrow> 'e list \<Rightarrow> bool" where
  "sorted_on l h xs \<longleftrightarrow> (\<forall>i j. l \<le> i \<and> i < j \<and> j < h \<longrightarrow> le (at xs i) (at xs j))"

lemma before_run: "inside xs i \<Longrightarrow> inside xs j \<Longrightarrow> before_at s xs i j = Some (before s (at xs i) (at xs j))"
  by (rule before_at_inside [OF callable])

lemma sorted_on_join:
  assumes "sorted_on l p xs" and "sorted_on (p + 1) h xs"
    and "\<forall>k. l \<le> k \<and> k < p \<longrightarrow> le (at xs k) (at xs p)"
    and "\<forall>k. p < k \<and> k < h \<longrightarrow> le (at xs p) (at xs k)"
  shows "sorted_on l h xs"
  unfolding sorted_on_def
proof (intro allI impI)
  fix i j assume ij: "l \<le> i \<and> i < j \<and> j < h"
  consider "j < p" | "j = p" | "p < j" "i < p" | "i = p" | "p < i" by linarith
  then show "le (at xs i) (at xs j)"
    using ij assms by cases (auto simp: sorted_on_def intro: le_trans)
qed

subsection \<open>Insertion\<close>

definition sorted_but :: "int \<Rightarrow> int \<Rightarrow> int \<Rightarrow> 'e list \<Rightarrow> bool" where
  "sorted_but l h j xs \<longleftrightarrow> (\<forall>a b. l \<le> a \<and> a < b \<and> b < h \<and> b \<noteq> j \<longrightarrow> le (at xs a) (at xs b))"

lemma sorted_but_done:
  assumes "sorted_but l h j xs" and "j > l \<longrightarrow> le (at xs (j - 1)) (at xs j)"
  shows "sorted_on l h xs"
  unfolding sorted_on_def
proof (intro allI impI)
  fix a b assume ab: "l \<le> a \<and> a < b \<and> b < h"
  have "le (at xs a) (at xs j)" if "b = j"
  proof (cases "a = j - 1")
    case False
    then have "le (at xs a) (at xs (j - 1))" using assms(1) that ab by (auto simp: sorted_but_def)
    then show ?thesis using assms(2) that ab by (auto intro: le_trans)
  qed (use assms(2) that ab in auto)
  with assms(1) ab show "le (at xs a) (at xs b)" by (auto simp: sorted_but_def)
qed

lemma sorted_but_swap:
  assumes "sorted_but l h j xs" and "before s (at xs j) (at xs (j - 1))"
    and "region l h xs" and "l < j" and "j < h"
  shows "sorted_but l h (j - 1) (swap_at xs j (j - 1))"
  unfolding sorted_but_def
proof (intro allI impI)
  fix a b assume ab: "l \<le> a \<and> a < b \<and> b < h \<and> b \<noteq> j - 1"
  then have ins: "inside xs a" "inside xs b" "inside xs j" "inside xs (j - 1)"
    using assms by (auto simp: region_def)
  have "le (at xs j) (at xs (j - 1))" using assms(2) by (rule lt_le)
  then show "le (at (swap_at xs j (j - 1)) a) (at (swap_at xs j (j - 1)) b)"
    using assms ab ins by (auto simp: sorted_but_def at_swap_at)
qed

lemma sort_rotate_sorts:
  assumes "region low h xs" and "sorted_but low h j xs" and "low \<le> j" and "j < h"
    and "sort_rotate s low j xs = Some ys"
  shows "sorted_on low h ys"
  using assms
proof (induction "nat (j - low)" arbitrary: j xs rule: less_induct)
  case less
  have ins: "inside xs j" "j > low \<longrightarrow> inside xs (j - 1)" using less.prems by (auto simp: region_def)
  show ?case
  proof (cases "j > low \<and> before s (at xs j) (at xs (j - 1))")
    case True
    then have "sort_rotate s low (j - 1) (swap_at xs j (j - 1)) = Some ys"
      using less.prems(5) ins by (simp add: sort_rotate.simps [of s low j] before_run)
    moreover have "region low h (swap_at xs j (j - 1))" using less.prems(1) by (simp add: region_def)
    ultimately show ?thesis
      using less.prems True sorted_but_swap [of low h j xs] by (intro less.hyps) auto
  next
    case False
    then have "ys = xs"
      using less.prems(5) ins by (auto simp: sort_rotate.simps [of s low j] before_run split: if_splits)
    with False less.prems show ?thesis by (intro sorted_but_done) (auto simp: le_def)
  qed
qed

lemma sort_insertion_from_sorts:
  assumes "region low high xs" and "sorted_on low i xs" and "low \<le> i"
    and "sort_insertion_from s low high i xs = Some ys"
  shows "sorted_on low high ys"
  using assms
proof (induction "nat (high - i)" arbitrary: i xs rule: less_induct)
  case less
  show ?case
  proof (cases "i < high")
    case True
    have "region low (i + 1) xs" using less.prems(1) True by (simp add: region_def)
    moreover from this obtain zs where zs: "sort_rotate s low i xs = Some zs" "swapped low (i + 1) xs zs"
      using sort_rotate_safe [OF callable] by blast
    moreover have "sorted_but low (i + 1) i xs"
      using less.prems(2) by (auto simp: sorted_but_def sorted_on_def)
    ultimately have "sorted_on low (i + 1) zs"
      using less.prems(3) by (intro sort_rotate_sorts) auto
    moreover have "sort_insertion_from s low high (i + 1) zs = Some ys"
      using less.prems(4) True zs by (simp add: sort_insertion_from.simps [of s low high i])
    ultimately show ?thesis
      using less.prems(1,3) True zs(2) by (intro less.hyps) (auto simp: region_def)
  next
    case False
    with less.prems show ?thesis
      by (auto simp: sort_insertion_from.simps [of s low high i] sorted_on_def)
  qed
qed

lemma sort_insertion_sorts:
  assumes "region low high xs" and "sort_insertion s low high xs = Some ys"
  shows "sorted_on low high ys"
proof -
  have "sorted_on low (low + 1) xs" by (auto simp: sorted_on_def)
  with assms show ?thesis
    by (intro sort_insertion_from_sorts [of low high xs "low + 1"]) (auto simp: sort_insertion_def)
qed

subsection \<open>Heap\<close>

definition parent :: "int \<Rightarrow> int \<Rightarrow> int" where
  "parent low k = low + (k - low - 1) div 2"

definition heap_but :: "int \<Rightarrow> int \<Rightarrow> int \<Rightarrow> int \<Rightarrow> 'e list \<Rightarrow> bool" where
  "heap_but low n node fin xs \<longleftrightarrow>
     (\<forall>k. low < k \<and> k < fin \<and> n \<le> parent low k \<and> parent low k \<noteq> node \<longrightarrow> le (at xs k) (at xs (parent low k))) \<and>
     (\<forall>k. low < k \<and> k < fin \<and> parent low k = node \<and> low < node \<and> n \<le> parent low node \<longrightarrow>
        le (at xs k) (at xs (parent low node)))"

definition heap_on :: "int \<Rightarrow> int \<Rightarrow> int \<Rightarrow> 'e list \<Rightarrow> bool" where
  "heap_on low n fin xs \<longleftrightarrow>
     (\<forall>k. low < k \<and> k < fin \<and> n \<le> parent low k \<longrightarrow> le (at xs k) (at xs (parent low k)))"

lemma parent_less: "low < k \<Longrightarrow> low \<le> parent low k \<and> parent low k < k"
  unfolding parent_def by linarith

lemma parent_children: "low < k \<Longrightarrow> parent low k = node \<longleftrightarrow> k = 2 * (node - low) + 1 + low \<or> k = 2 * (node - low) + 2 + low"
  unfolding parent_def by presburger

lemma heap_but_done:
  assumes "heap_but low n node fin xs"
    and "\<forall>k. low < k \<and> k < fin \<and> parent low k = node \<longrightarrow> le (at xs k) (at xs node)"
  shows "heap_on low n fin xs"
  using assms by (auto simp: heap_but_def heap_on_def)

lemma heap_but_down:
  assumes heap: "heap_but low n node fin xs" and reg: "region low fin xs"
    and "low \<le> n" and "n \<le> node" and "low < c" and "c < fin" and c: "parent low c = node"
    and up: "before s (at xs node) (at xs c)"
    and other: "\<forall>k. low < k \<and> k < fin \<and> parent low k = node \<longrightarrow> le (at xs k) (at xs c)"
  shows "heap_but low n c fin (swap_at xs node c)"
proof -
  have node: "low \<le> node" "node < c" using parent_less [OF \<open>low < c\<close>] c by auto
  have ins: "inside xs k" if "low \<le> k" "k < fin" for k
    using that reg by (auto simp: region_def)
  have sw: "at (swap_at xs node c) k = (if k = node then at xs c else if k = c then at xs node else at xs k)"
    if "low \<le> k" "k < fin" for k
    using ins that node assms(6) by (intro at_swap_at) auto
  have par: "low \<le> parent low k \<and> parent low k < fin" if "low < k" "k < fin" for k
    using parent_less [of low k] that by auto
  have down: "le (at xs node) (at xs c)" using up by (rule lt_le)
  show ?thesis
    unfolding heap_but_def
  proof (intro conjI allI impI)
    fix k assume k: "low < k \<and> k < fin \<and> n \<le> parent low k \<and> parent low k \<noteq> c"
    show "le (at (swap_at xs node c) k) (at (swap_at xs node c) (parent low k))"
      using k par [of k] sw [of k] sw [of "parent low k"] heap c down other parent_less [of low k] node assms(5,6)
      by (auto simp: heap_but_def)
  next
    fix k assume k: "low < k \<and> k < fin \<and> parent low k = c \<and> low < c \<and> n \<le> parent low c"
    then have "k \<noteq> node" "k \<noteq> c" using parent_less [of low k] node by auto
    then show "le (at (swap_at xs node c) k) (at (swap_at xs node c) (parent low c))"
      using k sw [of k] sw [of node] heap c node assms(4,6)
      by (auto simp: heap_but_def)
  qed
qed

lemma sort_sift_down_heaps:
  assumes "region low fin xs" and "heap_but low n node fin xs" and "low \<le> n" and "n \<le> node" and "node < fin"
    and "sort_sift_down s low node fin xs = Some ys"
  shows "heap_on low n fin ys"
  using assms
proof (induction "nat (fin - node)" arbitrary: node xs rule: less_induct)
  case less
  define l where "l = 2 * (node - low) + 1 + low"
  have ins: "inside xs k" if "low \<le> k" "k < fin" for k using that less.prems(1) by (auto simp: region_def)
  have kids: "low < k \<Longrightarrow> parent low k = node \<longleftrightarrow> k = l \<or> k = l + 1" for k
    using parent_children [of low k node] by (auto simp: l_def)
  show ?case
  proof (cases "l \<ge> fin")
    case True
    then have "ys = xs" using less.prems(6) by (simp add: sort_sift_down.simps [of s low node] l_def)
    moreover have "\<not> (low < k \<and> k < fin \<and> parent low k = node)" for k using True kids [of k] by auto
    ultimately show ?thesis using less.prems(2) by (blast intro: heap_but_done)
  next
    case False
    define r where "r \<longleftrightarrow> l + 1 < fin \<and> before s (at xs l) (at xs (l + 1))"
    define c where "c = (if r then l + 1 else l)"
    have c: "low < c" "c < fin" "node < c" "parent low c = node"
      using False less.prems(3,4) kids by (auto simp: c_def r_def l_def)
    have most: "\<forall>k. low < k \<and> k < fin \<and> parent low k = node \<longrightarrow> le (at xs k) (at xs c)"
    proof (intro allI impI)
      fix k assume k: "low < k \<and> k < fin \<and> parent low k = node"
      then have "k = l \<or> k = l + 1" using kids by blast
      then show "le (at xs k) (at xs c)"
      proof
        assume "k = l" then show ?thesis by (cases r) (auto simp: c_def r_def intro: lt_le)
      next
        assume "k = l + 1" then show ?thesis using k by (cases r) (auto simp: c_def r_def le_def)
      qed
    qed
    have run: "sort_sift_down s low node fin xs =
        (if before s (at xs node) (at xs c) then sort_sift_down s low c fin (swap_at xs node c) else Some xs)"
    proof -
      have l: "low \<le> l" using less.prems(3,4) by (simp add: l_def)
      have "(if l + 1 < fin then before_at s xs l (l + 1) else Some False) = Some r"
        using False l ins [of l] ins [of "l + 1"] by (auto simp: before_run r_def)
      moreover have "before_at s xs node c = Some (before s (at xs node) (at xs c))" "sort_swap xs node c = Some (swap_at xs node c)"
        using ins [of node] ins [of c] c less.prems(3-5) by (simp_all add: before_run)
      ultimately show ?thesis
        unfolding sort_sift_down.simps [of s low node fin xs] l_def [symmetric] Let_def
        using False by (simp add: c_def [symmetric])
    qed
    show ?thesis
    proof (cases "before s (at xs node) (at xs c)")
      case True
      then have "heap_but low n c fin (swap_at xs node c)"
        using less.prems c most by (intro heap_but_down) auto
      with True c less.prems run show ?thesis
        by (intro less.hyps [of c "swap_at xs node c"]) (auto simp: region_def)
    next
      case False
      with run less.prems(6) have "ys = xs" by simp
      moreover from False have "le (at xs c) (at xs node)" by (simp add: le_def)
      ultimately show ?thesis using less.prems(2) most by (auto intro!: heap_but_done intro: le_trans)
    qed
  qed
qed

lemma sort_heapify_heaps:
  assumes "region low high xs" and "heap_on low node high xs" and "node \<le> high" and "low \<le> node"
    and "sort_heapify s low high node xs = Some ys"
  shows "heap_on low low high ys"
  using assms
proof (induction "nat (node - low)" arbitrary: node xs rule: less_induct)
  case less
  show ?case
  proof (cases "node > low")
    case True
    obtain zs where zs: "sort_sift_down s low (node - 1) high xs = Some zs" "swapped low high xs zs"
      using sort_sift_down_safe [OF callable less.prems(1), of "node - 1"] True less.prems(3) by auto
    have "heap_but low (node - 1) (node - 1) high xs"
      using less.prems(2) parent_less [of low "node - 1"] by (auto simp: heap_on_def heap_but_def)
    then have "heap_on low (node - 1) high zs"
      using less.prems(1,3) True zs(1) by (intro sort_sift_down_heaps [of low high xs _ "node - 1"]) auto
    moreover have "sort_heapify s low high (node - 1) zs = Some ys"
      using less.prems(5) True zs(1) by (simp add: sort_heapify.simps [of s low high node])
    ultimately show ?thesis
      using less.prems True zs(2) by (intro less.hyps [of "node - 1" zs]) (auto simp: swapped_region)
  next
    case False
    then have "sort_heapify s low high node xs = Some xs" by (simp add: sort_heapify.simps [of s low high node])
    with False less.prems show ?thesis by simp
  qed
qed

lemma heap_root:
  assumes "heap_on low low fin xs" and "low \<le> k" and "k < fin"
  shows "le (at xs k) (at xs low)"
  using assms(2,3)
proof (induction "nat (k - low)" arbitrary: k rule: less_induct)
  case less
  show ?case
  proof (cases "k = low")
    case False
    with less.prems have p: "low \<le> parent low k" "parent low k < k" using parent_less [of low k] by auto
    then have "le (at xs (parent low k)) (at xs low)" using less.prems by (intro less.hyps) auto
    moreover have "le (at xs k) (at xs (parent low k))"
      using assms(1) False less.prems p by (simp add: heap_on_def)
    ultimately show ?thesis by (blast intro: le_trans)
  qed simp
qed

lemma heap_swap_root:
  assumes "heap_on low low fin xs" and "region low fin xs" and "low < fin - 1"
  shows "heap_but low low low (fin - 1) (swap_at xs low (fin - 1))"
proof -
  have "at (swap_at xs low (fin - 1)) k = at xs k" if "low < k" "k < fin - 1" for k
    using assms(2,3) that by (subst at_swap_at) (auto simp: region_def)
  then show ?thesis
    using assms(1) parent_less [of low] by (fastforce simp: heap_on_def heap_but_def)
qed

lemma sorted_on_snoc:
  assumes "sorted_on l (h - 1) xs" and "\<forall>k. l \<le> k \<and> k < h - 1 \<longrightarrow> le (at xs k) (at xs (h - 1))"
  shows "sorted_on l h xs"
  unfolding sorted_on_def
proof (intro allI impI)
  fix i j assume "l \<le> i \<and> i < j \<and> j < h"
  then show "le (at xs i) (at xs j)"
    using assms by (cases "j = h - 1") (auto simp: sorted_on_def)
qed

lemma sort_heap_pop_sorts:
  assumes "region low fin xs" and "heap_on low low fin xs" and "sort_heap_pop s low fin xs = Some ys"
  shows "sorted_on low fin ys"
  using assms
proof (induction "nat (fin - low)" arbitrary: fin xs rule: less_induct)
  case less
  show ?case
  proof (cases "fin - low > 1")
    case True
    let ?xs = "swap_at xs low (fin - 1)"
    have reg: "region low (fin - 1) ?xs" and ins: "inside xs low" "inside xs (fin - 1)"
      using less.prems(1) True by (auto simp: region_def)
    obtain zs where zs: "sort_sift_down s low low (fin - 1) ?xs = Some zs" "swapped low (fin - 1) ?xs zs"
      using sort_sift_down_safe [OF callable reg, of low] True by auto
    have heap: "heap_on low low (fin - 1) zs"
      using heap_swap_root [OF less.prems(2,1)] reg zs(1) True by (intro sort_sift_down_heaps [of low "fin - 1" ?xs low low]) auto
    have run: "sort_heap_pop s low (fin - 1) zs = Some ys"
      using less.prems(3) True zs(1) ins by (simp add: sort_heap_pop.simps [of s low fin])
    have reg': "region low (fin - 1) zs" using reg zs(2) by (simp add: swapped_region)
    then have ys: "swapped low (fin - 1) ?xs ys"
      using sort_heap_pop_safe [OF callable reg'] run zs(2) by (auto elim: swapped_trans)
    have "\<forall>k. low \<le> k \<and> k < fin - 1 \<longrightarrow> le (at ?xs k) (at xs low)"
    proof (intro allI impI)
      fix k assume k: "low \<le> k \<and> k < fin - 1"
      then have "at ?xs k = at xs (if k = low then fin - 1 else k)"
        using ins less.prems(1) by (subst at_swap_at) (auto simp: region_def)
      then show "le (at ?xs k) (at xs low)"
        using heap_root [OF less.prems(2)] k by simp
    qed
    then have below: "\<forall>k. low \<le> k \<and> k < fin - 1 \<longrightarrow> le (at ys k) (at xs low)"
      by (rule swapped_all [OF ys reg, of "\<lambda>x. le x (at xs low)"])
    have "at ys (fin - 1) = at ?xs (fin - 1)"
      using swapped_outside [OF ys reg, of "fin - 1"] ins by simp
    also have "\<dots> = at xs low" using ins True by (simp add: at_swap_at)
    finally have "at ys (fin - 1) = at xs low" .
    moreover have "sorted_on low (fin - 1) ys"
      using True by (intro less.hyps [OF _ reg' heap run]) simp
    ultimately show ?thesis using below sorted_on_snoc by simp
  next
    case False
    then show ?thesis by (auto simp: sorted_on_def)
  qed
qed

lemma sort_heap_sorts:
  assumes "region low high xs" and "low \<le> high" and "sort_heap s low high xs = Some ys"
  shows "sorted_on low high ys"
proof -
  let ?m = "low + (high - low) div 2"
  have m: "low \<le> ?m" "?m \<le> high" using assms(2) by linarith+
  then obtain zs where zs: "sort_heapify s low high ?m xs = Some zs" "swapped low high xs zs"
    using sort_heapify_safe [OF callable assms(1)] by blast
  have "heap_on low ?m high xs"
    unfolding heap_on_def parent_def using assms(2) by (intro allI impI) linarith
  then have "heap_on low low high zs"
    using sort_heapify_heaps [OF assms(1)] m zs(1) by blast
  moreover have "region low high zs" using assms(1) zs(2) by (simp add: swapped_region)
  ultimately show ?thesis
    using assms(3) zs(1) by (intro sort_heap_pop_sorts [of low high zs]) (auto simp: sort_heap_def)
qed

subsection \<open>Partition\<close>

lemma scan_up_stops:
  assumes "region low high xs" and "low \<le> i" and "i < high" and "scan_up s xs low high i = Some r"
  shows "(\<forall>k. i < k \<and> k < r \<longrightarrow> le (at xs k) (at xs low)) \<and> (r < high \<longrightarrow> le (at xs low) (at xs r))"
  using assms
proof (induction "nat (high - i)" arbitrary: i rule: less_induct)
  case less
  have ins: "inside xs low" "i + 1 < high \<Longrightarrow> inside xs (i + 1)"
    using less.prems by (auto simp: region_def)
  show ?case
  proof (cases "i + 1 < high \<and> before s (at xs (i + 1)) (at xs low)")
    case True
    then have run: "scan_up s xs low high (i + 1) = Some r"
      using less.prems(4) ins by (simp add: scan_up.simps [of s xs low high i] before_run)
    have IH: "(\<forall>k. i + 1 < k \<and> k < r \<longrightarrow> le (at xs k) (at xs low)) \<and> (r < high \<longrightarrow> le (at xs low) (at xs r))"
      using True less.prems(1,2) run by (intro less.hyps) auto
    have "le (at xs k) (at xs low)" if "i < k" "k < r" for k
      using True IH that by (cases "k = i + 1") (auto intro: lt_le)
    with IH show ?thesis by blast
  next
    case False
    then have "r = i + 1" and "r < high \<longrightarrow> le (at xs low) (at xs r)"
      using less.prems(4) ins
      by (cases "i + 1 < high"; simp add: scan_up.simps [of s xs low high i] before_run le_def Let_def; fail)+
    then show ?thesis by auto
  qed
qed

lemma scan_down_stops:
  assumes "region low high xs" and "low < j" and "j \<le> high" and "scan_down s xs low j = Some r"
  shows "(\<forall>k. r < k \<and> k < j \<longrightarrow> le (at xs low) (at xs k)) \<and> (low < r \<longrightarrow> le (at xs r) (at xs low))"
  using assms
proof (induction "nat (j - low)" arbitrary: j rule: less_induct)
  case less
  have ins: "inside xs low" "low < j - 1 \<Longrightarrow> inside xs (j - 1)"
    using less.prems by (auto simp: region_def)
  show ?case
  proof (cases "low < j - 1 \<and> before s (at xs low) (at xs (j - 1))")
    case True
    then have run: "scan_down s xs low (j - 1) = Some r"
      using less.prems(4) ins by (simp add: scan_down.simps [of s xs low j] before_run)
    have IH: "(\<forall>k. r < k \<and> k < j - 1 \<longrightarrow> le (at xs low) (at xs k)) \<and> (low < r \<longrightarrow> le (at xs r) (at xs low))"
      using True less.prems(1,3) run by (intro less.hyps) auto
    have "le (at xs low) (at xs k)" if "r < k" "k < j" for k
      using True IH that by (cases "k = j - 1") (auto intro: lt_le)
    with IH show ?thesis by blast
  next
    case False
    then have "r = j - 1" and "low < r \<longrightarrow> le (at xs r) (at xs low)"
      using less.prems(4) ins
      by (cases "low < j - 1"; simp add: scan_down.simps [of s xs low j] before_run le_def Let_def; fail)+
    then show ?thesis by auto
  qed
qed

definition split_at :: "int \<Rightarrow> int \<Rightarrow> int \<Rightarrow> int \<Rightarrow> 'e list \<Rightarrow> bool" where
  "split_at low high i j xs \<longleftrightarrow>
     (\<forall>k. low < k \<and> k \<le> i \<longrightarrow> le (at xs k) (at xs low)) \<and> (\<forall>k. j \<le> k \<and> k < high \<longrightarrow> le (at xs low) (at xs k))"

lemma split_at_swap:
  assumes "region low high xs" and "low < i" and "i < j" and "j < high"
    and "split_at low high (i - 1) (j + 1) xs" and "le (at xs low) (at xs i)" and "le (at xs j) (at xs low)"
  shows "split_at low high i j (swap_at xs i j)"
proof -
  have "at (swap_at xs i j) k = (if k = i then at xs j else if k = j then at xs i else at xs k)"
    if "low \<le> k" "k < high" for k
    using that assms(1-4) by (intro at_swap_at) (auto simp: region_def)
  with assms(2-7) show ?thesis
    by (auto simp: split_at_def)
qed

lemma sort_partition_from_splits:
  assumes "region low high xs" and "low \<le> i" and "i < high" and "low < j" and "j \<le> high"
    and "split_at low high i j xs" and "sort_partition_from s low high i j xs = Some (p, ys)"
  shows "split_at low high p (p + 1) ys"
  using assms
proof (induction "nat (high - i)" arbitrary: i j xs rule: less_induct)
  case less
  obtain a where a: "scan_up s xs low high i = Some a" "i < a" "a \<le> high"
    using scan_up_safe [OF callable less.prems(1-3)] by blast
  obtain b where b: "scan_down s xs low j = Some b" "low \<le> b" "b < j"
    using scan_down_safe [OF callable less.prems(1,4,5)] by blast
  note up = scan_up_stops [OF less.prems(1-3) a(1)] and down = scan_down_stops [OF less.prems(1,4,5) b(1)]
  have low_side: "le (at xs k) (at xs low)" if "low < k" "k < a" for k
    using up less.prems(6) that by (cases "k \<le> i") (auto simp: split_at_def)
  have high_side: "le (at xs low) (at xs k)" if "b < k" "k < high" for k
    using down less.prems(6) that by (cases "j \<le> k") (auto simp: split_at_def)
  show ?case
  proof (cases "a \<ge> b")
    case True
    then have r: "p = b" "ys = xs"
      using less.prems(7) a(1) b(1) by (auto simp: sort_partition_from.simps [of s low high i])
    have "le (at xs k) (at xs low)" if "low < k" "k \<le> b" for k
      using down low_side [of k] that True by (cases "k = b") auto
    with high_side show ?thesis by (auto simp: split_at_def r)
  next
    case False
    let ?xs = "swap_at xs a b"
    have ins: "inside xs a" "inside xs b" using False a b less.prems(1,2,5) by (auto simp: region_def)
    have "split_at low high (a - 1) (b + 1) xs"
      using low_side high_side by (auto simp: split_at_def)
    then have "split_at low high a b ?xs"
      using False a b up down less.prems(1,2,5) by (intro split_at_swap) auto
    moreover have "sort_partition_from s low high a b ?xs = Some (p, ys)"
      using less.prems(7) False a(1) b(1) ins by (simp add: sort_partition_from.simps [of s low high i])
    ultimately show ?thesis
      using False a b less.prems(1,2,5) by (intro less.hyps [of a ?xs b]) (auto simp: region_def)
  qed
qed

lemma sort_partition_splits:
  assumes "region low high xs" and "low < high" and "sort_partition s low high xs = Some (p, ys)"
  shows "(\<forall>k. low \<le> k \<and> k < p \<longrightarrow> le (at ys k) (at ys p)) \<and> (\<forall>k. p < k \<and> k < high \<longrightarrow> le (at ys p) (at ys k))"
proof -
  obtain zs where zs: "sort_partition_from s low high low high xs = Some (p, zs)" "low \<le> p" "p < high"
      "swapped low high xs zs" and ys: "ys = swap_at zs low p"
  proof -
    obtain q us where q: "sort_partition_from s low high low high xs = Some (q, us)" "low \<le> q" "q < high" "swapped low high xs us"
      using sort_partition_from_safe [OF callable assms(1), of low high] assms(2) by auto
    then have "sort_partition s low high xs = Some (q, swap_at us low q)"
      using assms(1,2) by (simp add: sort_partition_def region_def)
    with assms(3) q show ?thesis by (intro that [of us]) auto
  qed
  have "split_at low high low high xs" by (auto simp: split_at_def)
  then have split: "split_at low high p (p + 1) zs"
    using assms(1,2) zs(1) by (intro sort_partition_from_splits) auto
  have "at ys k = (if k = low then at zs p else if k = p then at zs low else at zs k)"
    if "low \<le> k" "k < high" for k
    unfolding ys using that zs assms(1,2) by (intro at_swap_at) (auto simp: region_def)
  then show ?thesis using split zs(2,3) by (auto simp: split_at_def)
qed

subsection \<open>Introsort\<close>

definition parted :: "int \<Rightarrow> int \<Rightarrow> int \<Rightarrow> 'e list \<Rightarrow> bool" where
  "parted low p high xs \<longleftrightarrow>
     (\<forall>k. low \<le> k \<and> k < p \<longrightarrow> le (at xs k) (at xs p)) \<and> (\<forall>k. p < k \<and> k < high \<longrightarrow> le (at xs p) (at xs k))"

lemma parted_halves:
  assumes "region low high xs" and "low \<le> p" and "p < high" and "parted low p high xs"
    and "swapped l h xs ys" and "(l, h) \<in> {(low, p), (p + 1, high)}"
  shows "parted low p high ys"
proof -
  have reg: "region l h xs" using assms(1-3,6) by (auto simp: region_def)
  have keep: "at ys k = at xs k" if "low \<le> k" "k < high" "k < l \<or> h \<le> k" for k
    using that assms(1) by (intro swapped_outside [OF assms(5) reg]) (auto simp: region_def)
  have mid: "at ys p = at xs p" using assms(2,3,6) by (intro keep) auto
  show ?thesis
  proof (cases "h = p")
    case True
    then have "\<forall>k. l \<le> k \<and> k < h \<longrightarrow> le (at ys k) (at xs p)"
      using assms(4,6) by (intro swapped_all [OF assms(5) reg, of "\<lambda>x. le x (at xs p)"]) (auto simp: parted_def)
    with True assms(2-4,6) mid keep show ?thesis by (auto simp: parted_def)
  next
    case False
    then have "\<forall>k. l \<le> k \<and> k < h \<longrightarrow> le (at xs p) (at ys k)"
      using assms(4,6) by (intro swapped_all [OF assms(5) reg, of "le (at xs p)"]) (auto simp: parted_def)
    with False assms(2-4,6) mid keep show ?thesis by (auto simp: parted_def)
  qed
qed

lemma sorted_halves:
  assumes reg: "region low high zs" and p: "low \<le> p" "p < high" and "parted low p high zs"
    and us: "swapped l h zs us" "sorted_on l h us" and vs: "swapped l' h' us vs" "sorted_on l' h' vs"
    and ends: "(l, h, l', h') \<in> {(low, p, p + 1, high), (p + 1, high, low, p)}"
  shows "sorted_on low high vs"
proof -
  have "region low high us" using reg us(1) by (simp add: swapped_region)
  then have reg': "region low high us" "region l' h' us"
    using p ends by (auto simp only: region_def insert_iff empty_iff prod.inject)
  have "parted low p high us" by (rule parted_halves [OF assms(1-4) us(1)]) (use ends in auto)
  from parted_halves [OF reg'(1) p this vs(1)] have parted: "parted low p high vs" using ends by auto
  have "at vs k = at us k" if "l \<le> k" "k < h" for k
    using that reg' p ends by (intro swapped_outside [OF vs(1) reg'(2)]) (auto simp: region_def)
  with us(2) have "sorted_on l h vs" by (simp add: sorted_on_def)
  with vs(2) ends have "sorted_on low p vs" "sorted_on (p + 1) high vs" by auto
  with parted show ?thesis unfolding parted_def by (blast intro: sorted_on_join)
qed

lemma sort_introsort_sorts:
  assumes "region low high xs" and "low \<le> high" and "sort_introsort s low high depth xs = Some ys"
  shows "sorted_on low high ys"
  using assms
proof (induction "nat (high - low)" arbitrary: low high depth xs ys rule: less_induct)
  case less
  show ?case
  proof (cases "high - low > LOKE_RT_SORT_SMALL \<and> depth \<noteq> 0")
    case True
    then have big: "low < high" by (simp add: LOKE_RT_SORT_SMALL_def)
    obtain ws where ws: "sort_choose_pivot s low high xs = Some ws" "swapped low high xs ws"
      using sort_choose_pivot_safe [OF callable less.prems(1) big] by blast
    have "region low high ws" using less.prems(1) ws(2) by (simp add: swapped_region)
    then obtain p zs where p: "sort_partition s low high ws = Some (p, zs)" "low \<le> p" "p < high" "swapped low high ws zs"
      and parted: "parted low p high zs"
      using sort_partition_safe [OF callable _ big] sort_partition_splits [OF _ big] parted_def by blast
    have reg: "region low high zs" using less.prems(1) ws(2) p(4) by (simp add: swapped_region)
    have half: "\<exists>vs. sort_introsort s l h (depth - 1) us = Some vs \<and> swapped l h us vs \<and> sorted_on l h vs"
      if "length us = length zs" and "(l, h) \<in> {(low, p), (p + 1, high)}" for l h us
    proof -
      have lh: "region l h us" "l \<le> h" using that reg p(2,3) by (auto simp: region_def)
      then obtain vs where "sort_introsort s l h (depth - 1) us = Some vs" "swapped l h us vs"
        using sort_introsort_safe [OF callable] by blast
      moreover from this lh that(2) p(2,3) have "sorted_on l h vs" by (intro less.hyps) auto
      ultimately show ?thesis by blast
    qed
    have run: "sort_introsort s low high depth xs =
       (if p - low < high - p - 1
        then do { us \<leftarrow> sort_introsort s low p (depth - 1) zs; sort_introsort s (p + 1) high (depth - 1) us }
        else do { us \<leftarrow> sort_introsort s (p + 1) high (depth - 1) zs; sort_introsort s low p (depth - 1) us })"
      using True ws(1) p(1) by (simp add: sort_introsort.simps [of s low high])
    have chain: "sorted_on low high vs"
      if "sort_introsort s l h (depth - 1) zs = Some us" and "sort_introsort s l' h' (depth - 1) us = Some vs"
        and ends: "(l, h, l', h') \<in> {(low, p, p + 1, high), (p + 1, high, low, p)}" for l h l' h' us vs
    proof -
      have us: "swapped l h zs us" "sorted_on l h us" using half [of zs l h] that by auto
      then have vs: "swapped l' h' us vs" "sorted_on l' h' vs" using half [of us l' h'] that by auto
      show ?thesis by (rule sorted_halves [OF reg p(2,3) parted us vs ends])
    qed
    show ?thesis
    proof (cases "p - low < high - p - 1")
      case True
      then obtain us where "sort_introsort s low p (depth - 1) zs = Some us" "sort_introsort s (p + 1) high (depth - 1) us = Some ys"
        using less.prems(3) unfolding run by (auto simp: bind_eq_Some_conv)
      then show ?thesis by (rule chain) simp
    next
      case False
      then obtain us where "sort_introsort s (p + 1) high (depth - 1) zs = Some us" "sort_introsort s low p (depth - 1) us = Some ys"
        using less.prems(3) unfolding run by (auto simp: bind_eq_Some_conv)
      then show ?thesis by (rule chain) simp
    qed
  next
    case False
    then show ?thesis
      using less.prems(3) sort_heap_sorts [OF less.prems(1,2), of ys] sort_insertion_sorts [OF less.prems(1), of ys]
      unfolding sort_introsort.simps [of s low high depth xs] by (simp split: if_splits)
  qed
qed

lemma sort_all_sorts:
  "\<exists>ys. sort_all s (int (length xs)) xs = Some ys \<and> mset ys = mset xs \<and> sorted_wrt le ys"
proof -
  have reg: "region 0 (int (length xs)) xs" by (simp add: region_def)
  obtain ys where ys: "sort_introsort s 0 (int (length xs)) (sort_depth (int (length xs)) 0) xs = Some ys"
      "swapped 0 (int (length xs)) xs ys"
    using sort_introsort_safe [OF callable reg] by auto
  then have "sorted_on 0 (int (length xs)) ys" using sort_introsort_sorts [OF reg] by auto
  then have "le (ys ! i) (ys ! j)" if "i < j" "j < length ys" for i j
    using that ys(2) by (force simp: sorted_on_def at_def dest: spec [of _ "int i"] spec [of _ "int j"])
  then have "sorted_wrt le ys" by (simp add: sorted_wrt_iff_nth_less)
  with ys reg show ?thesis by (auto simp: sort_all_def dest: swapped_mset)
qed

end

section \<open>The runtime's own order\<close>

text \<open>The byte comparison of \<^verbatim>\<open>text.c\<close> is a strict weak order, so strings sort.\<close>

definition string_less :: "u8 list \<Rightarrow> u8 list \<Rightarrow> bool" where
  "string_less a b \<longleftrightarrow> loke_rt_v1_bytes_compare a (int (length a)) b (int (length b)) < 0"

lemma string_less_lexord: "string_less a b \<longleftrightarrow> (a, b) \<in> lexord below"
  using lexord_irrefl_below by (auto simp: string_less_def bytes_compare_lexord)

lemma trans_below: "trans (below :: ('a::order \<times> 'a) set)"
  by (auto intro: transI)

interpretation strings: strict_weak_order string_less
proof
  show "string_less a b \<Longrightarrow> \<not> string_less b a" for a b
    unfolding string_less_lexord by (rule lexord_asym_below)
  show "\<not> string_less a c" if "\<not> string_less a b" "\<not> string_less b c" for a b c
    using that lexord_total_below [of a b] lexord_total_below [of b c] lexord_asym_below [of a c]
      lexord_trans [of c b below a, OF _ _ trans_below] by (auto simp: string_less_lexord)
qed

section \<open>Properties\<close>

text \<open>The recursion budget that \<^verbatim>\<open>sort_all\<close> computes by halving is twice the binary logarithm of
  the length, rounded down.\<close>

lemma sort_depth_log: "2 ^ k \<le> span \<Longrightarrow> span < 2 ^ (k + 1) \<Longrightarrow> sort_depth span d = d + 2 * int k"
proof (induction k arbitrary: span d)
  case 0
  then show ?case by (simp add: sort_depth.simps)
next
  case (Suc k)
  have "2 \<le> span" using Suc.prems(1) zero_less_power [of "2 :: int" k] unfolding power_Suc by linarith
  then have "1 < span" by simp
  moreover have "2 ^ k \<le> span div 2" "span div 2 < 2 ^ (k + 1)" using Suc.prems by auto
  ultimately show ?case by (simp add: sort_depth.simps [of span] Suc.IH)
qed

lemma before_fields:
  "before \<lparr>s_less = Some lt, s_less_with_state = None, s_state = st, s_descending = d\<rparr> = (if d then (\<lambda>a b. lt b a) else lt)"
  "before \<lparr>s_less = None, s_less_with_state = Some f, s_state = st, s_descending = e\<rparr> = f st"
  by (auto simp: fun_eq_iff before_def sort_before_def)

lemma ordered_sortI:
  assumes "strict_weak_order lt"
  shows "ordered_sort \<lparr>s_less = Some lt, s_less_with_state = None, s_state = (), s_descending = False\<rparr>"
    and "ordered_sort \<lparr>s_less = Some lt, s_less_with_state = None, s_state = (), s_descending = True\<rparr>"
  using assms strict_weak_order.flipped [OF assms]
  by (simp_all add: ordered_sort_def ordered_sort_axioms_def callable_def before_fields)

lemma ordered_sort_byI:
  assumes "strict_weak_order (lt st)"
  shows "ordered_sort \<lparr>s_less = None, s_less_with_state = Some lt, s_state = st, s_descending = False\<rparr>"
  using assms
  by (simp add: ordered_sort_def ordered_sort_axioms_def callable_def before_fields)

lemma trivially_sorted: "length xs < 2 \<Longrightarrow> sorted_wrt P xs"
  by (cases xs) auto

interpretation string_sort: ordered_sort
  "\<lparr>s_less = Some string_less, s_less_with_state = None, s_state = (), s_descending = False\<rparr>"
  by (rule ordered_sortI) (rule strings.strict_weak_order_axioms)

text \<open>C5. Under any strict weak order the sort of a whole array ends and answers a permutation of
  it in order: ascending, no element comes after one it is less than; descending, the other way
  round.\<close>

theorem sort_sorts:
  assumes asym: "\<And>a b. lt a b \<Longrightarrow> \<not> lt b a"
    and weak: "\<And>a b c. \<not> lt a b \<Longrightarrow> \<not> lt b c \<Longrightarrow> \<not> lt a c"
    and "elem_size \<noteq> 0"
  shows "\<exists>ys. loke_rt_v1_sort xs (int (length xs)) elem_size (Some lt) descending = Some ys \<and> mset ys = mset xs \<and>
    sorted_wrt (\<lambda>a b. if descending then \<not> lt a b else \<not> lt b a) ys"
proof -
  have swo: "strict_weak_order lt" using asym weak by unfold_locales blast+
  show ?thesis
  proof (cases "length xs < 2")
    case True
    then show ?thesis by (simp add: loke_rt_v1_sort_def trivially_sorted)
  next
    case False
    let ?s = "\<lparr>s_less = Some lt, s_less_with_state = None, s_state = (), s_descending = descending\<rparr>"
    have os: "ordered_sort ?s" using ordered_sortI [OF swo] by (cases descending) auto
    then have "strict_weak_order (before ?s)" by (simp add: ordered_sort_def)
    then have le: "strict_weak_order.le (before ?s) = (\<lambda>a b. if descending then \<not> lt a b else \<not> lt b a)"
      by (auto simp: fun_eq_iff strict_weak_order.le_def before_def sort_before_def)
    show ?thesis
      using ordered_sort.sort_all_sorts [OF os, of xs] False assms(3) by (auto simp: loke_rt_v1_sort_def le)
  qed
qed

theorem sort_sorts_witness:
  "\<exists>ys. loke_rt_v1_sort [5, 3, 9, 3, 7 :: int] 5 8 (Some (<)) True = Some ys \<and>
     mset ys = mset [5, 3, 9, 3, 7] \<and> sorted_wrt (\<lambda>a b. \<not> a < b) ys"
  using sort_sorts [of "(<) :: int \<Rightarrow> int \<Rightarrow> bool" 8 "[5, 3, 9, 3, 7]" True] by simp


end
