(* ===== verification/Loke_Checked.thy ===== *)
theory Loke_Checked
  imports Loke_Prelude
begin

text \<open>
  The checked size arithmetic at the top of \<^verbatim>\<open>runtime/container.c\<close>, through which every
  product and sum that sizes an allocation goes, and the byte hash at the end of the file.
  An output parameter with a 0/1 answer is an \<open>option\<close>.
\<close>

section \<open>Definitions\<close>

definition loke_rt_v1_checked_add :: "int \<Rightarrow> int \<Rightarrow> int option" where
  "loke_rt_v1_checked_add a b =
     (if a < 0 \<or> b < 0 \<or> a > INT64_MAX - b then None else Some (a + b))"

definition loke_rt_v1_checked_bytes :: "int \<Rightarrow> u64 \<Rightarrow> u64 option" where
  "loke_rt_v1_checked_bytes count sz =
     (if count < 0 then None
      else let n = (word_of_int count :: u64) in
        if sz \<noteq> 0 \<and> n > UINT64_MAX div sz then None else Some (n * sz))"

definition sane_container_align :: "u64 \<Rightarrow> u64" where
  "sane_container_align align = (if align = 0 then 1 else align)"

definition checked_round_up :: "u64 \<Rightarrow> u64 \<Rightarrow> u64 option" where
  "checked_round_up v align =
     (let a = sane_container_align align in
        if v > UINT64_MAX - (a - 1) then None else Some ((v + a - 1) div a * a))"

section \<open>Exactness\<close>

lemma checked_add_Some:
  "loke_rt_v1_checked_add a b = Some c \<longleftrightarrow> 0 \<le> a \<and> 0 \<le> b \<and> c = a + b \<and> a + b \<le> INT64_MAX"
  by (auto simp: loke_rt_v1_checked_add_def)

lemma checked_bytes_guard: "unat UINT64_MAX div unat sz < n \<longleftrightarrow> 2 ^ 64 \<le> n * unat sz"
  if "sz \<noteq> 0" for sz :: u64
proof -
  have "0 < unat sz" using that by (simp add: word_greater_zero_iff unat_gt_0)
  then have "unat UINT64_MAX div unat sz < n \<longleftrightarrow> unat UINT64_MAX < n * unat sz"
    by (simp add: div_less_iff_less_mult)
  then show ?thesis by auto
qed

lemma checked_bytes_eq:
  assumes "i64 count" and "0 \<le> count"
  shows "loke_rt_v1_checked_bytes count sz =
    (if nat count * unat sz < 2 ^ 64 then Some (word_of_int count * sz) else None)"
proof (cases "sz = 0")
  case True
  with assms show ?thesis by (simp add: loke_rt_v1_checked_bytes_def)
next
  case False
  have "unat (word_of_int count :: u64) = nat count"
    using assms by (simp add: unat_word_of_i64)
  with assms False checked_bytes_guard [OF False, of "nat count"] show ?thesis
    by (auto simp: loke_rt_v1_checked_bytes_def Let_def word_less_nat_alt unat_div)
qed

lemma checked_bytes_Some:
  assumes "loke_rt_v1_checked_bytes count sz = Some b" and "i64 count"
  shows "0 \<le> count" and "unat b = nat count * unat sz" and "nat count * unat sz < 2 ^ 64"
proof -
  show nonneg: "0 \<le> count"
    using assms(1) by (auto simp: loke_rt_v1_checked_bytes_def split: if_splits)
  then show fits: "nat count * unat sz < 2 ^ 64"
    using assms by (auto simp: checked_bytes_eq split: if_splits)
  have "unat (word_of_int count :: u64) = nat count"
    using assms(2) nonneg by (simp add: unat_word_of_i64)
  with assms nonneg fits show "unat b = nat count * unat sz"
    by (auto simp: checked_bytes_eq unat_times_exact split: if_splits)
qed

lemma sane_container_align_pos [simp]: "0 < unat (sane_container_align align)"
  by (simp add: sane_container_align_def unat_gt_0)

lemma round_up_multiple:
  fixes v a :: nat
  assumes "0 < a"
  defines "r \<equiv> (v + a - 1) div a * a"
  shows "v \<le> r" and "r \<le> v + a - 1" and "r < v + a" and "a dvd r"
proof -
  have "(v + a - 1) mod a + r = v + a - 1"
    by (simp add: r_def)
  moreover have "(v + a - 1) mod a \<le> a - 1"
    using assms(1) by (metis Suc_diff_1 less_Suc_eq_le mod_less_divisor)
  ultimately show "v \<le> r" and "r \<le> v + a - 1" and "r < v + a"
    using assms(1) by linarith+
  show "a dvd r" by (simp add: r_def)
qed

lemma round_up_least:
  fixes v a m :: nat
  assumes "0 < a" and "v \<le> m" and "a dvd m"
  shows "(v + a - 1) div a * a \<le> m"
proof -
  obtain k where k: "m = k * a" using assms(3) by (metis dvd_def mult.commute)
  have "v + a - 1 < (k + 1) * a" using assms(1,2) k by simp
  then have "(v + a - 1) div a < k + 1" by (simp add: div_less_iff_less_mult assms(1))
  then show ?thesis by (simp add: k)
qed

lemma checked_round_up_unat:
  "checked_round_up v align =
     (let a = sane_container_align align in
        if unat v + unat a - 1 < 2 ^ 64 then Some ((v + a - 1) div a * a) else None)"
proof -
  let ?a = "sane_container_align align"
  have pos: "0 < unat ?a" by simp
  have "unat (?a - 1) = unat ?a - 1" using pos by (rule unat_pred)
  moreover have "unat (UINT64_MAX - (?a - 1)) = 2 ^ 64 - 1 - (unat ?a - 1)"
    using unat_u64_lt [of ?a] calculation by (subst unat_minus_exact) simp_all
  ultimately have "v > UINT64_MAX - (?a - 1) \<longleftrightarrow> \<not> unat v + unat ?a - 1 < 2 ^ 64"
    using pos unat_u64_lt [of v] unat_u64_lt [of ?a] by (simp add: word_less_nat_alt) linarith
  then show ?thesis by (simp add: checked_round_up_def Let_def)
qed

lemma checked_round_up_Some:
  assumes "checked_round_up v align = Some r"
  shows "unat r = (unat v + unat (sane_container_align align) - 1)
                    div unat (sane_container_align align) * unat (sane_container_align align)"
proof -
  let ?a = "sane_container_align align"
  have fits: "unat v + unat ?a - 1 < 2 ^ 64" and r: "r = (v + ?a - 1) div ?a * ?a"
    using assms by (auto simp: checked_round_up_unat Let_def split: if_splits)
  have sum: "unat (v + ?a - 1) = unat v + unat ?a - 1"
  proof -
    have split: "v + ?a - 1 = v + (?a - 1)" by simp
    have pred: "unat (?a - 1) = unat ?a - 1" by (rule unat_pred) simp
    have pos: "0 < unat ?a" by simp
    show ?thesis
      unfolding split using fits pos by (subst unat_plus_exact; unfold pred; linarith)
  qed
  have "(unat v + unat ?a - 1) div unat ?a * unat ?a \<le> unat v + unat ?a - 1"
    by (rule div_times_less_eq_dividend)
  then show ?thesis
    using fits by (simp only: r unat_div sum unat_times_exact)
qed

section \<open>Properties\<close>

text \<open>C15. For every count the language can hold, the byte size of an array is answered exactly
  when the product of count and element size is below \<open>2 ^ 64\<close>, and then it is that product:
  no wrapped size ever reaches a provider. A negative count is refused.\<close>

theorem checked_bytes_exact:
  assumes "i64 count"
  shows "case loke_rt_v1_checked_bytes count sz of
      None \<Rightarrow> count < 0 \<or> 2 ^ 64 \<le> nat count * unat sz
    | Some b \<Rightarrow> 0 \<le> count \<and> unat b = nat count * unat sz"
proof (cases "loke_rt_v1_checked_bytes count sz")
  case None
  then show ?thesis
    using checked_bytes_eq [OF assms, of sz] by (cases "0 \<le> count") (auto split: if_splits)
next
  case (Some b)
  then show ?thesis
    using checked_bytes_Some [OF Some assms] by simp
qed

theorem checked_bytes_exact_witness:
  "i64 3 \<and> i64 4 \<and> loke_rt_v1_checked_bytes 3 5 = Some 15 \<and> (15 :: nat) = nat 3 * unat (5 :: u64)
    \<and> loke_rt_v1_checked_bytes 4 (2 ^ 62) = None"
proof -
  have range: "i64 3" "i64 4" by (simp_all add: i64_def INT64_MAX_def)
  have run: "loke_rt_v1_checked_bytes 3 5 = Some 15" "loke_rt_v1_checked_bytes 4 (2 ^ 62) = None"
    by (simp_all add: loke_rt_v1_checked_bytes_def UINT64_MAX_def)
  show ?thesis
    using checked_bytes_exact [OF range(1), of 5] range run by simp
qed


end
