(* ===== verification/Loke_State.thy ===== *)
theory Loke_State
  imports Loke_Checked
begin

text \<open>
  The state the stateful components share, and memory.

  Element representations live in byte memory, a total function from addresses to bytes; the
  C library calls the runtime makes on them (\<^verbatim>\<open>memcpy\<close>, \<^verbatim>\<open>memmove\<close>, \<^verbatim>\<open>memset\<close>) are \<open>load\<close> and
  \<open>store\<close>.  The runtime's own structs (allocator records, arena control blocks and block
  headers, container values, map table headers) live in typed stores indexed by their address,
  one per struct type of \<^verbatim>\<open>loke_rt.h\<close>, so that a pointer in the model is the pointer of the C
  code and two names of one struct are one entry.  \<open>world\<close> is everything outside the runtime:
  the state of the system heap and of the generated program.

  A hook the compiler generates (drop, clone, hash, compare, a program-defined provider) is a
  parameter of the operations that call it.
\<close>

section \<open>Structs\<close>

text \<open>A pointer to a table of provider callbacks: the three tables of the runtime, those a
  program defines, and null.\<close>

datatype ops_table = No_ops | System_ops | Arena_ops | Empty_ops | Program_ops nat

record allocator_v1 =
  abi_version :: u32
  record_size :: u32
  al_state :: addr
  region_id :: addr
  al_ops :: ops_table
  on_failure :: u32
  reserved :: u32

record arena_block_v1 =
  next_block :: addr
  block_usable :: u64
  block_used :: u64
  block_owned :: u64

text \<open>\<^verbatim>\<open>record\<close> is the first member of the C struct, so it is found in the store of allocator
  records at the same address.\<close>

record arena_v1 =
  arena_parent :: addr
  arena_blocks :: addr
  arena_first :: addr
  block_bytes :: u64
  control_bytes :: u64

record dynamic_v1 =
  dyn_data :: addr
  dyn_len :: int
  dyn_cap :: int
  dyn_allocator :: addr

record map_v1 =
  map_table :: addr
  map_len :: int
  map_cap :: int
  map_allocator :: addr

record map_table_v1 =
  slot_count :: int
  occupied :: int
  tombstones :: int
  seed :: u64
  controls_offset :: u64
  keys_offset :: u64
  values_offset :: u64
  block_size :: u64
  block_align :: u64

datatype init_state = Init_idle | Init_running | Init_done

record 'w rt =
  mem :: "addr \<Rightarrow> u8"
  allocators :: "addr \<Rightarrow> allocator_v1"
  arenas :: "addr \<Rightarrow> arena_v1"
  blocks :: "addr \<Rightarrow> arena_block_v1"
  dyns :: "addr \<Rightarrow> dynamic_v1"
  maps :: "addr \<Rightarrow> map_v1"
  tables :: "addr \<Rightarrow> map_table_v1"
  selected :: addr
  init_phase :: init_state
  refused_by :: addr
  refused_size :: u64
  seed_counter :: u64
  world :: 'w

section \<open>Memory\<close>

definition load :: "(addr \<Rightarrow> u8) \<Rightarrow> addr \<Rightarrow> nat \<Rightarrow> u8 list" where
  "load m p n = map (\<lambda>k. m (p + of_nat k)) [0..<n]"

definition store :: "(addr \<Rightarrow> u8) \<Rightarrow> addr \<Rightarrow> u8 list \<Rightarrow> addr \<Rightarrow> u8" where
  "store m p bs = (\<lambda>a. let k = unat (a - p) in if k < length bs then bs ! k else m a)"

definition memcpy :: "addr \<Rightarrow> addr \<Rightarrow> u64 \<Rightarrow> ('w rt, unit) proc" where
  "memcpy dst src n = modify (\<lambda>st. st\<lparr>mem := store (mem st) dst (load (mem st) src (unat n))\<rparr>)"

text \<open>The intermediate list makes the copy correct for overlapping ranges, so the same
  definition is \<^verbatim>\<open>memmove\<close>.\<close>

definition memmove :: "addr \<Rightarrow> addr \<Rightarrow> u64 \<Rightarrow> ('w rt, unit) proc" where
  "memmove dst src n = modify (\<lambda>st. st\<lparr>mem := store (mem st) dst (load (mem st) src (unat n))\<rparr>)"

definition memset :: "addr \<Rightarrow> u8 \<Rightarrow> u64 \<Rightarrow> ('w rt, unit) proc" where
  "memset dst v n = modify (\<lambda>st. st\<lparr>mem := store (mem st) dst (replicate (unat n) v)\<rparr>)"

text \<open>The addresses of a block.\<close>

definition span :: "addr \<Rightarrow> nat \<Rightarrow> addr set" where
  "span p n = (\<lambda>k. p + of_nat k) ` {..<n}"

section \<open>Laws of memory\<close>

named_theorems mem_simps \<open>reading memory back after writes\<close>

lemma length_load [simp]: "length (load m p n) = n"
  by (simp add: load_def)

lemma nth_load [simp]: "k < n \<Longrightarrow> load m p n ! k = m (p + of_nat k)"
  by (simp add: load_def)

lemma load_0 [simp]: "load m p 0 = []"
  by (simp add: load_def)

lemma store_Nil [simp]: "store m p [] = m"
  by (simp add: store_def)

lemma unat_of_nat_u64: "k < 2 ^ 64 \<Longrightarrow> unat (of_nat k :: u64) = k"
  by (simp add: unat_of_nat take_bit_eq_mod)

lemma of_nat_u64_inject: "i < 2 ^ 64 \<Longrightarrow> j < 2 ^ 64 \<Longrightarrow> (of_nat i :: u64) = of_nat j \<longleftrightarrow> i = j"
  by (metis unat_of_nat_u64)

lemma mem_span_iff: "n \<le> 2 ^ 64 \<Longrightarrow> a \<in> span p n \<longleftrightarrow> unat (a - p) < n"
proof
  assume "n \<le> 2 ^ 64" and "a \<in> span p n"
  then show "unat (a - p) < n" by (auto simp: span_def unat_of_nat_u64)
next
  assume "unat (a - p) < n"
  then show "a \<in> span p n" unfolding span_def by (intro image_eqI [of _ _ "unat (a - p)"]) auto
qed

lemma span_0 [simp]: "span p 0 = {}"
  by (simp add: span_def)

lemma span_sub: "i + c \<le> n \<Longrightarrow> span (p + of_nat i) c \<subseteq> span p n"
proof
  fix a assume "i + c \<le> n" and "a \<in> span (p + of_nat i) c"
  then obtain k where "k < c" "a = p + of_nat (i + k)" by (auto simp: span_def add.assoc)
  with \<open>i + c \<le> n\<close> show "a \<in> span p n" unfolding span_def by (intro image_eqI [of _ _ "i + k"]) auto
qed

lemma span_apart:
  assumes "i + c \<le> j" and "j + d \<le> 2 ^ 64"
  shows "span (p + of_nat i) c \<inter> span (p + of_nat j) d = {}"
proof (rule ccontr)
  assume "\<not> ?thesis"
  then obtain k l where "k < c" "l < d" "p + of_nat i + of_nat k = p + of_nat j + (of_nat l :: addr)"
    by (auto simp: span_def)
  then have "(of_nat (i + k) :: addr) = of_nat (j + l)" by (simp add: add.assoc)
  then have "i + k = j + l" using \<open>k < c\<close> \<open>l < d\<close> assms by (subst (asm) of_nat_u64_inject) auto
  with \<open>k < c\<close> assms show False by simp
qed

lemma span_nowrap: "unat p + n \<le> 2 ^ 64 \<Longrightarrow> span p n = {a. unat p \<le> unat a \<and> unat a < unat p + n}"
proof (intro set_eqI iffI)
  fix a :: addr assume fits: "unat p + n \<le> 2 ^ 64" and "a \<in> span p n"
  then obtain k where "k < n" "a = p + of_nat k" by (auto simp: span_def)
  with fits have "unat a = unat p + k"
    by (simp add: unat_plus_exact unat_of_nat_u64)
  with \<open>k < n\<close> show "a \<in> {a. unat p \<le> unat a \<and> unat a < unat p + n}" by simp
next
  fix a :: addr assume "unat p + n \<le> 2 ^ 64" and a: "a \<in> {a. unat p \<le> unat a \<and> unat a < unat p + n}"
  then have "unat (a - p) < n" by (simp add: unat_minus_exact) linarith
  then show "a \<in> span p n" unfolding span_def by (intro image_eqI [of _ _ "unat (a - p)"]) auto
qed

lemma store_outside: "a \<notin> span p (length bs) \<Longrightarrow> length bs \<le> 2 ^ 64 \<Longrightarrow> store m p bs a = m a"
  by (simp add: store_def mem_span_iff)

lemma store_at: "k < length bs \<Longrightarrow> length bs \<le> 2 ^ 64 \<Longrightarrow> store m p bs (p + of_nat k) = bs ! k"
  by (simp add: store_def unat_of_nat_u64)

lemma load_cong: "(\<And>a. a \<in> span p n \<Longrightarrow> m a = m' a) \<Longrightarrow> load m p n = load m' p n"
  by (auto simp: load_def span_def)

lemma load_store_same [mem_simps]: "length bs \<le> 2 ^ 64 \<Longrightarrow> load (store m p bs) p (length bs) = bs"
  by (rule nth_equalityI) (simp_all add: store_at)

lemma load_store_apart [mem_simps]:
  "span p n \<inter> span q (length bs) = {} \<Longrightarrow> length bs \<le> 2 ^ 64 \<Longrightarrow> load (store m q bs) p n = load m p n"
  by (intro load_cong) (auto intro: store_outside)

text \<open>Adjacent writes are one write.\<close>

lemma store_one: "store m p [b] = m(p := b)"
proof
  fix a
  show "store m p [b] a = (m(p := b)) a" by (auto simp: store_def Let_def unat_eq_zero)
qed

lemma store_append: "length xs + length ys \<le> 2 ^ 64 \<Longrightarrow> store (store m p xs) (p + of_nat (length xs)) ys = store m p (xs @ ys)"
proof
  fix a assume fits: "length xs + length ys \<le> 2 ^ 64"
  define k where "k = unat (a - p)"
  show "store (store m p xs) (p + of_nat (length xs)) ys a = store m p (xs @ ys) a"
  proof (cases "length xs = 2 ^ 64")
    case True
    then show ?thesis using fits by simp
  next
    case False
    then have n: "unat (of_nat (length xs) :: addr) = length xs" using fits by (intro unat_of_nat_u64) simp
    have d: "a - (p + of_nat (length xs)) = (a - p) - of_nat (length xs)" by simp
    show ?thesis
    proof (cases "length xs \<le> k")
      case True
      then have "unat (a - (p + of_nat (length xs))) = k - length xs" unfolding d using n by (subst unat_minus_exact) (simp_all add: k_def)
      with True show ?thesis by (auto simp: store_def Let_def nth_append k_def [symmetric])
    next
      case False
      have "unat (a - (p + of_nat (length xs))) = k + 2 ^ 64 - length xs"
        unfolding d using n False by (subst unat_sub_if') (simp add: k_def)
      with False fits show ?thesis by (auto simp: store_def Let_def nth_append k_def [symmetric])
    qed
  qed
qed

lemma store_under: "length xs + length ys \<le> 2 ^ 64 \<Longrightarrow> store (store m (p + of_nat (length xs)) ys) p xs = store m p (xs @ ys)"
proof
  fix a assume fits: "length xs + length ys \<le> 2 ^ 64"
  have "store m p (xs @ ys) a = store (store m p xs) (p + of_nat (length xs)) ys a" using store_append [OF fits] by metis
  also have "\<dots> = store (store m (p + of_nat (length xs)) ys) p xs a"
  proof -
    have "span p (length xs) \<inter> span (p + of_nat (length xs)) (length ys) = {}"
      using span_apart [of 0 "length xs" "length xs" "length ys" p] fits by simp
    moreover have "length xs \<le> 2 ^ 64" "length ys \<le> 2 ^ 64" using fits by simp_all
    ultimately show ?thesis
      by (cases "a \<in> span p (length xs)") (auto simp: store_outside mem_span_iff store_def Let_def)
  qed
  finally show "store (store m (p + of_nat (length xs)) ys) p xs a = store m p (xs @ ys) a" by simp
qed

section \<open>Arrays of equally sized elements in memory\<close>

definition slot :: "addr \<Rightarrow> nat \<Rightarrow> nat \<Rightarrow> addr" where
  "slot p sz i = p + of_nat (i * sz)"

definition elems :: "(addr \<Rightarrow> u8) \<Rightarrow> addr \<Rightarrow> nat \<Rightarrow> nat \<Rightarrow> u8 list list" where
  "elems m p sz n = map (\<lambda>i. load m (slot p sz i) sz) [0..<n]"

lemma slot_0 [simp]: "slot p sz 0 = p"
  by (simp add: slot_def)

lemma slot_slot [simp]: "slot (slot p sz i) sz j = slot p sz (i + j)"
  by (simp add: slot_def algebra_simps)

lemma length_elems [simp]: "length (elems m p sz n) = n"
  by (simp add: elems_def)

lemma nth_elems [simp]: "i < n \<Longrightarrow> elems m p sz n ! i = load m (slot p sz i) sz"
  by (simp add: elems_def)

lemma elems_0 [simp]: "elems m p sz 0 = []"
  by (simp add: elems_def)

lemma elems_sized: "e \<in> set (elems m p sz n) \<Longrightarrow> length e = sz"
  by (auto simp: elems_def)

lemma span_slots: "i + c \<le> n \<Longrightarrow> span (slot p sz i) (c * sz) \<subseteq> span p (n * sz)"
  unfolding slot_def by (rule span_sub) (metis add_mult_distrib mult_le_mono1)

lemma span_slot: "i < n \<Longrightarrow> span (slot p sz i) sz \<subseteq> span p (n * sz)"
  using span_slots [of i 1 n p sz] by simp

lemma span_slots_apart:
  "i + c \<le> j \<Longrightarrow> (j + d) * sz \<le> 2 ^ 64 \<Longrightarrow> span (slot p sz i) (c * sz) \<inter> span (slot p sz j) (d * sz) = {}"
  unfolding slot_def
  by (rule span_apart) (metis add_mult_distrib mult_le_mono1, simp add: add_mult_distrib)

lemma elems_cong: "(\<And>a. a \<in> span p (n * sz) \<Longrightarrow> m a = m' a) \<Longrightarrow> elems m p sz n = elems m' p sz n"
  using span_slot [of _ n p sz] by (fastforce simp: elems_def intro!: load_cong)

lemma elems_store_apart [mem_simps]:
  "span p (n * sz) \<inter> span q (length bs) = {} \<Longrightarrow> length bs \<le> 2 ^ 64 \<Longrightarrow> elems (store m q bs) p sz n = elems m p sz n"
  by (intro elems_cong) (auto intro: store_outside)

lemma elems_append: "elems m p sz (a + b) = elems m p sz a @ elems m (slot p sz a) sz b"
  by (rule nth_equalityI) (auto simp: nth_append)

lemma elems_take: "c \<le> n \<Longrightarrow> take c (elems m p sz n) = elems m p sz c"
  by (simp add: elems_def take_map)

lemma elems_drop: "i \<le> n \<Longrightarrow> drop i (elems m p sz n) = elems m (slot p sz i) sz (n - i)"
  by (rule nth_equalityI) auto

lemma load_append: "load m p (a + b) = load m p a @ load m (p + of_nat a) b"
  by (rule nth_equalityI) (auto simp: nth_append add.assoc simp flip: of_nat_add)

lemma load_elems: "load m p (n * sz) = concat (elems m p sz n)"
proof (induction n)
  case (Suc n)
  have "load m p (Suc n * sz) = load m p (n * sz) @ load m (slot p sz n) sz"
    using load_append [of m p "n * sz" sz] by (simp add: slot_def add.commute)
  with Suc show ?case by (simp add: elems_def)
qed simp

lemma length_concat_sized: "\<forall>e \<in> set es. length e = sz \<Longrightarrow> length (concat es) = length es * sz"
  by (induction es) auto

text \<open>Writing a run of whole elements.\<close>

lemma elems_store_self:
  assumes "\<forall>e \<in> set es. length e = sz" and "length es * sz \<le> 2 ^ 64"
  shows "elems (store m p (concat es)) p sz (length es) = es"
proof -
  have "concat (elems (store m p (concat es)) p sz (length es)) = concat es"
    using load_store_same [of "concat es" m p] assms(2) length_concat_sized [OF assms(1)] by (simp add: load_elems)
  then show ?thesis
    by (rule concat_injective) (use assms(1) in \<open>auto simp: set_zip\<close>)
qed

lemma elems_store_run [mem_simps]:
  assumes "i + length es \<le> n" and "\<forall>e \<in> set es. length e = sz" and "n * sz \<le> 2 ^ 64"
  shows "elems (store m (slot p sz i) (concat es)) p sz n =
    take i (elems m p sz n) @ es @ drop (i + length es) (elems m p sz n)"
proof -
  let ?m = "store m (slot p sz i) (concat es)" and ?c = "length es"
  have len: "length (concat es) = ?c * sz" using assms(2) by (rule length_concat_sized)
  have fits: "(i + ?c) * sz \<le> 2 ^ 64" "?c * sz \<le> 2 ^ 64"
    using assms(1,3) by (meson add_leD2 le_trans mult_le_mono1)+
  have "elems ?m p sz n = elems ?m p sz i @ elems ?m (slot p sz i) sz ?c @ elems ?m (slot p sz (i + ?c)) sz (n - i - ?c)"
    using assms(1) elems_append [of ?m p sz "i + ?c" "n - i - ?c"] elems_append [of ?m p sz i ?c] by simp
  moreover have "elems ?m p sz i = elems m p sz i"
    using span_slots_apart [of 0 i i ?c sz p] fits by (intro elems_store_apart) (simp_all add: len)
  moreover have "elems ?m (slot p sz i) sz ?c = es"
    using elems_store_self [OF assms(2) fits(2)] .
  moreover have "elems ?m (slot p sz (i + ?c)) sz (n - i - ?c) = elems m (slot p sz (i + ?c)) sz (n - i - ?c)"
    using span_slots_apart [of i ?c "i + ?c" "n - i - ?c" sz p] assms(1,3) fits(2)
    by (intro elems_store_apart) (auto simp: len)
  ultimately show ?thesis
    using assms(1) by (simp add: elems_take elems_drop)
qed

end
