(* ===== verification/Loke_Alloc.thy ===== *)
theory Loke_Alloc
  imports Loke_State
begin

text \<open>
  \<^verbatim>\<open>runtime/alloc.c\<close>: the system heap provider, the selection of the default provider, the
  dispatch every allocation goes through, and the refusal note behind the failure report.

  The callbacks a table of \<^verbatim>\<open>loke_rt_allocator_ops_v1\<close> holds are a parameter \<open>P\<close> of the
  dispatch, indexed by the table; \<open>Loke_Arena\<close> ties the knot with the arena's own table.  What
  is outside the runtime is collected in \<open>host\<close>: the aligned heap of the C library, the
  providers a program defines, and the addresses the linker gives to the two static records.
\<close>

section \<open>Definitions\<close>

record 'w callbacks =
  cb_alloc :: "addr \<Rightarrow> u64 \<Rightarrow> u64 \<Rightarrow> ('w rt, addr) proc"
  cb_resize :: "addr \<Rightarrow> addr \<Rightarrow> u64 \<Rightarrow> u64 \<Rightarrow> u64 \<Rightarrow> ('w rt, addr) proc"
  cb_free :: "addr \<Rightarrow> addr \<Rightarrow> u64 \<Rightarrow> u64 \<Rightarrow> ('w rt, unit) proc"
  cb_reset :: "addr \<Rightarrow> ('w rt, int) proc"

type_synonym 'w providers = "ops_table \<Rightarrow> 'w callbacks"

record 'w host =
  aligned_malloc :: "u64 \<Rightarrow> u64 \<Rightarrow> ('w rt, addr) proc"
  aligned_realloc :: "addr \<Rightarrow> u64 \<Rightarrow> u64 \<Rightarrow> ('w rt, addr) proc"
  aligned_free :: "addr \<Rightarrow> ('w rt, unit) proc"
  program_ops :: "nat \<Rightarrow> 'w callbacks"
  default_allocator :: addr
  empty_region :: addr

definition LOKE_RT_ABI_VERSION :: u32 where
  "LOKE_RT_ABI_VERSION = 1"

definition SIZEOF_ALLOCATOR :: u32 where
  "SIZEOF_ALLOCATOR = 40"

definition LOKE_RT_ON_FAILURE_PANIC :: u32 where
  "LOKE_RT_ON_FAILURE_PANIC = 0"

definition LOKE_RT_ON_FAILURE_TRAP :: u32 where
  "LOKE_RT_ON_FAILURE_TRAP = 1"

definition LOKE_RT_REFUSAL_UNSIZED :: u64 where
  "LOKE_RT_REFUSAL_UNSIZED = UINT64_MAX"

definition sane_align :: "u64 \<Rightarrow> u64" where
  "sane_align align = (if align = 0 then 1 else align)"

subsection \<open>The system heap\<close>

definition sys_alloc :: "'w host \<Rightarrow> addr \<Rightarrow> u64 \<Rightarrow> u64 \<Rightarrow> ('w rt, addr) proc" where
  "sys_alloc H state sz align =
     (if sz = 0 then return 0 else aligned_malloc H sz (sane_align align))"

definition sys_resize :: "'w host \<Rightarrow> addr \<Rightarrow> addr \<Rightarrow> u64 \<Rightarrow> u64 \<Rightarrow> u64 \<Rightarrow> ('w rt, addr) proc" where
  "sys_resize H state ptr old_size new_size align =
     (if new_size = 0 then return 0
      else if ptr = 0 then aligned_malloc H new_size (sane_align align)
      else aligned_realloc H ptr new_size (sane_align align))"

definition sys_free :: "'w host \<Rightarrow> addr \<Rightarrow> addr \<Rightarrow> u64 \<Rightarrow> u64 \<Rightarrow> ('w rt, unit) proc" where
  "sys_free H state ptr sz align = aligned_free H ptr"

definition sys_reset :: "addr \<Rightarrow> ('w rt, int) proc" where
  "sys_reset state = return 0"

definition loke_rt_system_ops :: "'w host \<Rightarrow> 'w callbacks" where
  "loke_rt_system_ops H =
     \<lparr>cb_alloc = sys_alloc H, cb_resize = sys_resize H, cb_free = sys_free H, cb_reset = sys_reset\<rparr>"

text \<open>The static record behind \<^verbatim>\<open>loke_rt_v1_default_allocator\<close>.\<close>

definition loke_rt_v1_default_allocator :: allocator_v1 where
  "loke_rt_v1_default_allocator =
     \<lparr>abi_version = LOKE_RT_ABI_VERSION, record_size = SIZEOF_ALLOCATOR, al_state = 0, region_id = 0,
      al_ops = System_ops, on_failure = LOKE_RT_ON_FAILURE_PANIC, reserved = 0\<rparr>"

subsection \<open>The selected provider\<close>

definition check_record :: "addr \<Rightarrow> ('w rt, unit) proc" where
  "check_record a = bind get_state (\<lambda>st.
     let r = allocators st a in
     if abi_version r \<noteq> LOKE_RT_ABI_VERSION \<or> record_size r < SIZEOF_ALLOCATOR \<or> al_ops r = No_ops
     then stop (Abort ''allocator record does not match this runtime's ABI'') else return ())"

definition loke_rt_v1_selected_allocator :: "('w rt, addr) proc" where
  "loke_rt_v1_selected_allocator = bind get_state (\<lambda>st. return (selected st))"

definition resolve :: "addr \<Rightarrow> ('w rt, addr) proc" where
  "resolve a = bind get_state (\<lambda>st.
     let a = (if a = 0 then selected st else a) in bind (check_record a) (\<lambda>_. return a))"

definition loke_rt_v1_publish_allocator :: "addr \<Rightarrow> ('w rt, unit) proc" where
  "loke_rt_v1_publish_allocator a =
     (if a = 0 then stop (Abort ''the selected allocator factory returned no handle'')
      else bind (check_record a) (\<lambda>_. modify (\<lambda>st. st\<lparr>selected := a\<rparr>)))"

definition loke_rt_v1_provider_init_begin :: "('w rt, int) proc" where
  "loke_rt_v1_provider_init_begin = bind get_state (\<lambda>st.
     case init_phase st of
       Init_done \<Rightarrow> return 0
     | Init_running \<Rightarrow> stop (Abort ''provider initialization re-entered itself'')
     | Init_idle \<Rightarrow> bind (modify (\<lambda>st. st\<lparr>init_phase := Init_running\<rparr>)) (\<lambda>_. return 1))"

definition loke_rt_v1_provider_init_end :: "('w rt, unit) proc" where
  "loke_rt_v1_provider_init_end = modify (\<lambda>st. st\<lparr>init_phase := Init_done\<rparr>)"

subsection \<open>Dispatch\<close>

definition note_request :: "addr \<Rightarrow> u64 \<Rightarrow> addr \<Rightarrow> ('w rt, addr) proc" where
  "note_request a sz result =
     bind (modify (\<lambda>st. st\<lparr>refused_by := (if result = 0 then a else 0), refused_size := sz\<rparr>))
       (\<lambda>_. return result)"

text \<open>The provider of a handle, as \<^verbatim>\<open>a->ops\<close> and \<^verbatim>\<open>a->state\<close> read it.\<close>

definition with_provider ::
    "'w providers \<Rightarrow> addr \<Rightarrow> (addr \<Rightarrow> 'w callbacks \<Rightarrow> addr \<Rightarrow> ('w rt, 'a) proc) \<Rightarrow> ('w rt, 'a) proc" where
  "with_provider P a f = bind (resolve a) (\<lambda>a. bind get_state (\<lambda>st.
     f a (P (al_ops (allocators st a))) (al_state (allocators st a))))"

definition loke_rt_v1_alloc :: "'w providers \<Rightarrow> addr \<Rightarrow> u64 \<Rightarrow> u64 \<Rightarrow> ('w rt, addr) proc" where
  "loke_rt_v1_alloc P a sz align = with_provider P a (\<lambda>a cb state.
     if sz = 0 then return (sane_align align)
     else bind (cb_alloc cb state sz align) (note_request a sz))"

definition loke_rt_v1_alloc_zeroed :: "'w providers \<Rightarrow> addr \<Rightarrow> u64 \<Rightarrow> u64 \<Rightarrow> ('w rt, addr) proc" where
  "loke_rt_v1_alloc_zeroed P a sz align = bind (loke_rt_v1_alloc P a sz align) (\<lambda>p.
     bind (if p \<noteq> 0 then memset p 0 sz else return ()) (\<lambda>_. return p))"

definition loke_rt_v1_resize ::
    "'w providers \<Rightarrow> addr \<Rightarrow> addr \<Rightarrow> u64 \<Rightarrow> u64 \<Rightarrow> u64 \<Rightarrow> ('w rt, addr) proc" where
  "loke_rt_v1_resize P a ptr old_size new_size align = with_provider P a (\<lambda>a cb state.
     bind (cb_resize cb state ptr old_size new_size align) (note_request a new_size))"

definition loke_rt_v1_free :: "'w providers \<Rightarrow> addr \<Rightarrow> addr \<Rightarrow> u64 \<Rightarrow> u64 \<Rightarrow> ('w rt, unit) proc" where
  "loke_rt_v1_free P a ptr sz align = with_provider P a (\<lambda>a cb state.
     if sz = 0 then return () else cb_free cb state ptr sz align)"

definition loke_rt_v1_reset :: "'w providers \<Rightarrow> addr \<Rightarrow> ('w rt, unit) proc" where
  "loke_rt_v1_reset P a = with_provider P a (\<lambda>a cb state.
     bind (cb_reset cb state) (\<lambda>ok.
       if ok = 0 then stop (Abort ''this allocator does not support free_all'') else return ()))"

subsection \<open>The refusal note and the failure report\<close>

definition loke_rt_v1_take_refusal :: "('w rt, u64) proc" where
  "loke_rt_v1_take_refusal = bind get_state (\<lambda>st.
     let sz = (if refused_by st \<noteq> 0 then refused_size st else LOKE_RT_REFUSAL_UNSIZED) in
     bind (modify (\<lambda>st. st\<lparr>refused_by := 0\<rparr>)) (\<lambda>_. return sz))"

definition loke_rt_v1_restore_refusal :: "addr \<Rightarrow> u64 \<Rightarrow> ('w rt, unit) proc" where
  "loke_rt_v1_restore_refusal a sz =
     bind (if sz = 0 \<or> sz = LOKE_RT_REFUSAL_UNSIZED then return 0 else resolve a) (\<lambda>who.
       modify (\<lambda>st. st\<lparr>refused_by := who, refused_size := sz\<rparr>))"

definition loke_rt_arena_name :: "'w host \<Rightarrow> 'w rt \<Rightarrow> addr \<Rightarrow> string option" where
  "loke_rt_arena_name H st a =
     (if a = empty_region H then Some ''a zero-value arena, which holds no memory''
      else if al_ops (allocators st a) \<noteq> Arena_ops then None
      else Some (if arena_parent (arenas st (al_state (allocators st a))) = 0
                 then ''a fixed-buffer arena'' else ''an arena''))"

definition allocator_kind :: "'w host \<Rightarrow> 'w rt \<Rightarrow> addr \<Rightarrow> string" where
  "allocator_kind H st a =
     (case loke_rt_arena_name H st a of
        Some name \<Rightarrow> name
      | None \<Rightarrow> if a = default_allocator H then ''the system heap'' else ''a program-defined allocator'')"

definition allocator_role :: "'w host \<Rightarrow> 'w rt \<Rightarrow> addr \<Rightarrow> string" where
  "allocator_role H st a =
     (if a = selected st \<and> a \<noteq> default_allocator H then '', the build-selected default'' else '''')"

text \<open>The \<^verbatim>\<open>%llu\<close> conversion of \<^verbatim>\<open>snprintf\<close>, and its truncation to a buffer of 160 bytes with
  the terminating zero.\<close>

fun decimal :: "nat \<Rightarrow> string" where
  "decimal n = (if n < 10 then [char_of (48 + n)] else decimal (n div 10) @ [char_of (48 + n mod 10)])"

declare decimal.simps [simp del]

definition snprintf_message :: "string \<Rightarrow> string" where
  "snprintf_message s = take 159 s"

definition failure_report :: "'w host \<Rightarrow> 'w rt \<Rightarrow> addr \<Rightarrow> string" where
  "failure_report H st a = snprintf_message
     (if refused_by st \<noteq> 0
      then ''allocation failed: '' @ decimal (unat (refused_size st)) @ '' bytes requested from '' @
        allocator_kind H st (refused_by st) @ allocator_role H st (refused_by st)
      else ''allocation failed in '' @ allocator_kind H st a @ allocator_role H st a @
        '', with no size requested'')"

definition loke_rt_v1_alloc_failed :: "'w host \<Rightarrow> addr \<Rightarrow> ('w rt, unit) proc" where
  "loke_rt_v1_alloc_failed H a = bind (resolve a) (\<lambda>a. bind get_state (\<lambda>st.
     let message = failure_report H st a in
     bind (modify (\<lambda>st. st\<lparr>refused_by := 0\<rparr>)) (\<lambda>_.
       if on_failure (allocators st a) = LOKE_RT_ON_FAILURE_TRAP then stop (Abort message)
       else stop (Panic message))))"

section \<open>Resolving a handle\<close>

definition record_ok :: "'w rt \<Rightarrow> addr \<Rightarrow> bool" where
  "record_ok st a \<longleftrightarrow> abi_version (allocators st a) = LOKE_RT_ABI_VERSION \<and>
     SIZEOF_ALLOCATOR \<le> record_size (allocators st a) \<and> al_ops (allocators st a) \<noteq> No_ops"

text \<open>The provider a handle stands for: null is the selected one.\<close>

definition provider_of :: "'w rt \<Rightarrow> addr \<Rightarrow> addr" where
  "provider_of st a = (if a = 0 then selected st else a)"

lemma resolve_run: "resolve a st =
    (if record_ok st (provider_of st a) then (Inr (provider_of st a), st)
     else (Inl (Abort ''allocator record does not match this runtime's ABI''), st))"
  by (auto simp: resolve_def check_record_def record_ok_def provider_of_def bind_def rt_simps Let_def)

lemma with_provider_run: "record_ok st (provider_of st a) \<Longrightarrow> with_provider P a f st =
    f (provider_of st a) (P (al_ops (allocators st (provider_of st a)))) (al_state (allocators st (provider_of st a))) st"
  by (simp add: with_provider_def resolve_run bind_def rt_simps)

lemma with_provider_abort: "\<not> record_ok st (provider_of st a) \<Longrightarrow> with_provider P a f st =
    (Inl (Abort ''allocator record does not match this runtime's ABI''), st)"
  by (simp add: with_provider_def resolve_run bind_def)

lemma note_run: "bind m (note_request a sz) st =
    (case m st of (Inl e, t) \<Rightarrow> (Inl e, t)
     | (Inr r, t) \<Rightarrow> (Inr r, t\<lparr>refused_by := (if r = 0 then a else 0), refused_size := sz\<rparr>))"
  by (simp add: bind_def note_request_def rt_simps split: prod.splits sum.splits)

section \<open>Properties\<close>

text \<open>C24. A refused request is reported as the program made it. When the provider behind a handle
  refuses, the call answers null and notes the provider and the size; turning the failure into
  an error value takes that size and leaves no note; turning the error back into a status
  restores the note exactly; and the policy call then ends the program, immediately under
  \<^verbatim>\<open>.Trap\<close> and by panic otherwise, with a message naming that size and that provider.\<close>

theorem refusal_reported:
  fixes st st' :: "'w rt" and H :: "'w host"
  assumes ok: "record_ok st (provider_of st a)" and sized: "sz \<noteq> 0" "sz \<noteq> LOKE_RT_REFUSAL_UNSIZED" and h: "provider_of st a \<noteq> 0"
    and refuse: "cb_alloc (P (al_ops (allocators st (provider_of st a)))) (al_state (allocators st (provider_of st a))) sz align st = (Inr 0, st')"
    and same: "allocators st' = allocators st" "selected st' = selected st"
  shows "let noted = st'\<lparr>refused_by := provider_of st a, refused_size := sz\<rparr>; taken = st'\<lparr>refused_by := 0, refused_size := sz\<rparr>;
        message = snprintf_message (''allocation failed: '' @ decimal (unat sz) @ '' bytes requested from '' @
          allocator_kind H st' (provider_of st a) @ allocator_role H st' (provider_of st a)) in
      loke_rt_v1_alloc P a sz align st = (Inr 0, noted) \<and>
      loke_rt_v1_take_refusal noted = (Inr sz, taken) \<and>
      loke_rt_v1_take_refusal taken = (Inr LOKE_RT_REFUSAL_UNSIZED, taken) \<and>
      loke_rt_v1_restore_refusal a sz taken = (Inr (), noted) \<and>
      loke_rt_v1_alloc_failed H a noted =
        (Inl (if on_failure (allocators st (provider_of st a)) = LOKE_RT_ON_FAILURE_TRAP then Abort message else Panic message), taken)"
proof -
  have ok': "record_ok (st'\<lparr>refused_by := x, refused_size := y\<rparr>) (provider_of st a)" for x y
    using ok same by (simp add: record_ok_def)
  have tgt: "provider_of (st'\<lparr>refused_by := x, refused_size := y\<rparr>) a = provider_of st a" for x y
    using same by (simp add: provider_of_def)
  have names: "allocator_kind H (st'\<lparr>refused_by := x, refused_size := y\<rparr>) = allocator_kind H st'"
      "allocator_role H (st'\<lparr>refused_by := x, refused_size := y\<rparr>) = allocator_role H st'" for x y
    by (simp_all add: fun_eq_iff allocator_kind_def allocator_role_def loke_rt_arena_name_def)
  show ?thesis
    unfolding Let_def
  proof (intro conjI)
    show "loke_rt_v1_alloc P a sz align st = (Inr 0, st'\<lparr>refused_by := provider_of st a, refused_size := sz\<rparr>)"
      using ok refuse sized by (simp add: loke_rt_v1_alloc_def with_provider_run note_run)
  qed (use h sized same in \<open>simp_all add: loke_rt_v1_take_refusal_def loke_rt_v1_restore_refusal_def
      loke_rt_v1_alloc_failed_def failure_report_def bind_def rt_simps resolve_run ok' tgt Let_def names\<close>)
qed

text \<open>A program whose own provider, at address 32, refuses everything.\<close>

definition refusing_host :: "unit host" where
  "refusing_host = \<lparr>aligned_malloc = (\<lambda>sz align. return 0), aligned_realloc = (\<lambda>p sz align. return 0),
     aligned_free = (\<lambda>p. return ()),
     program_ops = (\<lambda>_. \<lparr>cb_alloc = (\<lambda>_ _ _. return 0), cb_resize = (\<lambda>_ _ _ _ _. return 0),
       cb_free = (\<lambda>_ _ _ _. return ()), cb_reset = (\<lambda>_. return 0)\<rparr>),
     default_allocator = 16, empty_region = 64\<rparr>"

theorem refusal_reported_witness:
  "\<exists>st :: unit rt. on_failure (allocators st 32) = LOKE_RT_ON_FAILURE_TRAP \<and> al_ops (allocators st 32) = Program_ops 7 \<and>
    fst (loke_rt_v1_alloc_failed refusing_host 32 (snd (loke_rt_v1_alloc (\<lambda>_. program_ops refusing_host 7) 32 48 8 st))) =
      Inl (Abort ''allocation failed: 48 bytes requested from a program-defined allocator'')"
proof -
  let ?st = "(undefined :: unit rt)\<lparr>allocators := (\<lambda>_. \<lparr>abi_version = 1, record_size = 40, al_state = 0, region_id = 0,
      al_ops = Program_ops 7, on_failure = 1, reserved = 0\<rparr>), selected := 16\<rparr>"
  have "decimal 48 = ''48''" by code_simp
  then show ?thesis
    using refusal_reported [of ?st 32 48 "\<lambda>_. program_ops refusing_host 7" 8 ?st refusing_host]
    by (intro exI [of _ ?st]) (simp add: Let_def record_ok_def provider_of_def LOKE_RT_ABI_VERSION_def SIZEOF_ALLOCATOR_def
      LOKE_RT_REFUSAL_UNSIZED_def UINT64_MAX_def LOKE_RT_ON_FAILURE_TRAP_def refusing_host_def rt_simps allocator_kind_def
      allocator_role_def loke_rt_arena_name_def snprintf_message_def)
qed

text \<open>Provider initialization runs at most once: the first call that begins it answers 1, every call
  after it ended answers 0, and beginning it again before its end stops the program.\<close>

lemma provider_init_once:
  "loke_rt_v1_provider_init_begin (st\<lparr>init_phase := Init_idle\<rparr>) = (Inr 1, st\<lparr>init_phase := Init_running\<rparr>) \<and>
   loke_rt_v1_provider_init_begin (st\<lparr>init_phase := Init_running\<rparr>) =
     (Inl (Abort ''provider initialization re-entered itself''), st\<lparr>init_phase := Init_running\<rparr>) \<and>
   bind loke_rt_v1_provider_init_end (\<lambda>_. loke_rt_v1_provider_init_begin) st = (Inr 0, st\<lparr>init_phase := Init_done\<rparr>)"
  by (simp add: loke_rt_v1_provider_init_begin_def loke_rt_v1_provider_init_end_def bind_def rt_simps)

text \<open>A request for no bytes never reaches a provider and never fails: it answers the alignment,
  a non-null address, and changes nothing, whichever provider is behind the handle. A record of
  another version of the runtime is never read: every dispatch through it stops the program.\<close>

lemma zero_size_alloc:
  "sane_align align \<noteq> 0 \<and>
   (if record_ok st (provider_of st a)
    then loke_rt_v1_alloc P a 0 align st = (Inr (sane_align align), st) \<and> loke_rt_v1_free P a ptr 0 align st = (Inr (), st)
    else let refusal = Inl (Abort ''allocator record does not match this runtime's ABI'') in
      loke_rt_v1_alloc P a sz align st = (refusal, st) \<and> loke_rt_v1_resize P a ptr old new align st = (refusal, st) \<and>
      loke_rt_v1_free P a ptr sz align st = (Inl (Abort ''allocator record does not match this runtime's ABI''), st) \<and>
      loke_rt_v1_reset P a st = (Inl (Abort ''allocator record does not match this runtime's ABI''), st))"
  by (simp add: loke_rt_v1_alloc_def loke_rt_v1_free_def loke_rt_v1_resize_def loke_rt_v1_reset_def with_provider_run
    with_provider_abort rt_simps sane_align_def)

end
