(* ===== verification/Loke_Dyn.thy ===== *)
theory Loke_Dyn
  imports Loke_Alloc
begin

text \<open>
  The dynamic array of \<^verbatim>\<open>runtime/container.c\<close> (\<^verbatim>\<open>dyn_at\<close> to \<^verbatim>\<open>loke_rt_v1_dyn_shrink\<close>).  A container
  value is the struct at its address; its elements are bytes of memory, moved by \<^verbatim>\<open>memcpy\<close> and
  \<^verbatim>\<open>memmove\<close> as the source does.  The compiler's hooks for one element type are a record of
  procedures over the whole state: they may fail, change memory and panic, and a panic keeps the
  state it happened in, because the unwind drops the container in that state.
\<close>

section \<open>Definitions\<close>

record 'w container_ops =
  elem_size :: u64
  elem_align :: u64
  elem_drop :: "(addr \<Rightarrow> ('w rt, unit) proc) option"
  elem_clone :: "(addr \<Rightarrow> addr \<Rightarrow> addr \<Rightarrow> ('w rt, bool) proc) option"
  key_size :: u64
  key_align :: u64
  key_drop :: "(addr \<Rightarrow> ('w rt, unit) proc) option"
  key_clone :: "(addr \<Rightarrow> addr \<Rightarrow> addr \<Rightarrow> ('w rt, bool) proc) option"
  key_hash :: "'w rt \<Rightarrow> addr \<Rightarrow> u64 \<Rightarrow> u64"
  key_equal :: "'w rt \<Rightarrow> addr \<Rightarrow> addr \<Rightarrow> bool"

record dyn_grow_undo =
  old_data :: addr
  old_cap :: int
  grew :: bool

definition loke_rt_v1_container_fault :: "string \<Rightarrow> ('w rt, 'a) proc" where
  "loke_rt_v1_container_fault what = stop (Panic what)"

definition set_dyn :: "addr \<Rightarrow> (dynamic_v1 \<Rightarrow> dynamic_v1) \<Rightarrow> ('w rt, unit) proc" where
  "set_dyn self f = modify (\<lambda>st. st\<lparr>dyns := (dyns st)(self := f (dyns st self))\<rparr>)"

definition zero_dyn :: dynamic_v1 where
  "zero_dyn = \<lparr>dyn_data = 0, dyn_len = 0, dyn_cap = 0, dyn_allocator = 0\<rparr>"

definition dyn_at :: "dynamic_v1 \<Rightarrow> 'w container_ops \<Rightarrow> int \<Rightarrow> addr" where
  "dyn_at d ops index = dyn_data d + word_of_int index * elem_size ops"

definition dyn_growth_target :: "int \<Rightarrow> int \<Rightarrow> int option" where
  "dyn_growth_target cap min_capacity =
     (let want = min_capacity;
          want = (if cap > 0
                  then (case loke_rt_v1_checked_add cap cap of
                      Some doubled \<Rightarrow> if doubled > want then doubled else want
                    | None \<Rightarrow> want)
                  else want);
          want = (if want < 8 then 8 else want)
      in if want < min_capacity then None else Some want)"

definition loke_rt_v1_dyn_bind :: "addr \<Rightarrow> ('w rt, unit) proc" where
  "loke_rt_v1_dyn_bind self = bind get_state (\<lambda>st.
     if dyn_allocator (dyns st self) = 0
     then bind loke_rt_v1_selected_allocator (\<lambda>a. set_dyn self (\<lambda>d. d\<lparr>dyn_allocator := a\<rparr>))
     else return ())"

definition loke_rt_v1_dyn_reserve :: "'w providers \<Rightarrow> addr \<Rightarrow> 'w container_ops \<Rightarrow> int \<Rightarrow> ('w rt, bool) proc" where
  "loke_rt_v1_dyn_reserve P self ops min_capacity =
     (if min_capacity < 0 then loke_rt_v1_container_fault ''a container capacity cannot be negative''
      else bind (loke_rt_v1_dyn_bind self) (\<lambda>_. bind get_state (\<lambda>st.
        let d = dyns st self in
        if min_capacity \<le> dyn_cap d then return True
        else case dyn_growth_target (dyn_cap d) min_capacity of
          None \<Rightarrow> return False
        | Some target \<Rightarrow> (case loke_rt_v1_checked_bytes target (elem_size ops) of
            None \<Rightarrow> return False
          | Some new_bytes \<Rightarrow> (case loke_rt_v1_checked_bytes (dyn_cap d) (elem_size ops) of
              None \<Rightarrow> return False
            | Some old_bytes \<Rightarrow>
                if new_bytes = 0 then bind (set_dyn self (\<lambda>d. d\<lparr>dyn_cap := target\<rparr>)) (\<lambda>_. return True)
                else bind (loke_rt_v1_resize P (dyn_allocator d) (dyn_data d) old_bytes new_bytes
                             (sane_container_align (elem_align ops))) (\<lambda>storage.
                  if storage = 0 then return False
                  else bind (set_dyn self (\<lambda>d. d\<lparr>dyn_data := storage, dyn_cap := target\<rparr>)) (\<lambda>_. return True)))))))"

text \<open>The loop that shortens the array before each drop: of \<^verbatim>\<open>dyn_drop\<close> with \<open>new_len = 0\<close>, and of
  \<^verbatim>\<open>dyn_truncate\<close>.\<close>

definition dyn_drop_last :: "addr \<Rightarrow> 'w container_ops \<Rightarrow> (addr \<Rightarrow> ('w rt, unit) proc) \<Rightarrow> ('w rt, unit) proc" where
  "dyn_drop_last self ops hook =
     bind (set_dyn self (\<lambda>d. d\<lparr>dyn_len := dyn_len d - 1\<rparr>)) (\<lambda>_. bind get_state (\<lambda>st.
       hook (dyn_at (dyns st self) ops (dyn_len (dyns st self)))))"

definition dyn_drop_down_to ::
    "addr \<Rightarrow> 'w container_ops \<Rightarrow> (addr \<Rightarrow> ('w rt, unit) proc) \<Rightarrow> int \<Rightarrow> ('w rt, unit) proc" where
  "dyn_drop_down_to self ops hook new_len =
     while_proc (\<lambda>_ st. dyn_len (dyns st self) > new_len) (\<lambda>_. dyn_drop_last self ops hook) ()"

definition loke_rt_v1_dyn_drop :: "'w providers \<Rightarrow> addr \<Rightarrow> 'w container_ops \<Rightarrow> ('w rt, unit) proc" where
  "loke_rt_v1_dyn_drop P self ops =
     bind (case elem_drop ops of None \<Rightarrow> return () | Some hook \<Rightarrow> dyn_drop_down_to self ops hook 0) (\<lambda>_.
     bind get_state (\<lambda>st.
       let d = dyns st self in
       bind (if dyn_data d \<noteq> 0
             then (case loke_rt_v1_checked_bytes (dyn_cap d) (elem_size ops) of
                 Some bytes \<Rightarrow> if bytes \<noteq> 0
                   then loke_rt_v1_free P (dyn_allocator d) (dyn_data d) bytes (sane_container_align (elem_align ops))
                   else return ()
               | None \<Rightarrow> return ())
             else return ())
         (\<lambda>_. set_dyn self (\<lambda>_. zero_dyn))))"

text \<open>The element loop of \<^verbatim>\<open>dyn_clone\<close>: the index reached and whether every clone succeeded.\<close>

definition dyn_clone_from ::
    "(addr \<Rightarrow> addr \<Rightarrow> addr \<Rightarrow> ('w rt, bool) proc) \<Rightarrow> 'w container_ops \<Rightarrow> addr \<Rightarrow> addr \<Rightarrow> addr \<Rightarrow> ('w rt, int \<times> bool) proc" where
  "dyn_clone_from hook ops out src a =
     while_proc (\<lambda>(i, ok) st. ok \<and> i < dyn_len (dyns st src))
       (\<lambda>(i, ok). bind get_state (\<lambda>st.
          bind (hook (dyn_at (dyns st out) ops i) (dyn_at (dyns st src) ops i) a) (\<lambda>ok.
            return (if ok then i + 1 else i, ok)))) (0, True)"

definition loke_rt_v1_dyn_clone ::
    "'w providers \<Rightarrow> addr \<Rightarrow> addr \<Rightarrow> 'w container_ops \<Rightarrow> addr \<Rightarrow> ('w rt, bool) proc" where
  "loke_rt_v1_dyn_clone P out src ops a =
     bind (set_dyn out (\<lambda>_. zero_dyn\<lparr>dyn_allocator := a\<rparr>)) (\<lambda>_. bind get_state (\<lambda>st.
       let len = dyn_len (dyns st src) in
       if len = 0 then return True
       else bind (loke_rt_v1_dyn_reserve P out ops len) (\<lambda>ok.
         if \<not> ok then bind (set_dyn out (\<lambda>_. zero_dyn\<lparr>dyn_allocator := a\<rparr>)) (\<lambda>_. return False)
         else (case elem_clone ops of
           None \<Rightarrow> (case loke_rt_v1_checked_bytes len (elem_size ops) of
               None \<Rightarrow> bind (loke_rt_v1_dyn_drop P out ops) (\<lambda>_.
                 bind (set_dyn out (\<lambda>d. d\<lparr>dyn_allocator := a\<rparr>)) (\<lambda>_. return False))
             | Some bytes \<Rightarrow> bind get_state (\<lambda>st.
                 bind (memcpy (dyn_data (dyns st out)) (dyn_data (dyns st src)) bytes) (\<lambda>_.
                 bind (set_dyn out (\<lambda>d. d\<lparr>dyn_len := len\<rparr>)) (\<lambda>_. return True))))
         | Some hook \<Rightarrow> bind (dyn_clone_from hook ops out src a) (\<lambda>(i, ok).
             if \<not> ok
             then bind (set_dyn out (\<lambda>d. d\<lparr>dyn_len := i\<rparr>)) (\<lambda>_.
               bind (loke_rt_v1_dyn_drop P out ops) (\<lambda>_.
               bind (set_dyn out (\<lambda>d. d\<lparr>dyn_allocator := a\<rparr>)) (\<lambda>_. return False)))
             else bind get_state (\<lambda>st.
               bind (set_dyn out (\<lambda>d. d\<lparr>dyn_len := dyn_len (dyns st src)\<rparr>)) (\<lambda>_. return True)))))))"

subsection \<open>Growth that keeps the old block\<close>

text \<open>The move of the live elements into a fresh block.\<close>

definition dyn_relocate :: "addr \<Rightarrow> 'w container_ops \<Rightarrow> addr \<Rightarrow> int \<Rightarrow> ('w rt, unit) proc" where
  "dyn_relocate self ops fresh cap = bind get_state (\<lambda>st.
     bind (case loke_rt_v1_checked_bytes (dyn_len (dyns st self)) (elem_size ops) of
         Some used \<Rightarrow> if used \<noteq> 0 then memcpy fresh (dyn_data (dyns st self)) used else return ()
       | None \<Rightarrow> return ()) (\<lambda>_.
     set_dyn self (\<lambda>d. d\<lparr>dyn_data := fresh, dyn_cap := cap\<rparr>)))"

definition dyn_regrow ::
    "'w providers \<Rightarrow> addr \<Rightarrow> 'w container_ops \<Rightarrow> int \<Rightarrow> bool \<Rightarrow> ('w rt, bool \<times> dyn_grow_undo) proc" where
  "dyn_regrow P self ops need force = bind get_state (\<lambda>st.
     let d = dyns st self; undo = \<lparr>old_data = dyn_data d, old_cap = dyn_cap d, grew = False\<rparr> in
     if need \<le> dyn_cap d \<and> \<not> force then return (True, undo)
     else case dyn_growth_target (dyn_cap d) need of
       None \<Rightarrow> return (False, undo)
     | Some target \<Rightarrow> (case loke_rt_v1_checked_bytes target (elem_size ops) of
         None \<Rightarrow> return (False, undo)
       | Some bytes \<Rightarrow>
           if bytes = 0 then bind (set_dyn self (\<lambda>d. d\<lparr>dyn_cap := target\<rparr>)) (\<lambda>_. return (True, undo))
           else bind (loke_rt_v1_alloc P (dyn_allocator d) bytes (sane_container_align (elem_align ops))) (\<lambda>fresh.
             if fresh = 0 then return (False, undo)
             else bind (dyn_relocate self ops fresh target) (\<lambda>_. return (True, undo\<lparr>grew := True\<rparr>)))))"

definition dyn_regrow_commit :: "'w providers \<Rightarrow> addr \<Rightarrow> 'w container_ops \<Rightarrow> dyn_grow_undo \<Rightarrow> ('w rt, unit) proc" where
  "dyn_regrow_commit P self ops undo = bind get_state (\<lambda>st.
     if grew undo \<and> old_data undo \<noteq> 0
     then (case loke_rt_v1_checked_bytes (old_cap undo) (elem_size ops) of
         Some bytes \<Rightarrow> if bytes \<noteq> 0
           then loke_rt_v1_free P (dyn_allocator (dyns st self)) (old_data undo) bytes (sane_container_align (elem_align ops))
           else return ()
       | None \<Rightarrow> return ())
     else return ())"

definition dyn_regrow_rollback :: "'w providers \<Rightarrow> addr \<Rightarrow> 'w container_ops \<Rightarrow> dyn_grow_undo \<Rightarrow> ('w rt, unit) proc" where
  "dyn_regrow_rollback P self ops undo =
     (if \<not> grew undo then return ()
      else bind get_state (\<lambda>st.
        let d = dyns st self in
        bind (case loke_rt_v1_checked_bytes (dyn_cap d) (elem_size ops) of
            Some bytes \<Rightarrow> if bytes \<noteq> 0
              then loke_rt_v1_free P (dyn_allocator d) (dyn_data d) bytes (sane_container_align (elem_align ops))
              else return ()
          | None \<Rightarrow> return ())
        (\<lambda>_. set_dyn self (\<lambda>d. d\<lparr>dyn_data := old_data undo, dyn_cap := old_cap undo\<rparr>))))"

definition dyn_src_aliases :: "dynamic_v1 \<Rightarrow> 'w container_ops \<Rightarrow> addr \<Rightarrow> bool" where
  "dyn_src_aliases d ops src =
     (if dyn_data d = 0 then False
      else case loke_rt_v1_checked_bytes (dyn_cap d) (elem_size ops) of
        None \<Rightarrow> False
      | Some bytes \<Rightarrow> src \<ge> dyn_data d \<and> src < dyn_data d + bytes)"

subsection \<open>Filling slots\<close>

text \<open>\<^verbatim>\<open>owned\<close> is null, or the address of one byte per element.\<close>

definition is_owned :: "'w rt \<Rightarrow> addr \<Rightarrow> int \<Rightarrow> bool" where
  "is_owned st owned i \<longleftrightarrow> owned \<noteq> 0 \<and> mem st (owned + word_of_int i) \<noteq> 0"

definition dyn_fill_step ::
    "(addr \<Rightarrow> addr \<Rightarrow> addr \<Rightarrow> ('w rt, bool) proc) \<Rightarrow> addr \<Rightarrow> 'w container_ops \<Rightarrow> int \<Rightarrow> addr \<Rightarrow> addr \<Rightarrow> int \<Rightarrow> ('w rt, int \<times> bool) proc" where
  "dyn_fill_step hook self ops at src owned i = bind get_state (\<lambda>st.
     let from = src + word_of_int i * elem_size ops; to = dyn_at (dyns st self) ops (at + i) in
     if is_owned st owned i then bind (memcpy to from (elem_size ops)) (\<lambda>_. return (i + 1, True))
     else bind (hook to from (dyn_allocator (dyns st self))) (\<lambda>ok. return (if ok then i + 1 else i, ok)))"

text \<open>The clones already made, first to last, when one fails.\<close>

definition dyn_unfill ::
    "addr \<Rightarrow> 'w container_ops \<Rightarrow> int \<Rightarrow> addr \<Rightarrow> int \<Rightarrow> ('w rt, unit) proc" where
  "dyn_unfill self ops at owned i =
     (case elem_drop ops of
        None \<Rightarrow> return ()
      | Some hook \<Rightarrow> bind (while_proc (\<lambda>j st. j < i)
          (\<lambda>j. bind get_state (\<lambda>st.
             bind (if \<not> is_owned st owned j then hook (dyn_at (dyns st self) ops (at + j)) else return ())
               (\<lambda>_. return (j + 1)))) 0) (\<lambda>_. return ()))"

definition dyn_fill ::
    "addr \<Rightarrow> 'w container_ops \<Rightarrow> int \<Rightarrow> addr \<Rightarrow> addr \<Rightarrow> int \<Rightarrow> ('w rt, bool) proc" where
  "dyn_fill self ops at src owned n =
     (case elem_clone ops of
        None \<Rightarrow> (case loke_rt_v1_checked_bytes n (elem_size ops) of
            None \<Rightarrow> return False
          | Some bytes \<Rightarrow> bind get_state (\<lambda>st.
              bind (if bytes \<noteq> 0 then memcpy (dyn_at (dyns st self) ops at) src bytes else return ()) (\<lambda>_. return True)))
      | Some hook \<Rightarrow>
          bind (while_proc (\<lambda>(i, ok) st. ok \<and> i < n) (\<lambda>(i, ok). dyn_fill_step hook self ops at src owned i) (0, True))
            (\<lambda>(i, ok). if ok then return True else bind (dyn_unfill self ops at owned i) (\<lambda>_. return False)))"

subsection \<open>The mutating operations\<close>

definition loke_rt_v1_dyn_append_owned ::
    "'w providers \<Rightarrow> addr \<Rightarrow> 'w container_ops \<Rightarrow> addr \<Rightarrow> addr \<Rightarrow> int \<Rightarrow> ('w rt, bool) proc" where
  "loke_rt_v1_dyn_append_owned P self ops src owned n =
     (if n < 0 then loke_rt_v1_container_fault ''a container append count cannot be negative''
      else if n = 0 then return True
      else bind (loke_rt_v1_dyn_bind self) (\<lambda>_. bind get_state (\<lambda>st.
        case loke_rt_v1_checked_add (dyn_len (dyns st self)) n of
          None \<Rightarrow> return False
        | Some need \<Rightarrow> bind (dyn_regrow P self ops need False) (\<lambda>(ok, undo).
            if \<not> ok then return False
            else bind get_state (\<lambda>st.
              bind (dyn_fill self ops (dyn_len (dyns st self)) src owned n) (\<lambda>ok.
                if \<not> ok then bind (dyn_regrow_rollback P self ops undo) (\<lambda>_. return False)
                else bind (set_dyn self (\<lambda>d. d\<lparr>dyn_len := need\<rparr>)) (\<lambda>_.
                  bind (dyn_regrow_commit P self ops undo) (\<lambda>_. return True))))))))"

definition loke_rt_v1_dyn_append ::
    "'w providers \<Rightarrow> addr \<Rightarrow> 'w container_ops \<Rightarrow> addr \<Rightarrow> int \<Rightarrow> ('w rt, bool) proc" where
  "loke_rt_v1_dyn_append P self ops src n = loke_rt_v1_dyn_append_owned P self ops src 0 n"

text \<open>The byte size of the elements after the insertion point; 0 when it was never computed.\<close>

definition dyn_tail_bytes :: "int \<Rightarrow> 'w container_ops \<Rightarrow> u64" where
  "dyn_tail_bytes tail ops = (case loke_rt_v1_checked_bytes tail (elem_size ops) of Some b \<Rightarrow> b | None \<Rightarrow> 0)"

definition loke_rt_v1_dyn_insert ::
    "'w providers \<Rightarrow> addr \<Rightarrow> 'w container_ops \<Rightarrow> int \<Rightarrow> addr \<Rightarrow> int \<Rightarrow> ('w rt, bool) proc" where
  "loke_rt_v1_dyn_insert P self ops index src n = bind get_state (\<lambda>st.
     if index < 0 \<or> index > dyn_len (dyns st self) then loke_rt_v1_container_fault ''this insert index is out of range''
     else if n < 0 then loke_rt_v1_container_fault ''a container insert count cannot be negative''
     else if n = 0 then return True
     else bind (loke_rt_v1_dyn_bind self) (\<lambda>_. bind get_state (\<lambda>st.
       case loke_rt_v1_checked_add (dyn_len (dyns st self)) n of
         None \<Rightarrow> return False
       | Some need \<Rightarrow> bind (dyn_regrow P self ops need (dyn_src_aliases (dyns st self) ops src)) (\<lambda>(ok, undo).
           if \<not> ok then return False
           else bind get_state (\<lambda>st.
             let tail_bytes = dyn_tail_bytes (dyn_len (dyns st self) - index) ops in
             bind (if tail_bytes \<noteq> 0
                   then memmove (dyn_at (dyns st self) ops (index + n)) (dyn_at (dyns st self) ops index) tail_bytes
                   else return ()) (\<lambda>_.
             bind (dyn_fill self ops index src 0 n) (\<lambda>ok.
               if \<not> ok
               then bind get_state (\<lambda>st.
                 bind (if tail_bytes \<noteq> 0
                       then memmove (dyn_at (dyns st self) ops index) (dyn_at (dyns st self) ops (index + n)) tail_bytes
                       else return ()) (\<lambda>_.
                 bind (dyn_regrow_rollback P self ops undo) (\<lambda>_. return False)))
               else bind (set_dyn self (\<lambda>d. d\<lparr>dyn_len := need\<rparr>)) (\<lambda>_.
                 bind (dyn_regrow_commit P self ops undo) (\<lambda>_. return True)))))))))"

definition loke_rt_v1_dyn_pop :: "addr \<Rightarrow> 'w container_ops \<Rightarrow> addr \<Rightarrow> ('w rt, bool) proc" where
  "loke_rt_v1_dyn_pop self ops out = bind get_state (\<lambda>st.
     if dyn_len (dyns st self) = 0
     then bind (memset out 0 (elem_size ops)) (\<lambda>_. return False)
     else bind (set_dyn self (\<lambda>d. d\<lparr>dyn_len := dyn_len d - 1\<rparr>)) (\<lambda>_. bind get_state (\<lambda>st.
       bind (memcpy out (dyn_at (dyns st self) ops (dyn_len (dyns st self))) (elem_size ops)) (\<lambda>_. return True))))"

definition loke_rt_v1_dyn_remove :: "addr \<Rightarrow> 'w container_ops \<Rightarrow> int \<Rightarrow> addr \<Rightarrow> bool \<Rightarrow> ('w rt, unit) proc" where
  "loke_rt_v1_dyn_remove self ops index out unordered = bind get_state (\<lambda>st.
     if index < 0 \<or> index \<ge> dyn_len (dyns st self)
     then loke_rt_v1_container_fault ''this removal index is out of range''
     else bind (memcpy out (dyn_at (dyns st self) ops index) (elem_size ops)) (\<lambda>_.
       bind (set_dyn self (\<lambda>d. d\<lparr>dyn_len := dyn_len d - 1\<rparr>)) (\<lambda>_. bind get_state (\<lambda>st.
         let d = dyns st self in
         if index = dyn_len d then return ()
         else if unordered then memcpy (dyn_at d ops index) (dyn_at d ops (dyn_len d)) (elem_size ops)
         else (case loke_rt_v1_checked_bytes (dyn_len d - index) (elem_size ops) of
             Some tail_bytes \<Rightarrow> if tail_bytes \<noteq> 0
               then memmove (dyn_at d ops index) (dyn_at d ops (index + 1)) tail_bytes else return ()
           | None \<Rightarrow> return ())))))"

definition dyn_truncate :: "addr \<Rightarrow> 'w container_ops \<Rightarrow> int \<Rightarrow> ('w rt, unit) proc" where
  "dyn_truncate self ops new_len =
     (case elem_drop ops of
        None \<Rightarrow> set_dyn self (\<lambda>d. d\<lparr>dyn_len := new_len\<rparr>)
      | Some hook \<Rightarrow> dyn_drop_down_to self ops hook new_len)"

definition loke_rt_v1_dyn_clear :: "addr \<Rightarrow> 'w container_ops \<Rightarrow> ('w rt, unit) proc" where
  "loke_rt_v1_dyn_clear self ops = dyn_truncate self ops 0"

definition loke_rt_v1_dyn_resize :: "'w providers \<Rightarrow> addr \<Rightarrow> 'w container_ops \<Rightarrow> int \<Rightarrow> ('w rt, bool) proc" where
  "loke_rt_v1_dyn_resize P self ops new_len = bind get_state (\<lambda>st.
     if new_len < 0 then loke_rt_v1_container_fault ''a container length cannot be negative''
     else if new_len < dyn_len (dyns st self) then bind (dyn_truncate self ops new_len) (\<lambda>_. return True)
     else if new_len = dyn_len (dyns st self) then return True
     else bind (loke_rt_v1_dyn_bind self) (\<lambda>_. bind (loke_rt_v1_dyn_reserve P self ops new_len) (\<lambda>ok.
       if \<not> ok then return False
       else bind get_state (\<lambda>st.
         let d = dyns st self in
         bind (case loke_rt_v1_checked_bytes (new_len - dyn_len d) (elem_size ops) of
             Some bytes \<Rightarrow> if bytes \<noteq> 0 then memset (dyn_at d ops (dyn_len d)) 0 bytes else return ()
           | None \<Rightarrow> return ()) (\<lambda>_.
         bind (set_dyn self (\<lambda>d. d\<lparr>dyn_len := new_len\<rparr>)) (\<lambda>_. return True))))))"

definition loke_rt_v1_dyn_shrink :: "'w providers \<Rightarrow> addr \<Rightarrow> 'w container_ops \<Rightarrow> int \<Rightarrow> ('w rt, bool) proc" where
  "loke_rt_v1_dyn_shrink P self ops min_capacity = bind get_state (\<lambda>st.
     let d = dyns st self; target = (if dyn_len d < min_capacity then min_capacity else dyn_len d) in
     if min_capacity < 0 then loke_rt_v1_container_fault ''a container capacity cannot be negative''
     else if target \<ge> dyn_cap d then return True
     else (case loke_rt_v1_checked_bytes (dyn_cap d) (elem_size ops) of
         None \<Rightarrow> return False
       | Some old_bytes \<Rightarrow> (case loke_rt_v1_checked_bytes target (elem_size ops) of
           None \<Rightarrow> return False
         | Some new_bytes \<Rightarrow>
             if new_bytes = 0
             then bind (if dyn_data d \<noteq> 0
                        then loke_rt_v1_free P (dyn_allocator d) (dyn_data d) old_bytes (sane_container_align (elem_align ops))
                        else return ()) (\<lambda>_.
               bind (set_dyn self (\<lambda>d. d\<lparr>dyn_data := 0, dyn_cap := target\<rparr>)) (\<lambda>_. return True))
             else bind (loke_rt_v1_resize P (dyn_allocator d) (dyn_data d) old_bytes new_bytes
                          (sane_container_align (elem_align ops))) (\<lambda>storage.
               if storage = 0 then return False
               else bind (set_dyn self (\<lambda>d. d\<lparr>dyn_data := storage, dyn_cap := target\<rparr>)) (\<lambda>_. return True)))))"

end
