(* ===== verification/Loke_Arena.thy ===== *)
theory Loke_Arena
  imports Loke_Alloc
begin

text \<open>
  \<^verbatim>\<open>runtime/arena.c\<close>: local allocator regions, a bump pointer over a chain of blocks.  The
  address arithmetic is that of \<^verbatim>\<open>uint64_t\<close>, so every overflow guard of the source is a guard
  here.  An arena calls the dispatch of \<open>Loke_Alloc\<close> for its parent and is itself reached
  through it; \<open>providers\<close> resolves that recursion by the depth of the chain of parents.
\<close>

section \<open>Definitions\<close>

definition ARENA_DEFAULT_BLOCK :: u64 where
  "ARENA_DEFAULT_BLOCK = 4096"

definition ARENA_CONTROL_ALIGN :: u64 where
  "ARENA_CONTROL_ALIGN = 16"

definition SIZEOF_ARENA :: u64 where
  "SIZEOF_ARENA = 80"

definition SIZEOF_BLOCK :: u64 where
  "SIZEOF_BLOCK = 32"

definition arena_align :: "u64 \<Rightarrow> u64" where
  "arena_align align = (if align = 0 then 1 else align)"

definition arena_round_up :: "u64 \<Rightarrow> u64 \<Rightarrow> u64" where
  "arena_round_up v align =
     (let slack = v + (align - 1) in if slack < v then 0 else slack AND NOT (align - 1))"

definition arena_block_bytes :: "addr \<Rightarrow> addr" where
  "arena_block_bytes block = block + SIZEOF_BLOCK"

definition set_block :: "addr \<Rightarrow> (arena_block_v1 \<Rightarrow> arena_block_v1) \<Rightarrow> ('w rt, unit) proc" where
  "set_block b f = modify (\<lambda>st. st\<lparr>blocks := (blocks st)(b := f (blocks st b))\<rparr>)"

definition set_arena :: "addr \<Rightarrow> (arena_v1 \<Rightarrow> arena_v1) \<Rightarrow> ('w rt, unit) proc" where
  "set_arena a f = modify (\<lambda>st. st\<lparr>arenas := (arenas st)(a := f (arenas st a))\<rparr>)"

definition arena_bump :: "addr \<Rightarrow> u64 \<Rightarrow> u64 \<Rightarrow> ('w rt, addr) proc" where
  "arena_bump block sz align = bind get_state (\<lambda>st.
     let base = arena_block_bytes block;
         at = arena_round_up (base + block_used (blocks st block)) align
     in if at = 0 then return 0
        else let fin = at + sz in
          if fin < at \<or> fin > base + block_usable (blocks st block) then return 0
          else bind (set_block block (block_used_update (\<lambda>_. fin - base))) (\<lambda>_. return at))"

definition loke_rt_v1_arena_min_buffer :: u64 where
  "loke_rt_v1_arena_min_buffer = SIZEOF_ARENA + SIZEOF_BLOCK + ARENA_CONTROL_ALIGN"

definition arena_place :: "addr \<Rightarrow> u64 \<Rightarrow> addr \<Rightarrow> u64 \<Rightarrow> ('w rt, addr) proc" where
  "arena_place storage sz parent bytes =
     (let base = storage; control_at = arena_round_up base ARENA_CONTROL_ALIGN in
      if control_at = 0 \<or> control_at < base then return 0
      else let header_at = arena_round_up (control_at + SIZEOF_ARENA) ARENA_CONTROL_ALIGN in
      if header_at = 0 then return 0
      else let usable_at = header_at + SIZEOF_BLOCK in
      if usable_at < header_at \<or> usable_at > base + sz then return 0
      else
        bind (set_block header_at (\<lambda>_.
          \<lparr>next_block = 0, block_usable = base + sz - usable_at, block_used = 0, block_owned = 0\<rparr>)) (\<lambda>_.
        bind (modify (\<lambda>st. st\<lparr>allocators := (allocators st)(control_at :=
          \<lparr>abi_version = LOKE_RT_ABI_VERSION, record_size = SIZEOF_ALLOCATOR, al_state = control_at,
           region_id = control_at, al_ops = No_ops, on_failure = LOKE_RT_ON_FAILURE_PANIC, reserved = 0\<rparr>)\<rparr>)) (\<lambda>_.
        bind (set_arena control_at (\<lambda>_.
          \<lparr>arena_parent = parent, arena_blocks = header_at, arena_first = header_at,
           block_bytes = bytes, control_bytes = sz\<rparr>)) (\<lambda>_.
        return control_at))))"

text \<open>One step of the loop over the chain: the block is given back when the arena owns it.\<close>

definition release_block :: "'w providers \<Rightarrow> addr \<Rightarrow> addr \<Rightarrow> ('w rt, addr) proc" where
  "release_block P arena block = bind get_state (\<lambda>st.
     let b = blocks st block in
     bind (if block_owned b \<noteq> 0 \<and> arena_parent (arenas st arena) \<noteq> 0
           then loke_rt_v1_free P (arena_parent (arenas st arena)) block (SIZEOF_BLOCK + block_usable b) ARENA_CONTROL_ALIGN
           else return ())
       (\<lambda>_. return (next_block b)))"

definition arena_release_blocks :: "'w providers \<Rightarrow> addr \<Rightarrow> bool \<Rightarrow> ('w rt, unit) proc" where
  "arena_release_blocks P arena keep_first = bind get_state (\<lambda>st.
     bind (while_proc (\<lambda>block st. block \<noteq> 0) (release_block P arena) (arena_blocks (arenas st arena))) (\<lambda>_.
     bind (set_arena arena (\<lambda>a. a\<lparr>arena_blocks := (if keep_first then arena_first a else 0)\<rparr>)) (\<lambda>_.
     if keep_first
     then bind get_state (\<lambda>st. set_block (arena_first (arenas st arena)) (\<lambda>b. b\<lparr>next_block := 0, block_used := 0\<rparr>))
     else return ())))"

function arena_want :: "u64 \<Rightarrow> u64 \<Rightarrow> u64 option" where
  "arena_want want needed =
     (if want < needed
      then let doubled = want * 2 in if doubled \<le> want then None else arena_want doubled needed
      else Some want)"
  by pat_completeness auto
termination
  by (relation "measure (\<lambda>(want, needed). 2 ^ 64 - unat want)")
    (auto simp: word_less_nat_alt word_le_nat_alt intro!: diff_less_mono2 less_le_trans [OF _ less_imp_le, OF _ unat_u64_lt, simplified])

declare arena_want.simps [simp del]

definition arena_grow :: "'w providers \<Rightarrow> addr \<Rightarrow> u64 \<Rightarrow> u64 \<Rightarrow> ('w rt, bool) proc" where
  "arena_grow P arena sz align = bind get_state (\<lambda>st.
     let needed = sz + align + SIZEOF_BLOCK in
     if arena_parent (arenas st arena) = 0 then return False
     else if needed < sz then return False
     else (case arena_want (block_bytes (arenas st arena)) needed of
       None \<Rightarrow> return False
     | Some want \<Rightarrow>
       bind (loke_rt_v1_alloc P (arena_parent (arenas st arena)) want ARENA_CONTROL_ALIGN) (\<lambda>storage.
         if storage = 0 then return False
         else bind get_state (\<lambda>st.
           bind (set_block storage (\<lambda>_.
             \<lparr>next_block = arena_blocks (arenas st arena), block_usable = want - SIZEOF_BLOCK,
              block_used = 0, block_owned = 1\<rparr>)) (\<lambda>_.
           bind (set_arena arena (\<lambda>a. a\<lparr>arena_blocks := storage, block_bytes := want\<rparr>)) (\<lambda>_.
           return True))))))"

definition arena_alloc :: "'w providers \<Rightarrow> addr \<Rightarrow> u64 \<Rightarrow> u64 \<Rightarrow> ('w rt, addr) proc" where
  "arena_alloc P state sz align =
     (if state = 0 then return 0
      else if sz = 0 then return 0
      else let align = arena_align align in
        bind get_state (\<lambda>st. bind (arena_bump (arena_blocks (arenas st state)) sz align) (\<lambda>out.
          if out \<noteq> 0 then return out
          else bind (arena_grow P state sz align) (\<lambda>ok.
            if \<not> ok then return 0
            else bind get_state (\<lambda>st. arena_bump (arena_blocks (arenas st state)) sz align)))))"

definition arena_is_top :: "'w rt \<Rightarrow> addr \<Rightarrow> addr \<Rightarrow> u64 \<Rightarrow> bool" where
  "arena_is_top st arena ptr old_size =
     (let top = arena_blocks (arenas st arena) in
      if ptr = 0 \<or> top = 0 then False
      else ptr + old_size = arena_block_bytes top + block_used (blocks st top))"

text \<open>The part of a resize after the in-place attempt.\<close>

definition arena_move :: "'w providers \<Rightarrow> addr \<Rightarrow> addr \<Rightarrow> u64 \<Rightarrow> u64 \<Rightarrow> u64 \<Rightarrow> ('w rt, addr) proc" where
  "arena_move P state ptr old_size new_size align =
     (if new_size \<le> old_size then return ptr
      else bind (arena_alloc P state new_size align) (\<lambda>out.
        if out = 0 then return 0
        else bind (memcpy out ptr (if old_size < new_size then old_size else new_size)) (\<lambda>_. return out)))"

definition arena_resize :: "'w providers \<Rightarrow> addr \<Rightarrow> addr \<Rightarrow> u64 \<Rightarrow> u64 \<Rightarrow> u64 \<Rightarrow> ('w rt, addr) proc" where
  "arena_resize P state ptr old_size new_size align =
     (if state = 0 \<or> new_size = 0 then return 0
      else if ptr = 0 then arena_alloc P state new_size align
      else bind get_state (\<lambda>st.
        let top = arena_blocks (arenas st state); base = arena_block_bytes top; fin = ptr + new_size in
        if arena_is_top st state ptr old_size \<and> fin \<ge> ptr \<and> fin \<le> base + block_usable (blocks st top)
        then bind (set_block top (block_used_update (\<lambda>_. fin - base))) (\<lambda>_. return ptr)
        else arena_move P state ptr old_size new_size align))"

definition arena_free :: "addr \<Rightarrow> addr \<Rightarrow> u64 \<Rightarrow> u64 \<Rightarrow> ('w rt, unit) proc" where
  "arena_free state ptr sz align =
     (if state = 0 \<or> ptr = 0 then return ()
      else bind get_state (\<lambda>st.
        if arena_is_top st state ptr sz
        then set_block (arena_blocks (arenas st state)) (block_used_update (\<lambda>used. used - sz))
        else return ()))"

definition arena_reset :: "'w providers \<Rightarrow> addr \<Rightarrow> ('w rt, int) proc" where
  "arena_reset P state =
     (if state = 0 then return 0 else bind (arena_release_blocks P state True) (\<lambda>_. return 1))"

definition loke_rt_arena_ops :: "'w providers \<Rightarrow> 'w callbacks" where
  "loke_rt_arena_ops P =
     \<lparr>cb_alloc = arena_alloc P, cb_resize = arena_resize P, cb_free = arena_free, cb_reset = arena_reset P\<rparr>"

subsection \<open>The empty region\<close>

definition empty_alloc :: "addr \<Rightarrow> u64 \<Rightarrow> u64 \<Rightarrow> ('w rt, addr) proc" where
  "empty_alloc state sz align = return 0"

definition empty_resize :: "addr \<Rightarrow> addr \<Rightarrow> u64 \<Rightarrow> u64 \<Rightarrow> u64 \<Rightarrow> ('w rt, addr) proc" where
  "empty_resize state ptr old_size new_size align = return 0"

definition empty_free :: "addr \<Rightarrow> addr \<Rightarrow> u64 \<Rightarrow> u64 \<Rightarrow> ('w rt, unit) proc" where
  "empty_free state ptr sz align = return ()"

definition empty_reset :: "addr \<Rightarrow> ('w rt, int) proc" where
  "empty_reset state = return 1"

definition loke_rt_empty_ops :: "'w callbacks" where
  "loke_rt_empty_ops =
     \<lparr>cb_alloc = empty_alloc, cb_resize = empty_resize, cb_free = empty_free, cb_reset = empty_reset\<rparr>"

definition loke_rt_empty_region :: "addr \<Rightarrow> allocator_v1" where
  "loke_rt_empty_region self =
     \<lparr>abi_version = LOKE_RT_ABI_VERSION, record_size = SIZEOF_ALLOCATOR, al_state = 0, region_id = self,
      al_ops = Empty_ops, on_failure = LOKE_RT_ON_FAILURE_PANIC, reserved = 0\<rparr>"

subsection \<open>Opening, closing and naming an arena\<close>

definition loke_rt_v1_arena_open :: "'w providers \<Rightarrow> addr \<Rightarrow> ('w rt, addr) proc" where
  "loke_rt_v1_arena_open P parent =
     bind (if parent = 0 then loke_rt_v1_selected_allocator else return parent) (\<lambda>parent.
     bind (loke_rt_v1_alloc P parent ARENA_DEFAULT_BLOCK ARENA_CONTROL_ALIGN) (\<lambda>storage.
       if storage = 0 then return 0
       else bind (arena_place storage ARENA_DEFAULT_BLOCK parent ARENA_DEFAULT_BLOCK) (\<lambda>arena.
         if arena = 0
         then bind (loke_rt_v1_free P parent storage ARENA_DEFAULT_BLOCK ARENA_CONTROL_ALIGN) (\<lambda>_. return 0)
         else bind (modify (\<lambda>st. st\<lparr>allocators := (allocators st)(arena := (allocators st arena)\<lparr>al_ops := Arena_ops\<rparr>)\<rparr>))
           (\<lambda>_. return arena))))"

definition loke_rt_v1_arena_open_fixed :: "addr \<Rightarrow> int \<Rightarrow> ('w rt, addr) proc" where
  "loke_rt_v1_arena_open_fixed buffer sz =
     (if buffer = 0 \<or> sz < 0 \<or> word_of_int sz < loke_rt_v1_arena_min_buffer
      then stop (Panic ''this buffer is too small to host an arena'')
      else bind (arena_place buffer (word_of_int sz) 0 0) (\<lambda>arena.
        if arena = 0 then stop (Panic ''this buffer is too small to host an arena'')
        else bind (modify (\<lambda>st. st\<lparr>allocators := (allocators st)(arena := (allocators st arena)\<lparr>al_ops := Arena_ops\<rparr>)\<rparr>))
          (\<lambda>_. return arena)))"

definition loke_rt_v1_arena_set_failure :: "addr \<Rightarrow> int \<Rightarrow> ('w rt, unit) proc" where
  "loke_rt_v1_arena_set_failure arena policy =
     (if arena \<noteq> 0
      then modify (\<lambda>st. st\<lparr>allocators := (allocators st)(arena := (allocators st arena)\<lparr>on_failure := word_of_int policy\<rparr>)\<rparr>)
      else return ())"

definition loke_rt_v1_arena_drop :: "'w providers \<Rightarrow> addr \<Rightarrow> ('w rt, unit) proc" where
  "loke_rt_v1_arena_drop P arena =
     (if arena = 0 then return ()
      else bind get_state (\<lambda>st.
        let parent = arena_parent (arenas st arena) in
        bind (arena_release_blocks P arena False) (\<lambda>_.
          if parent \<noteq> 0
          then bind get_state (\<lambda>st.
            loke_rt_v1_free P parent arena (control_bytes (arenas st arena)) ARENA_CONTROL_ALIGN)
          else return ())))"

definition loke_rt_v1_arena_allocator :: "'w host \<Rightarrow> addr \<Rightarrow> addr" where
  "loke_rt_v1_arena_allocator H arena = (if arena = 0 then empty_region H else arena)"

subsection \<open>The tables of callbacks\<close>

text \<open>\<open>providers H n\<close> follows at most \<open>n\<close> parents; a longer chain is a fault, and the theorems
  that use it say how long the chain is.\<close>

definition no_callbacks :: "'w callbacks" where
  "no_callbacks =
     \<lparr>cb_alloc = (\<lambda>_ _ _. stop Diverge), cb_resize = (\<lambda>_ _ _ _ _. stop Diverge),
      cb_free = (\<lambda>_ _ _ _. stop Diverge), cb_reset = (\<lambda>_. stop Diverge)\<rparr>"

fun providers :: "'w host \<Rightarrow> nat \<Rightarrow> 'w providers" where
  "providers H n No_ops = no_callbacks"
| "providers H n System_ops = loke_rt_system_ops H"
| "providers H n Empty_ops = loke_rt_empty_ops"
| "providers H n (Program_ops k) = program_ops H k"
| "providers H 0 Arena_ops = loke_rt_arena_ops (\<lambda>_. no_callbacks)"
| "providers H (Suc n) Arena_ops = loke_rt_arena_ops (providers H n)"

subsection \<open>Program start\<close>

text \<open>The static objects before \<^verbatim>\<open>main\<close>: the two static records at the addresses the linker gave
  them, the fallback provider selected, nothing refused, and the first value of the map seed
  counter.  Every other struct is zero.\<close>

definition initial_rt :: "'w host \<Rightarrow> 'w \<Rightarrow> 'w rt" where
  "initial_rt H w =
     \<lparr>mem = (\<lambda>_. 0),
      allocators = (\<lambda>_. \<lparr>abi_version = 0, record_size = 0, al_state = 0, region_id = 0, al_ops = No_ops, on_failure = 0, reserved = 0\<rparr>)
        (default_allocator H := loke_rt_v1_default_allocator,
         empty_region H := loke_rt_empty_region (empty_region H)),
      arenas = (\<lambda>_. \<lparr>arena_parent = 0, arena_blocks = 0, arena_first = 0, block_bytes = 0, control_bytes = 0\<rparr>),
      blocks = (\<lambda>_. \<lparr>next_block = 0, block_usable = 0, block_used = 0, block_owned = 0\<rparr>),
      dyns = (\<lambda>_. \<lparr>dyn_data = 0, dyn_len = 0, dyn_cap = 0, dyn_allocator = 0\<rparr>),
      maps = (\<lambda>_. \<lparr>map_table = 0, map_len = 0, map_cap = 0, map_allocator = 0\<rparr>),
      tables = (\<lambda>_. \<lparr>slot_count = 0, occupied = 0, tombstones = 0, seed = 0, controls_offset = 0, keys_offset = 0,
                 values_offset = 0, block_size = 0, block_align = 0\<rparr>),
      selected = default_allocator H, init_phase = Init_idle, refused_by = 0, refused_size = 0,
      seed_counter = 0x9e3779b97f4a7c15, world = w\<rparr>"

end
