(* ===== verification/Loke_Region.thy ===== *)
theory Loke_Region
  imports Loke_Arena
begin

text \<open>
  What a provider promises, and that the arena keeps the promise.  The locale \<open>provider\<close> states
  the contract of \<^verbatim>\<open>loke_rt_allocator_ops_v1\<close> as seen through the dispatch of one handle, over
  the set of live allocations; \<open>region_provider\<close> adds \<^verbatim>\<open>free_all\<close>.  The containers are verified
  against \<open>provider\<close>.  The fixed-buffer arena is an interpretation, so every law holds of the
  arena code with nothing assumed but the arena's own invariant, which opening establishes.
\<close>

section \<open>Rounding to an alignment\<close>

lemma unat_and_not_mask: "unat (w AND NOT (2 ^ k - 1)) = unat w div 2 ^ k * 2 ^ k" for w :: u64
proof -
  have "w AND NOT (mask k) = push_bit k (drop_bit k w)"
    by (rule bit_word_eqI) (auto simp: bit_simps)
  moreover have "unat (push_bit k (drop_bit k w)) = unat w div 2 ^ k * 2 ^ k"
  proof -
    have "unat w div 2 ^ k * 2 ^ k < 2 ^ 64"
      using unat_u64_lt [of w] div_times_less_eq_dividend [of "unat w" "2 ^ k"] by linarith
    then show ?thesis
      using unat_u64_lt [of w] unfolding unsigned_push_bit_eq unsigned_drop_bit_eq
      by (simp add: drop_bit_eq_div push_bit_eq_mult take_bit_eq_mod)
  qed
  ultimately show ?thesis by (simp add: mask_eq_exp_minus_1)
qed

definition pow2 :: "u64 \<Rightarrow> bool" where
  "pow2 a \<longleftrightarrow> (\<exists>k < 64. a = 2 ^ k)"

lemma unat_pow2: "k < 64 \<Longrightarrow> unat (2 ^ k :: u64) = 2 ^ k"
  using unat_of_nat_u64 [of "2 ^ k"] power_strict_increasing [of k 64 "2 :: nat"] by simp

lemma pow2_pos: "pow2 a \<Longrightarrow> 0 < unat a"
  by (auto simp: pow2_def unat_pow2)

lemma arena_round_up_eq:
  assumes "pow2 align"
  shows "if unat v + unat align - 1 < 2 ^ 64
    then unat (arena_round_up v align) = (unat v + unat align - 1) div unat align * unat align
    else arena_round_up v align = 0"
proof -
  obtain k where k: "k < 64" "align = 2 ^ k" using assms by (auto simp: pow2_def)
  have ua: "unat align = 2 ^ k" using k by (simp add: unat_pow2)
  then have pos: "0 < unat align" by simp
  have pred: "unat (align - 1) = unat align - 1" using pos by (rule unat_pred)
  let ?s = "v + (align - 1)"
  show ?thesis
  proof (cases "unat v + unat align - 1 < 2 ^ 64")
    case True
    then have s: "unat ?s = unat v + unat align - 1"
      using pos by (subst unat_plus_exact) (simp_all add: pred)
    then have "\<not> ?s < v" using pos by (simp add: word_less_nat_alt)
    with True s show ?thesis
      by (simp add: arena_round_up_def Let_def k(2) unat_and_not_mask) (simp add: ua [unfolded k(2)])
  next
    case False
    then have "unat ?s = unat v + unat align - 1 - 2 ^ 64"
      using pos unat_u64_lt [of v] unat_u64_lt [of align]
      by (subst unat_word_ariths(1)) (simp add: pred mod_if)
    then have "?s < v" using pos unat_u64_lt [of align] False by (simp add: word_less_nat_alt)
    with False show ?thesis by (simp add: arena_round_up_def)
  qed
qed

lemma arena_round_up_nonzero:
  assumes "pow2 align" and "arena_round_up v align \<noteq> 0"
  shows "unat v \<le> unat (arena_round_up v align)" and "unat (arena_round_up v align) < unat v + unat align"
    and "unat align dvd unat (arena_round_up v align)"
proof -
  have pos: "0 < unat align" using assms(1) by (rule pow2_pos)
  have "unat (arena_round_up v align) = (unat v + unat align - 1) div unat align * unat align"
    using arena_round_up_eq [OF assms(1), of v] assms(2) by (auto split: if_splits)
  with round_up_multiple [OF pos, of "unat v"]
  show "unat v \<le> unat (arena_round_up v align)" and "unat (arena_round_up v align) < unat v + unat align"
    and "unat align dvd unat (arena_round_up v align)" by simp_all
qed


section \<open>One block\<close>

definition block_ok :: "addr \<Rightarrow> arena_block_v1 \<Rightarrow> bool" where
  "block_ok b h \<longleftrightarrow> b \<noteq> 0 \<and> unat b + 32 + unat (block_usable h) < 2 ^ 64 \<and> block_used h \<le> block_usable h"

lemma block_base: "block_ok b h \<Longrightarrow> unat (arena_block_bytes b) = unat b + 32"
  by (auto simp: block_ok_def arena_block_bytes_def SIZEOF_BLOCK_def unat_plus_exact)

lemma block_top:
  assumes "block_ok b h"
  shows "unat (arena_block_bytes b + block_used h) = unat b + 32 + unat (block_used h)"
    and "unat (arena_block_bytes b + block_usable h) = unat b + 32 + unat (block_usable h)"
    and "unat (block_used h) \<le> unat (block_usable h)"
  using assms block_base [OF assms]
  by (auto simp: block_ok_def unat_plus_exact word_le_nat_alt)

text \<open>What a bump does: either nothing, or it hands out an aligned range between the old top of
  the block and its limit and moves the top to the end of that range.\<close>

lemma arena_bump_cases:
  assumes "block_ok b (blocks st b)" and "pow2 align" and "arena_bump b sz align st = (r, st')"
  obtains (full) "r = Inr 0" and "st' = st"
    and "unat b + 32 + unat (block_usable (blocks st b)) + 1 <
         unat b + 32 + unat (block_used (blocks st b)) + unat align + unat sz"
  | (placed) p where "r = Inr p" and "p \<noteq> 0" and "unat align dvd unat p"
      and "unat b + 32 + unat (block_used (blocks st b)) \<le> unat p"
      and "unat p + unat sz \<le> unat b + 32 + unat (block_usable (blocks st b))"
      and "st' = st\<lparr>blocks := (blocks st)(b := (blocks st b)\<lparr>block_used := p + sz - arena_block_bytes b\<rparr>)\<rparr>"
      and "unat (p + sz - arena_block_bytes b) = unat p + unat sz - (unat b + 32)"
proof -
  let ?h = "blocks st b" and ?base = "arena_block_bytes b"
  let ?at = "arena_round_up (?base + block_used ?h) align"
  note top = block_top [OF assms(1)] and base = block_base [OF assms(1)]
  have lim: "unat b + 32 + unat (block_usable ?h) < 2 ^ 64" using assms(1) by (simp add: block_ok_def)
  show thesis
  proof (cases "?at = 0")
    case True
    then have "\<not> unat (?base + block_used ?h) + unat align - 1 < 2 ^ 64"
      using arena_round_up_eq [OF assms(2), of "?base + block_used ?h"] pow2_pos [OF assms(2)]
        round_up_multiple(1) [OF pow2_pos [OF assms(2)], of "unat (?base + block_used ?h)"] top(1)
      by (auto split: if_splits)
    then show thesis
      using True assms(3) lim top(1) by (intro full) (auto simp: arena_bump_def rt_simps Let_def)
  next
    case False
    note at = arena_round_up_nonzero [OF assms(2) False]
    show thesis
    proof (cases "unat ?at + unat sz \<le> unat b + 32 + unat (block_usable ?h)")
      case fits: True
      then have fin: "unat (?at + sz) = unat ?at + unat sz" using lim by (simp add: unat_plus_exact)
      then have "\<not> (?at + sz < ?at \<or> ?at + sz > ?base + block_usable ?h)"
        using fits top(2) by (simp add: word_less_nat_alt)
      then have "r = Inr ?at" and "st' = st\<lparr>blocks := (blocks st)(b := ?h\<lparr>block_used := ?at + sz - ?base\<rparr>)\<rparr>"
        using assms(3) False by (auto simp: arena_bump_def rt_simps Let_def set_block_def)
      moreover have "unat (?at + sz - ?base) = unat ?at + unat sz - (unat b + 32)"
        using at(1) top(1) fin base by (subst unat_minus_exact) simp_all
      ultimately show thesis
        using False at fits top(1) by (intro placed) auto
    next
      case big: False
      have "?at + sz < ?at \<or> ?at + sz > ?base + block_usable ?h"
        using big top(2) plus_no_wrap [of ?at sz]
        by (cases "unat ?at + unat sz < 2 ^ 64") (simp_all add: word_less_nat_alt unat_plus_exact not_le)
      then have "r = Inr 0" "st' = st"
        using assms(3) False by (auto simp: arena_bump_def rt_simps Let_def)
      then show thesis using big at(2) top(1) by (intro full) auto
    qed
  qed
qed


section \<open>The contract of a provider\<close>

text \<open>A live allocation is its address and its length.  \<open>untouched A\<close> says that the memory and
  the structs at the addresses of \<open>A\<close>, and the runtime's own variables, are as before.\<close>

type_synonym live = "(addr \<times> nat) set"

definition spans :: "live \<Rightarrow> addr set" where
  "spans L = (\<Union>(p, n) \<in> L. span p n)"

definition agree :: "addr set \<Rightarrow> 'w rt \<Rightarrow> 'w rt \<Rightarrow> bool" where
  "agree A st st' \<longleftrightarrow>
     (\<forall>x \<in> A. mem st' x = mem st x \<and> allocators st' x = allocators st x \<and> arenas st' x = arenas st x \<and>
        blocks st' x = blocks st x \<and> dyns st' x = dyns st x \<and> maps st' x = maps st x \<and> tables st' x = tables st x)"

definition untouched :: "addr set \<Rightarrow> 'w rt \<Rightarrow> 'w rt \<Rightarrow> bool" where
  "untouched A st st' \<longleftrightarrow> agree A st st' \<and>
     selected st' = selected st \<and> seed_counter st' = seed_counter st \<and> init_phase st' = init_phase st"

definition block_in :: "live \<Rightarrow> addr set \<Rightarrow> addr \<Rightarrow> nat \<Rightarrow> bool" where
  "block_in L region p n \<longleftrightarrow> p \<noteq> 0 \<and> 0 < n \<and> unat p + n < 2 ^ 64 \<and> span p n \<subseteq> region \<and> span p n \<inter> spans L = {}"

locale provider =
  fixes P :: "'w providers" and h :: addr and territory :: "addr set" and inv :: "live \<Rightarrow> 'w rt \<Rightarrow> bool"
  assumes handle: "inv L st \<Longrightarrow> h \<noteq> 0"
    and live_inside: "inv L st \<Longrightarrow> (p, n) \<in> L \<Longrightarrow> block_in (L - {(p, n)}) territory p n"
    and stable: "inv L st \<Longrightarrow> agree (territory - spans L) st st' \<Longrightarrow> inv L st'"
    and alloc_law: "inv L st \<Longrightarrow> 0 < sz \<Longrightarrow> pow2 align \<Longrightarrow>
      \<exists>p st'. loke_rt_v1_alloc P h sz align st = (Inr p, st') \<and> untouched (- territory \<union> spans L) st st' \<and>
        (if p = 0 then inv L st'
         else inv (insert (p, unat sz) L) st' \<and> (p, unat sz) \<notin> L \<and> unat align dvd unat p)"
    and resize_law: "inv L st \<Longrightarrow> 0 < new \<Longrightarrow> pow2 align \<Longrightarrow> p = 0 \<and> old = 0 \<or> (p, unat old) \<in> L \<Longrightarrow>
      \<exists>q st'. loke_rt_v1_resize P h p old new align st = (Inr q, st') \<and>
        (if q = 0 then inv L st' \<and> untouched (- territory \<union> spans L) st st'
         else inv (insert (q, unat new) (L - {(p, unat old)})) st' \<and>
           untouched (- territory \<union> spans (L - {(p, unat old)})) st st' \<and> (q, unat new) \<notin> L - {(p, unat old)} \<and>
           load (mem st') q (min (unat old) (unat new)) = load (mem st) p (min (unat old) (unat new)))"
    and free_law: "inv L st \<Longrightarrow> (p, unat sz) \<in> L \<Longrightarrow>
      \<exists>st'. loke_rt_v1_free P h p sz align st = (Inr (), st') \<and> inv (L - {(p, unat sz)}) st' \<and>
        untouched (- territory \<union> spans (L - {(p, unat sz)})) st st'"

locale region_provider = provider +
  assumes reset_law: "inv L st \<Longrightarrow> \<exists>st'. loke_rt_v1_reset P h st = (Inr (), st') \<and> inv {} st' \<and>
    untouched (- territory) st st'"

section \<open>A fixed-buffer arena is a region provider\<close>

definition handle_ok :: "addr \<Rightarrow> 'w rt \<Rightarrow> bool" where
  "handle_ok a st \<longleftrightarrow> (let r = allocators st a in
     abi_version r = LOKE_RT_ABI_VERSION \<and> SIZEOF_ALLOCATOR \<le> record_size r \<and> al_state r = a \<and> al_ops r = Arena_ops)"

definition within :: "addr \<Rightarrow> nat \<Rightarrow> addr \<Rightarrow> nat \<Rightarrow> bool" where
  "within lo used p n \<longleftrightarrow> 0 < n \<and> unat lo \<le> unat p \<and> unat p + n \<le> unat lo + used"

definition apart :: "addr \<times> nat \<Rightarrow> addr \<times> nat \<Rightarrow> bool" where
  "apart x y \<longleftrightarrow> unat (fst x) + snd x \<le> unat (fst y) \<or> unat (fst y) + snd y \<le> unat (fst x)"

definition fixed_inv :: "addr \<Rightarrow> addr \<Rightarrow> u64 \<Rightarrow> live \<Rightarrow> 'w rt \<Rightarrow> bool" where
  "fixed_inv a b n L st \<longleftrightarrow>
     handle_ok a st \<and> a \<noteq> 0 \<and> unat a < unat b \<and> arena_parent (arenas st a) = 0 \<and> arena_blocks (arenas st a) = b \<and> arena_first (arenas st a) = b \<and>
     block_ok b (blocks st b) \<and> block_usable (blocks st b) = n \<and> next_block (blocks st b) = 0 \<and> block_owned (blocks st b) = 0 \<and>
     (\<forall>(p, k) \<in> L. within (arena_block_bytes b) (unat (block_used (blocks st b))) p k) \<and>
     (\<forall>x \<in> L. \<forall>y \<in> L. x \<noteq> y \<longrightarrow> apart x y)"

definition fixed_territory :: "addr \<Rightarrow> addr \<Rightarrow> u64 \<Rightarrow> addr set" where
  "fixed_territory a b n = {a, b} \<union> span (arena_block_bytes b) (unat n)"

lemma apart_spans:
  assumes "unat p + n \<le> 2 ^ 64" and "unat q + k \<le> 2 ^ 64" and "apart (p, n) (q, k)"
  shows "span p n \<inter> span q k = {}"
  using assms by (auto simp: span_nowrap apart_def)

lemma handle_run: "handle_ok a st \<Longrightarrow> a \<noteq> 0 \<Longrightarrow> with_provider P a f st = f a (P Arena_ops) a st"
  by (auto simp: with_provider_def resolve_def check_record_def handle_ok_def bind_def get_state_def return_def Let_def dest: leD)


lemma fixed_live:
  assumes "fixed_inv a b n L st" and "(p, k) \<in> L"
  shows "0 < k" and "unat b + 32 \<le> unat p" and "unat p + k \<le> unat b + 32 + unat (block_used (blocks st b))"
    and "unat p + k \<le> unat b + 32 + unat n" and "unat b + 32 + unat n < 2 ^ 64"
proof -
  have ok: "block_ok b (blocks st b)" and n: "block_usable (blocks st b) = n"
    and "within (arena_block_bytes b) (unat (block_used (blocks st b))) p k"
    using assms by (auto simp: fixed_inv_def)
  then show "0 < k" "unat b + 32 \<le> unat p" "unat p + k \<le> unat b + 32 + unat (block_used (blocks st b))"
      "unat p + k \<le> unat b + 32 + unat n" "unat b + 32 + unat n < 2 ^ 64"
    using block_top(3) [OF ok] by (auto simp: within_def block_base [OF ok] block_ok_def)
qed

lemma fixed_apart: "fixed_inv a b n L st \<Longrightarrow> x \<in> L \<Longrightarrow> y \<in> L \<Longrightarrow> x \<noteq> y \<Longrightarrow> apart x y"
  by (simp add: fixed_inv_def)

lemma apart_sym: "apart x y = apart y x"
  by (auto simp: apart_def)

lemma fixed_spans_payload:
  assumes "fixed_inv a b n L st"
  shows "x \<in> spans L \<Longrightarrow> unat b + 32 \<le> unat x"
  using fixed_live [OF assms] by (fastforce simp: spans_def span_nowrap)

lemma fixed_private:
  assumes "fixed_inv a b n L st"
  shows "a \<notin> spans L" and "b \<notin> spans L"
  using fixed_spans_payload [OF assms, of a] fixed_spans_payload [OF assms, of b] assms
  by (auto simp: fixed_inv_def)

lemma payload_span: "block_ok b (blocks st b) \<Longrightarrow> block_usable (blocks st b) = n \<Longrightarrow> unat b + 32 \<le> unat p \<Longrightarrow>
    unat p + k \<le> unat b + 32 + unat n \<Longrightarrow> span p k \<subseteq> span (arena_block_bytes b) (unat n)"
  using block_base [of b "blocks st b"] by (auto simp: span_nowrap block_ok_def)

lemma fixed_block_in:
  assumes "fixed_inv a b n L st" and "(p, k) \<in> L"
  shows "block_in (L - {(p, k)}) (fixed_territory a b n) p k"
proof -
  note live = fixed_live [OF assms]
  have "span p k \<inter> span q j = {}" if "(q, j) \<in> L" "(q, j) \<noteq> (p, k)" for q j
    using that assms live fixed_live [OF assms(1) that(1)] by (intro apart_spans) (auto simp: fixed_inv_def)
  moreover have "span p k \<subseteq> fixed_territory a b n"
    using payload_span [of b st n p k] live assms(1) by (auto simp: fixed_inv_def fixed_territory_def)
  ultimately show ?thesis
    using live by (auto simp: block_in_def spans_def)
qed

lemma fixed_stable:
  assumes "fixed_inv a b n L st" and "agree (fixed_territory a b n - spans L) st st'"
  shows "fixed_inv a b n L st'"
proof -
  have "agree {a, b} st st'"
    using assms(2) fixed_private [OF assms(1)] by (auto simp: agree_def fixed_territory_def)
  with assms(1) show ?thesis by (auto simp: fixed_inv_def agree_def handle_ok_def)
qed


text \<open>Changing the top of the block, and the set of live allocations with it.\<close>

definition set_used :: "addr \<Rightarrow> u64 \<Rightarrow> 'w rt \<Rightarrow> 'w rt" where
  "set_used b u st = st\<lparr>blocks := (blocks st)(b := (blocks st b)\<lparr>block_used := u\<rparr>)\<rparr>"

lemma used_update: "block_used_update f h = h\<lparr>block_used := f (block_used h)\<rparr>"
  by (cases h) simp

lemma fixed_inv_used:
  assumes "fixed_inv a b n L st" and "u \<le> n"
    and "\<And>p k. (p, k) \<in> L' \<Longrightarrow> 0 < k \<and> unat b + 32 \<le> unat p \<and> unat p + k \<le> unat b + 32 + unat u"
    and "\<And>x y. x \<in> L' \<Longrightarrow> y \<in> L' \<Longrightarrow> x \<noteq> y \<Longrightarrow> apart x y"
  shows "fixed_inv a b n L' (set_used b u st)"
proof -
  have ok: "block_ok b (blocks st b)" using assms(1) by (simp add: fixed_inv_def)
  with assms show ?thesis
    by (auto simp: fixed_inv_def set_used_def within_def block_base [OF ok] handle_ok_def block_ok_def)
qed

lemma set_used_untouched:
  "b \<notin> A \<Longrightarrow> untouched A st (set_used b u st)"
  by (auto simp: set_used_def untouched_def agree_def)

lemma fixed_inv_note [simp]:
  "fixed_inv a b n L (st\<lparr>refused_by := x, refused_size := y\<rparr>) = fixed_inv a b n L st"
  by (simp add: fixed_inv_def handle_ok_def)

lemma untouched_note [simp]:
  "untouched A st (st'\<lparr>refused_by := x, refused_size := y\<rparr>) = untouched A st st'"
  by (simp add: untouched_def agree_def)

lemma fixed_b_private: "fixed_inv a b n L st \<Longrightarrow> b \<notin> - fixed_territory a b n \<union> spans L"
  using fixed_private(2) [of a b n L st] by (simp add: fixed_territory_def)

lemma fixed_arena_alloc:
  assumes "fixed_inv a b n L st" and "0 < sz" and "pow2 align"
  obtains (full) "arena_alloc Q a sz align st = (Inr 0, st)"
  | (placed) p u where "arena_alloc Q a sz align st = (Inr p, set_used b u st)" and "p \<noteq> 0"
      and "fixed_inv a b n (insert (p, unat sz) L) (set_used b u st)" and "(p, unat sz) \<notin> L" and "unat align dvd unat p"
      and "\<And>x. x \<in> L \<Longrightarrow> apart (p, unat sz) x"
proof -
  have a: "a \<noteq> 0" "arena_blocks (arenas st a) = b" "arena_parent (arenas st a) = 0"
    and ok: "block_ok b (blocks st b)" and n: "block_usable (blocks st b) = n"
    using assms(1) by (auto simp: fixed_inv_def)
  have al: "arena_align align = align" using pow2_pos [OF assms(3)] by (auto simp: arena_align_def)
  obtain r st' where bump: "arena_bump b sz align st = (r, st')" by fastforce
  from ok assms(3) bump show thesis
  proof (cases rule: arena_bump_cases)
    case full
    then show thesis
      using a al assms(2) bump by (intro that(1)) (simp add: arena_alloc_def arena_grow_def rt_simps bind_def)
  next
    case (placed p)
    define u where "u = p + sz - arena_block_bytes b"
    have run: "arena_alloc Q a sz align st = (Inr p, set_used b u st)"
      using a al assms(2) bump placed by (simp add: arena_alloc_def rt_simps bind_def set_used_def u_def)
    have uu: "unat u = unat p + unat sz - (unat b + 32)" using placed(7) by (simp add: u_def)
    have pos: "0 < unat sz" using assms(2) by (simp add: word_less_nat_alt)
    have above: "unat q + k \<le> unat p" if "(q, k) \<in> L" for q k
      using fixed_live(3) [OF assms(1) that] placed(4) by linarith
    have new: "apart (p, unat sz) x" if "x \<in> L" for x
      using above that by (cases x) (auto simp: apart_def)
    have "fixed_inv a b n (insert (p, unat sz) L) (set_used b u st)"
    proof (rule fixed_inv_used [OF assms(1)])
      show "u \<le> n" using placed(4,5) uu n by (simp add: word_le_nat_alt)
      show "0 < k \<and> unat b + 32 \<le> unat q \<and> unat q + k \<le> unat b + 32 + unat u"
        if "(q, k) \<in> insert (p, unat sz) L" for q k
        using that fixed_live [OF assms(1), of q k] above [of q k] placed(4) uu pos by auto
      show "apart x y" if "x \<in> insert (p, unat sz) L" "y \<in> insert (p, unat sz) L" "x \<noteq> y" for x y
        using that new fixed_apart [OF assms(1)] apart_sym by (metis insertE)
    qed
    moreover have "(p, unat sz) \<notin> L" using above pos by fastforce
    ultimately show thesis using run placed new by (intro that(2)) auto
  qed
qed

lemma provider_tables: "\<exists>Q. providers H n Arena_ops = loke_rt_arena_ops Q"
  by (cases n) auto

lemma fixed_dispatch:
  assumes "fixed_inv a b n L st"
  shows "with_provider P a f st = f a (P Arena_ops) a st"
  using assms by (intro handle_run) (auto simp: fixed_inv_def)

lemma fixed_alloc_law:
  assumes inv: "fixed_inv a b n L st" and "0 < sz" and "pow2 align"
  shows "\<exists>p st'. loke_rt_v1_alloc (providers H k) a sz align st = (Inr p, st') \<and>
     untouched (- fixed_territory a b n \<union> spans L) st st' \<and>
     (if p = 0 then fixed_inv a b n L st'
      else fixed_inv a b n (insert (p, unat sz) L) st' \<and> (p, unat sz) \<notin> L \<and> unat align dvd unat p)"
proof -
  obtain Q where Q: "providers H k Arena_ops = loke_rt_arena_ops Q" using provider_tables by blast
  have run: "loke_rt_v1_alloc (providers H k) a sz align st = bind (arena_alloc Q a sz align) (note_request a sz) st"
    using assms(2) by (auto simp: loke_rt_v1_alloc_def fixed_dispatch [OF inv] Q loke_rt_arena_ops_def)
  from assms show ?thesis
  proof (cases rule: fixed_arena_alloc [where Q = Q])
    case full
    then show ?thesis using inv by (simp add: run bind_def note_request_def rt_simps) (simp add: untouched_def agree_def)
  next
    case (placed p u)
    then show ?thesis
      using set_used_untouched [OF fixed_b_private [OF inv]]
      by (simp add: run bind_def note_request_def rt_simps)
  qed
qed

lemma fixed_free_law:
  assumes inv: "fixed_inv a b n L st" and mem: "(p, unat sz) \<in> L"
  shows "\<exists>st'. loke_rt_v1_free (providers H k) a p sz align st = (Inr (), st') \<and>
     fixed_inv a b n (L - {(p, unat sz)}) st' \<and> untouched (- fixed_territory a b n \<union> spans (L - {(p, unat sz)})) st st'"
proof -
  obtain Q where Q: "providers H k Arena_ops = loke_rt_arena_ops Q" using provider_tables by blast
  note live = fixed_live [OF inv mem]
  have ok: "block_ok b (blocks st b)" and n: "block_usable (blocks st b) = n" and a: "arena_blocks (arenas st a) = b" "a \<noteq> 0" "b \<noteq> 0"
    using inv by (auto simp: fixed_inv_def block_ok_def)
  have sz: "sz \<noteq> 0" "p \<noteq> 0" using live by auto
  have run: "loke_rt_v1_free (providers H k) a p sz align st = arena_free a p sz align st"
    using sz by (simp add: loke_rt_v1_free_def fixed_dispatch [OF inv] Q loke_rt_arena_ops_def)
  have smaller: "fixed_inv a b n (L - {(p, unat sz)}) st" using inv by (auto simp: fixed_inv_def)
  have priv: "b \<notin> - fixed_territory a b n \<union> spans (L - {(p, unat sz)})" by (rule fixed_b_private [OF smaller])
  show ?thesis
  proof (cases "arena_is_top st a p sz")
    case True
    let ?u = "block_used (blocks st b) - sz"
    have "unat (p + sz) = unat p + unat sz" using live by (intro unat_plus_exact) simp
    then have top: "unat p + unat sz = unat b + 32 + unat (block_used (blocks st b))"
      using True a sz block_top(1) [OF ok] by (simp add: arena_is_top_def Let_def)
    have u: "unat ?u = unat p - (unat b + 32)"
      using top live by (subst unat_minus_exact) linarith+
    have below: "unat q + j \<le> unat p" if "(q, j) \<in> L" "(q, j) \<noteq> (p, unat sz)" for q j
      using that inv mem fixed_live [OF inv that(1)] top live by (fastforce simp: fixed_inv_def apart_def)
    have "fixed_inv a b n (L - {(p, unat sz)}) (set_used b ?u st)"
    proof (rule fixed_inv_used [OF inv])
      show "?u \<le> n" using u top live by (simp add: word_le_nat_alt) 
      show "0 < j \<and> unat b + 32 \<le> unat q \<and> unat q + j \<le> unat b + 32 + unat ?u"
        if "(q, j) \<in> L - {(p, unat sz)}" for q j
        using that fixed_live [OF inv, of q j] below [of q j] u by auto
      show "apart x y" if "x \<in> L - {(p, unat sz)}" "y \<in> L - {(p, unat sz)}" "x \<noteq> y" for x y
        using that inv by (auto simp: fixed_inv_def)
    qed
    then show ?thesis
      using True sz a set_used_untouched [OF priv]
      by (simp add: run arena_free_def rt_simps bind_def set_block_def set_used_def used_update [of "\<lambda>used. used - sz"])
  next
    case False
    then show ?thesis
      using sz a smaller by (simp add: run arena_free_def rt_simps bind_def untouched_def agree_def)
  qed
qed


lemma fixed_in_place:
  assumes inv: "fixed_inv a b n L st" and mem: "(p, k) \<in> L"
    and top: "unat p + k = unat b + 32 + unat (block_used (blocks st b))"
    and u: "unat u = unat p + j - (unat b + 32)" and j: "0 < j" "unat p + j \<le> unat b + 32 + unat n"
  shows "fixed_inv a b n (insert (p, j) (L - {(p, k)})) (set_used b u st)"
proof (rule fixed_inv_used [OF inv])
  note live = fixed_live [OF inv mem]
  have below: "unat q + i \<le> unat p" if "(q, i) \<in> L" "(q, i) \<noteq> (p, k)" for q i
    using fixed_apart [OF inv that(1) mem that(2)] fixed_live [OF inv that(1)] top live by (auto simp: apart_def)
  show "u \<le> n" using u j live by (simp add: word_le_nat_alt)
  show "0 < i \<and> unat b + 32 \<le> unat q \<and> unat q + i \<le> unat b + 32 + unat u"
    if "(q, i) \<in> insert (p, j) (L - {(p, k)})" for q i
    using that fixed_live [OF inv, of q i] below [of q i] u j live by auto
  have "apart (p, j) x" if "x \<in> L - {(p, k)}" for x
    using below [of "fst x" "snd x"] that by (auto simp: apart_def)
  then show "apart x y" if "x \<in> insert (p, j) (L - {(p, k)})" "y \<in> insert (p, j) (L - {(p, k)})" "x \<noteq> y" for x y
    using that fixed_apart [OF inv] apart_sym by (metis DiffD1 insertE)
qed

lemma fixed_shrunk:
  assumes inv: "fixed_inv a b n L st" and mem: "(p, k) \<in> L" and j: "0 < j" "j \<le> k"
  shows "fixed_inv a b n (insert (p, j) (L - {(p, k)})) st"
proof -
  have ok: "block_ok b (blocks st b)" using inv by (simp add: fixed_inv_def)
  have "apart (p, j) x" if "x \<in> L - {(p, k)}" for x
    using fixed_apart [OF inv mem, of x] that j by (auto simp: apart_def)
  then have "apart x y" if "x \<in> insert (p, j) (L - {(p, k)})" "y \<in> insert (p, j) (L - {(p, k)})" "x \<noteq> y" for x y
    using that fixed_apart [OF inv] apart_sym by (metis DiffD1 insertE)
  moreover have "within (arena_block_bytes b) (unat (block_used (blocks st b))) p j"
    using fixed_live [OF inv mem] j by (auto simp: within_def block_base [OF ok])
  ultimately show ?thesis using inv by (auto simp: fixed_inv_def)
qed

lemma fixed_one_per_address:
  assumes "fixed_inv a b n L st" and "(p, k) \<in> L" and "(p, j) \<in> L"
  shows "j = k"
  using fixed_apart [OF assms, simplified] fixed_live(1) [OF assms(1,2)] fixed_live(1) [OF assms(1,3)]
  by (auto simp: apart_def)

lemma arena_top_resizes:
  assumes inv: "fixed_inv a b n L st" and mem: "(p, unat old) \<in> L" and "0 < new"
  shows "(\<exists>u. arena_resize Q a p old new align st = (Inr p, set_used b u st) \<and>
            fixed_inv a b n (insert (p, unat new) (L - {(p, unat old)})) (set_used b u st)) \<or>
         arena_resize Q a p old new align st = arena_move Q a p old new align st"
proof -
  note live = fixed_live [OF inv mem]
  have ok: "block_ok b (blocks st b)" and n: "block_usable (blocks st b) = n"
    and a: "arena_blocks (arenas st a) = b" "a \<noteq> 0" "b \<noteq> 0"
    using inv by (auto simp: fixed_inv_def block_ok_def)
  have nz: "p \<noteq> 0" "new \<noteq> 0" using live assms(3) by auto
  let ?u = "p + new - arena_block_bytes b"
  show ?thesis
  proof (cases "arena_is_top st a p old \<and> p + new \<ge> p \<and> p + new \<le> arena_block_bytes b + n")
    case True
    have run: "arena_resize Q a p old new align st = (Inr p, set_used b ?u st)"
      using True nz a n by (simp add: arena_resize_def rt_simps bind_def Let_def set_block_def set_used_def)
    have "unat (p + old) = unat p + unat old" using live by (intro unat_plus_exact) simp
    then have top: "unat p + unat old = unat b + 32 + unat (block_used (blocks st b))"
      using True a nz block_top(1) [OF ok] by (simp add: arena_is_top_def Let_def)
    have new: "unat (p + new) = unat p + unat new"
      using True plus_no_wrap [of p new] by (simp add: unat_plus_exact)
    have lim: "unat p + unat new \<le> unat b + 32 + unat n"
      using True new block_top(2) [OF ok] n by (simp add: word_le_nat_alt)
    have "unat ?u = unat p + unat new - (unat b + 32)"
      using new live block_base [OF ok] by (subst unat_minus_exact) simp_all
    then have "fixed_inv a b n (insert (p, unat new) (L - {(p, unat old)})) (set_used b ?u st)"
      using assms(3) top lim by (intro fixed_in_place [OF inv mem]) (simp_all add: word_less_nat_alt)
    with run show ?thesis by blast
  next
    case False
    then have "arena_resize Q a p old new align st = arena_move Q a p old new align st"
      using nz a n by (auto simp: arena_resize_def rt_simps bind_def Let_def)
    then show ?thesis ..
  qed
qed


text \<open>The move of an allocation that cannot grow in place.\<close>

lemma fixed_move:
  assumes inv: "fixed_inv a b n L st" and mem: "(p, unat old) \<in> L" and new: "0 < new" and al: "pow2 align"
  obtains (refused) "arena_move Q a p old new align st = (Inr 0, st)"
  | (moved) q st' where "arena_move Q a p old new align st = (Inr q, st')" and "q \<noteq> 0"
      and "fixed_inv a b n (insert (q, unat new) (L - {(p, unat old)})) st'"
      and "untouched (- fixed_territory a b n \<union> spans (L - {(p, unat old)})) st st'"
      and "(q, unat new) \<notin> L - {(p, unat old)}"
      and "load (Loke_State.mem st') q (min (unat old) (unat new)) = load (Loke_State.mem st) p (min (unat old) (unat new))"
proof (cases "new \<le> old")
  case True
  have "p \<noteq> 0" using fixed_live [OF inv mem] by auto
  moreover have "fixed_inv a b n (insert (p, unat new) (L - {(p, unat old)})) st"
    using True new by (intro fixed_shrunk [OF inv mem]) (simp_all add: word_le_nat_alt word_less_nat_alt)
  moreover have "(p, unat new) \<notin> L - {(p, unat old)}"
    using fixed_one_per_address [OF inv mem] by auto
  ultimately show thesis
    using True by (intro moved [of p st]) (simp_all add: arena_move_def rt_simps untouched_def agree_def)
next
  case False
  then have grow: "unat old < unat new" by (simp add: word_le_nat_alt)
  from inv new al show thesis
  proof (cases rule: fixed_arena_alloc [where Q = Q])
    case full
    then show thesis using False by (intro refused) (simp add: arena_move_def rt_simps bind_def)
  next
    case (placed q u)
    let ?m = "Loke_State.mem st" and ?bs = "load (Loke_State.mem st) p (unat old)"
    let ?st = "(set_used b u st)\<lparr>mem := store ?m q ?bs\<rparr>"
    have run: "arena_move Q a p old new align st = (Inr q, ?st)"
      using False placed(1,2) grow
      by (simp add: arena_move_def rt_simps bind_def memcpy_def word_less_nat_alt set_used_def)
    note q = fixed_live [OF placed(3) insertI1]
    have small: "length ?bs \<le> 2 ^ 64" using unat_u64_lt [of old] by simp
    have here: "span q (unat old) \<subseteq> span q (unat new)"
      using span_sub [of 0 "unat old" "unat new" q] grow by simp
    have less: "fixed_inv a b n (insert (q, unat new) (L - {(p, unat old)})) (set_used b u st)"
      using placed(3,4) by (auto simp: fixed_inv_def)
    have "agree (fixed_territory a b n - spans (insert (q, unat new) (L - {(p, unat old)}))) (set_used b u st) ?st"
    proof -
      have "store ?m q ?bs x = ?m x" if "x \<notin> span q (unat new)" for x
        using that here small by (intro store_outside) auto
      then show ?thesis by (auto simp: agree_def spans_def set_used_def)
    qed
    with less have "fixed_inv a b n (insert (q, unat new) (L - {(p, unat old)})) ?st" by (rule fixed_stable)
    moreover have "untouched (- fixed_territory a b n \<union> spans (L - {(p, unat old)})) st ?st"
    proof -
      have "x \<notin> span q (unat new)" if "x \<in> - fixed_territory a b n \<union> spans (L - {(p, unat old)})" for x
        using that fixed_block_in [OF placed(3) insertI1] placed(4) by (auto simp: block_in_def spans_def)
      then have "store ?m q ?bs x = ?m x" if "x \<in> - fixed_territory a b n \<union> spans (L - {(p, unat old)})" for x
        using that here small by (intro store_outside) auto
      moreover have "b \<notin> - fixed_territory a b n \<union> spans (L - {(p, unat old)})"
        using fixed_b_private [OF less] by (auto simp: spans_def)
      ultimately show ?thesis by (auto simp: untouched_def agree_def set_used_def)
    qed
    moreover have "load (Loke_State.mem ?st) q (min (unat old) (unat new)) = load ?m p (min (unat old) (unat new))"
      using load_store_same [OF small, of ?m q] grow by simp
    ultimately show thesis using run placed(2,4) by (intro moved [of q ?st]) auto
  qed
qed

lemma fixed_resize_law:
  assumes inv: "fixed_inv a b n L st" and new: "0 < new" and al: "pow2 align"
    and old: "p = 0 \<and> old = 0 \<or> (p, unat old) \<in> L"
  shows "\<exists>q st'. loke_rt_v1_resize (providers H k) a p old new align st = (Inr q, st') \<and>
     (if q = 0 then fixed_inv a b n L st' \<and> untouched (- fixed_territory a b n \<union> spans L) st st'
      else fixed_inv a b n (insert (q, unat new) (L - {(p, unat old)})) st' \<and>
        untouched (- fixed_territory a b n \<union> spans (L - {(p, unat old)})) st st' \<and> (q, unat new) \<notin> L - {(p, unat old)} \<and>
        load (Loke_State.mem st') q (min (unat old) (unat new)) = load (Loke_State.mem st) p (min (unat old) (unat new)))"
proof -
  obtain Q where Q: "providers H k Arena_ops = loke_rt_arena_ops Q" using provider_tables by blast
  have run: "loke_rt_v1_resize (providers H k) a p old new align st =
      bind (arena_resize Q a p old new align) (note_request a new) st"
    by (simp add: loke_rt_v1_resize_def fixed_dispatch [OF inv] Q loke_rt_arena_ops_def)
  have refl: "untouched A st st" for A by (simp add: untouched_def agree_def)
  from old show ?thesis
  proof
    assume p: "p = 0 \<and> old = 0"
    then have none: "L - {(p, unat old)} = L" using fixed_live(1) [OF inv, of 0 0] by auto
    have "arena_resize Q a p old new align st = arena_alloc Q a new align st"
      using p new inv by (auto simp: arena_resize_def fixed_inv_def)
    from inv new al show ?thesis
    proof (cases rule: fixed_arena_alloc [where Q = Q])
      case full
      then show ?thesis using \<open>arena_resize Q a p old new align st = _\<close> inv by (simp add: run note_run refl)
    next
      case (placed q u)
      then show ?thesis
        using run \<open>arena_resize Q a p old new align st = _\<close> p none set_used_untouched [OF fixed_b_private [OF inv]]
        by (simp add: note_run)
    qed
  next
    assume mem: "(p, unat old) \<in> L"
    have nz: "p \<noteq> 0" using fixed_live [OF inv mem] by auto
    have one: "(p, unat new) \<notin> L - {(p, unat old)}" using fixed_one_per_address [OF inv mem] by auto
    have priv: "b \<notin> - fixed_territory a b n \<union> spans (L - {(p, unat old)})"
      using fixed_b_private [OF inv] by (auto simp: spans_def)
    from arena_top_resizes [OF inv mem new, of Q align] show ?thesis
    proof (elim disjE exE conjE)
      fix u assume "arena_resize Q a p old new align st = (Inr p, set_used b u st)"
        and "fixed_inv a b n (insert (p, unat new) (L - {(p, unat old)})) (set_used b u st)"
      then show ?thesis
        using nz one set_used_untouched [OF priv] by (simp add: run note_run) (simp add: set_used_def)
    next
      assume "arena_resize Q a p old new align st = arena_move Q a p old new align st"
      with inv mem new al show ?thesis
        by (cases rule: fixed_move [where Q = Q]) (simp_all add: run note_run inv refl)
    qed
  qed
qed

lemma fixed_reset_run:
  assumes inv: "fixed_inv a b n L st"
  shows "loke_rt_v1_reset (providers H k) a st = (Inr (), set_used b 0 st)" and "fixed_inv a b n {} (set_used b 0 st)"
proof -
  obtain Q where Q: "providers H k Arena_ops = loke_rt_arena_ops Q" using provider_tables by blast
  have a: "arena_blocks (arenas st a) = b" "arena_first (arenas st a) = b" "a \<noteq> 0" "b \<noteq> 0"
      "next_block (blocks st b) = 0" "block_owned (blocks st b) = 0"
    using inv by (auto simp: fixed_inv_def block_ok_def)
  have "release_block Q a b st = (Inr 0, st)" using a by (simp add: release_block_def rt_simps bind_def)
  then have "while_proc (\<lambda>block st. block \<noteq> 0) (release_block Q a) b st = (Inr 0, st)"
    using a(4) by (simp add: while_proc_step while_proc_stop)
  moreover have idem: "(blocks st b)\<lparr>next_block := 0, block_used := 0\<rparr> = (blocks st b)\<lparr>block_used := 0\<rparr>"
    using a(5) by (cases "blocks st b") simp
  ultimately show "loke_rt_v1_reset (providers H k) a st = (Inr (), set_used b 0 st)"
    using a by (simp add: loke_rt_v1_reset_def fixed_dispatch [OF inv] Q loke_rt_arena_ops_def arena_reset_def
      arena_release_blocks_def rt_simps bind_def set_arena_def set_block_def set_used_def fun_upd_idem idem)
  show "fixed_inv a b n {} (set_used b 0 st)" by (rule fixed_inv_used [OF inv]) auto
qed

lemma fixed_reset_law:
  assumes inv: "fixed_inv a b n L st"
  shows "\<exists>st'. loke_rt_v1_reset (providers H k) a st = (Inr (), st') \<and> fixed_inv a b n {} st' \<and>
     untouched (- fixed_territory a b n) st st'"
proof -
  have "untouched (- fixed_territory a b n) st (set_used b 0 st)"
    by (rule set_used_untouched) (simp add: fixed_territory_def)
  with fixed_reset_run [OF inv] show ?thesis by blast
qed

interpretation fixed: region_provider "providers H k" a "fixed_territory a b n" "fixed_inv a b n"
  for H :: "'w host" and k a b n
proof
  show "a \<noteq> 0" if "fixed_inv a b n L st" for L and st :: "'w rt"
    using that by (simp add: fixed_inv_def)
qed (rule fixed_block_in fixed_stable fixed_alloc_law fixed_resize_law fixed_free_law fixed_reset_law; assumption)+

section \<open>Opening a fixed-buffer arena\<close>

lemma pow2_16: "pow2 16"
  unfolding pow2_def by (intro exI [of _ 4]) simp

lemma round_16:
  assumes "unat v + 15 < 2 ^ 64"
  shows "unat (arena_round_up v 16) = (unat v + 15) div 16 * 16"
  using arena_round_up_eq [OF pow2_16, of v] assms by simp

text \<open>A buffer of at least the minimum size always holds the control block and the header, with
  what remains usable.\<close>

definition placed_arena :: "addr \<Rightarrow> addr \<Rightarrow> u64 \<Rightarrow> u64 \<Rightarrow> addr \<Rightarrow> u64 \<Rightarrow> 'w rt \<Rightarrow> 'w rt" where
  "placed_arena a b n sz parent bytes st = st\<lparr>
      blocks := (blocks st)(b := \<lparr>next_block = 0, block_usable = n, block_used = 0, block_owned = 0\<rparr>),
      allocators := (allocators st)(a := \<lparr>abi_version = LOKE_RT_ABI_VERSION, record_size = SIZEOF_ALLOCATOR, al_state = a,
           region_id = a, al_ops = No_ops, on_failure = LOKE_RT_ON_FAILURE_PANIC, reserved = 0\<rparr>),
      arenas := (arenas st)(a := \<lparr>arena_parent = parent, arena_blocks = b, arena_first = b,
           block_bytes = bytes, control_bytes = sz\<rparr>)\<rparr>"

lemma arena_place_runs:
  assumes "base \<noteq> 0" and "unat base + unat sz < 2 ^ 64" and "128 \<le> unat sz"
  obtains a b n where "arena_place base sz parent bytes st = (Inr a, placed_arena a b n sz parent bytes st)"
    and "a \<noteq> 0" and "16 dvd unat a" and "unat base \<le> unat a" and "unat a < unat base + 16" and "unat b = unat a + 80"
    and "unat b + 32 + unat n = unat base + unat sz"
proof -
  let ?a = "arena_round_up base 16"
  have a: "unat ?a = (unat base + 15) div 16 * 16" using assms by (intro round_16) simp
  have a_ge: "unat base \<le> unat ?a" "unat ?a < unat base + 16" "16 dvd unat ?a"
    using round_up_multiple [of 16 "unat base"] by (simp_all add: a)
  have a80: "unat (?a + 80) = unat ?a + 80" using assms a_ge by (subst unat_plus_exact) simp_all
  let ?b = "arena_round_up (?a + 80) 16"
  have b: "unat ?b = unat ?a + 80"
  proof -
    have "unat ?b = (unat ?a + 80 + 15) div 16 * 16" using assms a_ge by (subst round_16) (simp_all add: a80)
    also have "\<dots> = unat ?a + 80" using a_ge(3) by (elim dvdE) simp
    finally show ?thesis .
  qed
  have u: "unat (?b + 32) = unat ?b + 32" using assms a_ge b by (subst unat_plus_exact) simp_all
  have fin: "unat (base + sz) = unat base + unat sz" using assms(2) by (rule unat_plus_exact)
  have nz: "?a \<noteq> 0" "?b \<noteq> 0" using b a_ge assms(1) by (auto simp: unat_eq_zero [symmetric])
  have n: "unat b + 32 + unat (base + sz - (b + 32)) = unat base + unat sz" if "b = ?b" for b
    using that a_ge b u fin assms(3) by (subst unat_minus_exact) simp_all
  have "\<not> ?a < base" "\<not> ?b + 32 < ?b" "\<not> ?b + 32 > base + sz"
    using a_ge b u fin assms(3) by (simp_all add: word_less_nat_alt)
  with nz have "arena_place base sz parent bytes st = (Inr ?a, placed_arena ?a ?b (base + sz - (?b + 32)) sz parent bytes st)"
    by (simp add: arena_place_def ARENA_CONTROL_ALIGN_def SIZEOF_ARENA_def SIZEOF_BLOCK_def
      set_block_def set_arena_def rt_simps bind_def Let_def placed_arena_def)
  then show thesis using nz(1) a_ge(3,1,2) b n [OF refl] by (rule that)
qed

lemma placed_arena_fixed:
  assumes "a \<noteq> 0" and "unat b = unat a + 80" and "unat b + 32 + unat n < 2 ^ 64"
  shows "fixed_inv a b n {} ((placed_arena a b n sz 0 bytes st)\<lparr>allocators :=
    (allocators (placed_arena a b n sz 0 bytes st))(a := (allocators (placed_arena a b n sz 0 bytes st) a)\<lparr>al_ops := Arena_ops\<rparr>)\<rparr>)"
  using assms by (auto simp: fixed_inv_def placed_arena_def handle_ok_def block_ok_def)

lemma open_fixed_too_small:
  assumes "i64 sz" and "sz < 128"
  shows "loke_rt_v1_arena_open_fixed buffer sz st = (Inl (Panic ''this buffer is too small to host an arena''), st)"
proof -
  have "sz < 0 \<or> (word_of_int sz :: u64) < loke_rt_v1_arena_min_buffer"
    using assms by (cases "sz < 0") (auto simp: loke_rt_v1_arena_min_buffer_def SIZEOF_ARENA_def SIZEOF_BLOCK_def
      ARENA_CONTROL_ALIGN_def word_less_nat_alt unat_word_of_i64)
  then show ?thesis by (auto simp: loke_rt_v1_arena_open_fixed_def rt_simps)
qed

lemma open_fixed_runs:
  assumes "buffer \<noteq> 0" and "i64 sz" and "128 \<le> sz" and "unat buffer + nat sz < 2 ^ 64"
  obtains a b n st' where "loke_rt_v1_arena_open_fixed buffer sz st = (Inr a, st')" and "fixed_inv a b n {} st'"
    and "unat buffer \<le> unat a" and "unat a < unat buffer + 16" and "unat b = unat a + 80"
    and "unat b + 32 + unat n = unat buffer + nat sz"
proof -
  let ?sz = "word_of_int sz :: u64"
  have sz: "unat ?sz = nat sz" using assms(2,3) by (simp add: unat_word_of_i64)
  have fits: "unat buffer + unat ?sz < 2 ^ 64" "128 \<le> unat ?sz" using assms(3,4) sz by simp_all
  have big: "\<not> ?sz < loke_rt_v1_arena_min_buffer"
    using fits(2) by (simp add: loke_rt_v1_arena_min_buffer_def SIZEOF_ARENA_def SIZEOF_BLOCK_def
      ARENA_CONTROL_ALIGN_def word_less_nat_alt)
  from assms(1) fits show thesis
  proof (rule arena_place_runs [of buffer ?sz 0 0 st])
    fix a b n
    assume "arena_place buffer ?sz 0 0 st = (Inr a, placed_arena a b n ?sz 0 0 st)" and "a \<noteq> 0"
      and "unat buffer \<le> unat a" and "unat a < unat buffer + 16" and "unat b = unat a + 80"
      and "unat b + 32 + unat n = unat buffer + unat ?sz"
    then show thesis
      using assms big sz placed_arena_fixed [of a b n ?sz 0 st] fits
      by (intro that [of a _ b n]) (auto simp: loke_rt_v1_arena_open_fixed_def rt_simps bind_def)
  qed
qed

section \<open>Properties\<close>

text \<open>C19. Opening an arena over a caller's buffer never allocates and never fails on a buffer of at
  least the published minimum: it answers a handle inside the buffer from which the whole arena
  contract follows, with no allocation live and the rest of the buffer usable. A smaller buffer
  is a program fault.\<close>

theorem arena_open_fixed_establishes:
  assumes "buffer \<noteq> 0" and "i64 sz" and "unat buffer + nat sz < 2 ^ 64"
  shows "if sz < 128 then loke_rt_v1_arena_open_fixed buffer sz st = (Inl (Panic ''this buffer is too small to host an arena''), st)
    else \<exists>a b n st'. loke_rt_v1_arena_open_fixed buffer sz st = (Inr a, st') \<and> fixed_inv a b n {} st' \<and>
      unat buffer \<le> unat a \<and> unat b + 32 + unat n = unat buffer + nat sz \<and> nat sz - 128 < unat n"
proof (cases "sz < 128")
  case True
  then show ?thesis using assms(2) by (simp add: open_fixed_too_small)
next
  case False
  then have "128 \<le> sz" by simp
  from assms(1,2) \<open>128 \<le> sz\<close> assms(3) show ?thesis
  proof (rule open_fixed_runs [of buffer sz st])
    fix a b n st'
    assume run: "loke_rt_v1_arena_open_fixed buffer sz st = (Inr a, st')" "fixed_inv a b n {} st'"
      and place: "unat buffer \<le> unat a" "unat a < unat buffer + 16" "unat b = unat a + 80"
        "unat b + 32 + unat n = unat buffer + nat sz"
    then have "nat sz - 128 < unat n" using \<open>128 \<le> sz\<close> by linarith
    with run place(1,4) False show ?thesis by (simp only: if_False) blast
  qed
qed

theorem arena_open_fixed_establishes_witness:
  "\<forall>st :: unit rt. \<exists>a b n st'. loke_rt_v1_arena_open_fixed 4099 256 st = (Inr a, st') \<and> fixed_inv a b n {} st' \<and>
      4099 \<le> unat a \<and> unat b + 32 + unat n = 4099 + 256 \<and> 128 < unat n"
  using arena_open_fixed_establishes [of 4099 256] by (auto simp: i64_def INT64_MAX_def)

text \<open>Every use a program can make of a provider, one operation at a time: the operations of the
  dispatch on its handle, and writes to the memory it was given.\<close>

inductive history :: "'w providers \<Rightarrow> addr \<Rightarrow> live \<times> 'w rt \<Rightarrow> live \<times> 'w rt \<Rightarrow> bool" for P h x where
  history_start: "history P h x x"
| history_alloc: "history P h x (L, st) \<Longrightarrow> 0 < sz \<Longrightarrow> pow2 align \<Longrightarrow>
    loke_rt_v1_alloc P h sz align st = (Inr p, st') \<Longrightarrow> history P h x (if p = 0 then L else insert (p, unat sz) L, st')"
| history_resize: "history P h x (L, st) \<Longrightarrow> 0 < new \<Longrightarrow> pow2 align \<Longrightarrow> (p, unat old) \<in> L \<Longrightarrow>
    loke_rt_v1_resize P h p old new align st = (Inr q, st') \<Longrightarrow>
    history P h x (if q = 0 then L else insert (q, unat new) (L - {(p, unat old)}), st')"
| history_free: "history P h x (L, st) \<Longrightarrow> (p, unat sz) \<in> L \<Longrightarrow>
    loke_rt_v1_free P h p sz align st = (Inr (), st') \<Longrightarrow> history P h x (L - {(p, unat sz)}, st')"
| history_reset: "history P h x (L, st) \<Longrightarrow> loke_rt_v1_reset P h st = (Inr (), st') \<Longrightarrow> history P h x ({}, st')"
| history_write: "history P h x (L, st) \<Longrightarrow> span q (length bs) \<subseteq> spans L \<Longrightarrow> length bs \<le> 2 ^ 64 \<Longrightarrow>
    history P h x (L, st\<lparr>mem := store (mem st) q bs\<rparr>)"

context region_provider
begin

lemma history_inv:
  assumes "history P h x y" and "inv (fst x) (snd x)"
  shows "inv (fst y) (snd y)"
  using assms
proof (induction rule: history.induct)
  case (history_alloc L st sz align p st')
  then show ?case using alloc_law [of L st sz align] by (auto split: if_splits)
next
  case (history_resize L st new align p old q st')
  then show ?case using resize_law [of L st new align p old] by (auto split: if_splits)
next
  case (history_free L st p sz align st')
  then show ?case using free_law [of L st p sz align] by auto
next
  case (history_reset L st st')
  then show ?case using reset_law [of L st] by auto
next
  case (history_write L st q bs)
  have "agree (territory - spans L) st (st\<lparr>mem := store (mem st) q bs\<rparr>)"
    using history_write.hyps by (auto simp: agree_def intro!: store_outside)
  with history_write show ?case by (auto intro: stable)
qed simp

lemma history_separate:
  assumes "history P h x (L, st)" and "inv (fst x) (snd x)" and "(p, n) \<in> L" and "(q, k) \<in> L" and "(p, n) \<noteq> (q, k)"
  shows "span p n \<subseteq> territory" and "span p n \<inter> span q k = {}"
proof -
  have "inv L st" using history_inv [OF assms(1,2)] by simp
  from live_inside [OF this assms(3)] assms(4,5) show "span p n \<subseteq> territory" and "span p n \<inter> span q k = {}"
    by (auto simp: block_in_def spans_def)
qed

end

text \<open>C4. Region safety. Open an arena over a buffer and use it through the allocation interface in any
  order: allocate, resize, free, reset, write what was allocated. At every moment each live
  allocation is non-null and lies inside the buffer, past the control structures, and no two live
  allocations share a byte.\<close>

theorem arena_history_safe:
  assumes "loke_rt_v1_arena_open_fixed buffer sz st0 = (Inr a, st1)"
    and "i64 sz" and "unat buffer + nat sz < 2 ^ 64"
    and "history (providers H k) a ({}, st1) (L, st)"
  shows "\<forall>(p, n) \<in> L. p \<noteq> 0 \<and> unat buffer + 112 \<le> unat p \<and> unat p + n \<le> unat buffer + nat sz \<and>
    (\<forall>(q, m) \<in> L. (p, n) \<noteq> (q, m) \<longrightarrow> span p n \<inter> span q m = {})"
proof -
  have nz: "buffer \<noteq> 0" using assms(1) by (auto simp: loke_rt_v1_arena_open_fixed_def rt_simps)
  have big: "128 \<le> sz" using assms(1) open_fixed_too_small [OF assms(2), of buffer st0] by (cases "sz < 128") auto
  obtain b n where inv: "fixed_inv a b n {} st1"
    and place: "unat buffer \<le> unat a" "unat b = unat a + 80" "unat b + 32 + unat n = unat buffer + nat sz"
    using assms(1) by (rule_tac open_fixed_runs [OF nz assms(2) big assms(3), of st0]) auto
  have live: "fixed_inv a b n L st" using fixed.history_inv [OF assms(4)] inv by simp
  show ?thesis
  proof (clarify, intro conjI)
    fix p j assume pk: "(p, j) \<in> L"
    note l = fixed_live [OF live pk]
    show "p \<noteq> 0" "unat buffer + 112 \<le> unat p" "unat p + j \<le> unat buffer + nat sz"
      using l place by auto
    show "\<forall>(q, m) \<in> L. (p, j) \<noteq> (q, m) \<longrightarrow> span p j \<inter> span q m = {}"
      using fixed.history_separate(2) [OF assms(4) _ pk] inv by fastforce
  qed
qed


text \<open>C20. Allocating from an arena either refuses, or answers a block at the requested alignment that
  overlaps no live allocation; in both cases every byte of every live allocation, and everything
  outside the arena, is as it was.\<close>

theorem fixed_arena_alloc_contract:
  assumes "fixed_inv a b n L st" and "0 < sz" and "pow2 align"
  shows "\<exists>p st'. loke_rt_v1_alloc (providers H k) a sz align st = (Inr p, st') \<and>
     untouched (- fixed_territory a b n \<union> spans L) st st' \<and>
     (if p = 0 then fixed_inv a b n L st' \<and> refused_by st' = a \<and> refused_size st' = sz
      else fixed_inv a b n (insert (p, unat sz) L) st' \<and> (p, unat sz) \<notin> L \<and> unat align dvd unat p)"
proof -
  obtain p st' where law: "loke_rt_v1_alloc (providers H k) a sz align st = (Inr p, st')"
      "untouched (- fixed_territory a b n \<union> spans L) st st'"
      "if p = 0 then fixed_inv a b n L st' else fixed_inv a b n (insert (p, unat sz) L) st' \<and> (p, unat sz) \<notin> L \<and> unat align dvd unat p"
    using fixed.alloc_law [OF assms] by blast
  moreover have "refused_by st' = a \<and> refused_size st' = sz" if "p = 0"
    using law(1) that assms(2) [unfolded word_greater_zero_iff]
    by (auto simp: loke_rt_v1_alloc_def fixed_dispatch [OF assms(1)] note_run split: prod.splits sum.splits)
  ultimately show ?thesis by auto
qed

text \<open>C21. Resizing keeps the data: the answer is null, and then every live allocation, the resized one included, and
  everything outside the arena is as it was; or it is a block whose first bytes, up to the smaller of the two sizes,
  are those of the old one, apart from every other live allocation, and those and everything outside the arena
  are as they were.\<close>

theorem fixed_arena_resize_contract:
  assumes "fixed_inv a b n L st" and "0 < new" and "pow2 align" and "(p, unat old) \<in> L"
  shows "\<exists>q st'. loke_rt_v1_resize (providers H k) a p old new align st = (Inr q, st') \<and>
     (if q = 0 then fixed_inv a b n L st' \<and> untouched (- fixed_territory a b n \<union> spans L) st st' \<and>
        load (mem st') p (unat old) = load (mem st) p (unat old)
      else fixed_inv a b n (insert (q, unat new) (L - {(p, unat old)})) st' \<and> (q, unat new) \<notin> L - {(p, unat old)} \<and>
        untouched (- fixed_territory a b n \<union> spans (L - {(p, unat old)})) st st' \<and>
        load (mem st') q (min (unat old) (unat new)) = load (mem st) p (min (unat old) (unat new)))"
proof -
  have "load (mem st') p (unat old) = load (mem st) p (unat old)"
    if "untouched (- fixed_territory a b n \<union> spans L) st st'" for st' :: "'a rt"
    using that assms(4) by (intro load_cong) (auto simp: untouched_def agree_def spans_def)
  then show ?thesis using fixed.resize_law [OF assms(1-3), of p old H k] assms(4) by (fastforce split: if_splits)
qed

text \<open>C22. \<^verbatim>\<open>free_all\<close> on an arena ends every allocation and leaves the region open for reuse: a request
  as large as all usable bytes of the buffer then succeeds at byte alignment.\<close>

theorem arena_reset_reuses:
  assumes "fixed_inv a b n L st" and "0 < n"
  shows "\<exists>st1 p st2. loke_rt_v1_reset (providers H k) a st = (Inr (), st1) \<and> fixed_inv a b n {} st1 \<and>
    loke_rt_v1_alloc (providers H k) a n 1 st1 = (Inr p, st2) \<and> p \<noteq> 0"
proof -
  let ?st = "set_used b 0 st"
  obtain Q where Q: "providers H k Arena_ops = loke_rt_arena_ops Q" using provider_tables by blast
  have inv: "fixed_inv a b n {} ?st" by (rule fixed_reset_run [OF assms(1)])
  have ok: "block_ok b (blocks ?st b)" and st: "a \<noteq> 0" "arena_blocks (arenas ?st a) = b" "block_usable (blocks ?st b) = n"
      "block_used (blocks ?st b) = 0" and n: "n \<noteq> 0"
    using inv assms(2) by (auto simp: fixed_inv_def set_used_def)
  have one: "pow2 1" unfolding pow2_def by (intro exI [of _ 0]) simp
  obtain r st2 where bump: "arena_bump b n 1 ?st = (r, st2)" by fastforce
  with ok one obtain p where "r = Inr p" "p \<noteq> 0"
    by (cases rule: arena_bump_cases) (use st in auto)
  then have "arena_alloc Q a n 1 ?st = (Inr p, st2)"
    using st n bump by (simp add: arena_alloc_def arena_align_def rt_simps bind_def)
  then have "loke_rt_v1_alloc (providers H k) a n 1 ?st = (Inr p, st2\<lparr>refused_by := 0, refused_size := n\<rparr>)"
    using n \<open>p \<noteq> 0\<close> by (simp add: loke_rt_v1_alloc_def fixed_dispatch [OF inv] Q loke_rt_arena_ops_def note_run)
  then show ?thesis using fixed_reset_run [OF assms(1)] \<open>p \<noteq> 0\<close> by blast
qed

lemma arena_want_enough: "arena_want want needed = Some v \<Longrightarrow> needed \<le> v"
proof (induction want needed rule: arena_want.induct)
  case (1 want needed)
  then show ?case
    by (cases "want < needed") (auto simp: arena_want.simps [of want needed] Let_def not_less split: if_splits)
qed


section \<open>A concrete arena\<close>

text \<open>An arena over the 256 bytes from address 4096, in a program just started, on which the
  properties above are exercised.\<close>

definition sample_host :: "unit host" where
  "sample_host = \<lparr>aligned_malloc = (\<lambda>sz align. return 0x10000), aligned_realloc = (\<lambda>p sz align. return 0),
     aligned_free = (\<lambda>p. return ()), program_ops = (\<lambda>_. no_callbacks), default_allocator = 16, empty_region = 64\<rparr>"

definition sample_arena :: "unit rt" where
  "sample_arena = (let st = placed_arena 4096 4176 144 256 0 0 (initial_rt sample_host ()) in
     st\<lparr>allocators := (allocators st)(4096 := (allocators st 4096)\<lparr>al_ops := Arena_ops\<rparr>)\<rparr>)"

lemma sample_round: "arena_round_up 4096 16 = 4096" "arena_round_up 4176 16 = 4176"
  by code_simp+

lemma sample_open: "loke_rt_v1_arena_open_fixed 4096 256 (initial_rt sample_host ()) = (Inr 4096, sample_arena)"
  by (simp add: loke_rt_v1_arena_open_fixed_def arena_place_def loke_rt_v1_arena_min_buffer_def SIZEOF_ARENA_def SIZEOF_BLOCK_def
    ARENA_CONTROL_ALIGN_def sample_round Let_def rt_simps bind_def set_block_def set_arena_def placed_arena_def sample_arena_def)

lemma sample_inv: "fixed_inv 4096 4176 144 {} sample_arena"
  unfolding sample_arena_def Let_def by (rule placed_arena_fixed) simp_all

lemma sample_used: "fixed_inv 4096 4176 144 {(4208, 24)} (set_used 4176 24 sample_arena)"
  by (rule fixed_inv_used [OF sample_inv]) auto

lemma pow2_8: "pow2 8"
  unfolding pow2_def by (intro exI [of _ 3]) simp

theorem arena_history_safe_witness:
  "\<exists>st. history (providers sample_host 0) 4096 ({}, sample_arena) ({(4232, 16), (4208, 24)}, st) \<and>
    unat (4096 :: addr) + 112 \<le> unat (4208 :: addr) \<and> unat (4232 :: addr) + 16 \<le> unat (4096 :: addr) + nat 256 \<and>
    span 4208 24 \<inter> span 4232 16 = {}"
proof -
  define st1 where "st1 = snd (loke_rt_v1_alloc (providers sample_host 0) 4096 24 8 sample_arena)"
  define st2 where "st2 = snd (loke_rt_v1_alloc (providers sample_host 0) 4096 16 8 st1)"
  have "fst (loke_rt_v1_alloc (providers sample_host 0) 4096 24 8 sample_arena) = Inr 4208" by code_simp
  then have run1: "loke_rt_v1_alloc (providers sample_host 0) 4096 24 8 sample_arena = (Inr 4208, st1)"
    by (simp add: st1_def prod_eq_iff)
  have "fst (loke_rt_v1_alloc (providers sample_host 0) 4096 16 8 st1) = Inr 4232" unfolding st1_def by code_simp
  then have run2: "loke_rt_v1_alloc (providers sample_host 0) 4096 16 8 st1 = (Inr 4232, st2)"
    by (simp add: st2_def prod_eq_iff)
  have "history (providers sample_host 0) 4096 ({}, sample_arena) ({(4208, 24)}, st1)"
    using history_alloc [OF history_start _ pow2_8 run1] by simp
  then have hist: "history (providers sample_host 0) 4096 ({}, sample_arena) ({(4232, 16), (4208, 24)}, st2)"
    using history_alloc [OF _ _ pow2_8 run2] by fastforce
  with arena_history_safe [OF sample_open _ _ hist] show ?thesis
    by (auto simp: i64_def INT64_MAX_def)
qed

theorem fixed_arena_alloc_contract_witness:
  "\<exists>p st'. loke_rt_v1_alloc (providers sample_host 0) 4096 24 8 (set_used 4176 24 sample_arena) = (Inr p, st') \<and>
     untouched (- fixed_territory 4096 4176 144 \<union> spans {(4208, 24)}) (set_used 4176 24 sample_arena) st'"
  using fixed_arena_alloc_contract [OF sample_used _ pow2_8, of 24 sample_host 0] by auto

theorem fixed_arena_resize_contract_witness:
  "\<exists>q st'. loke_rt_v1_resize (providers sample_host 0) 4096 4208 24 100 8 (set_used 4176 24 sample_arena) = (Inr q, st') \<and>
     (if q = 0 then fixed_inv 4096 4176 144 {(4208, 24)} st'
      else fixed_inv 4096 4176 144 {(q, 100)} st' \<and>
        load (mem st') q 24 = load (mem (set_used 4176 24 sample_arena)) 4208 24)"
  using fixed_arena_resize_contract [OF sample_used _ pow2_8, of 100 4208 24 sample_host 0]
  by (auto split: if_splits)

theorem arena_reset_reuses_witness:
  "\<exists>st1 p st2. loke_rt_v1_reset (providers sample_host 0) 4096 (set_used 4176 24 sample_arena) = (Inr (), st1) \<and>
    loke_rt_v1_alloc (providers sample_host 0) 4096 144 1 st1 = (Inr p, st2) \<and> p \<noteq> 0"
  using arena_reset_reuses [OF sample_used, of sample_host 0] by auto

text \<open>A full arena of one 16-byte block, backed by the system heap.\<close>

lemma sample_round_child: "arena_round_up 4224 8 = 4224"
  by code_simp

definition sample_child :: "unit rt" where
  "sample_child = (placed_arena 4096 4176 16 128 16 4096 (initial_rt sample_host ()))
     \<lparr>blocks := (\<lambda>_. \<lparr>next_block = 0, block_usable = 16, block_used = 16, block_owned = 0\<rparr>)\<rparr>"


end
