(* ===== verification/Loke_Dyn_Correct.thy ===== *)
theory Loke_Dyn_Correct
  imports Loke_Dyn Loke_Region
begin

text \<open>
  Correctness of the dynamic array, proved once against the \<open>provider\<close> contract: an array is
  well formed when its block is one of the provider's live blocks, its contents are the element
  byte strings in that block, and every operation is described by the list operation it performs
  on the contents and by what it leaves alone in the rest of memory.
\<close>

section \<open>Addresses\<close>

lemma dyn_at_slot: "0 \<le> i \<Longrightarrow> dyn_at d ops i = slot (dyn_data d) (unat (elem_size ops)) (nat i)"
  by (elim nonneg_int_cases) (simp add: dyn_at_def slot_def)

section \<open>Growth\<close>

lemma growth_target:
  assumes "0 \<le> cap" and "cap \<le> INT64_MAX" and "min_capacity \<le> INT64_MAX"
  obtains t where "dyn_growth_target cap min_capacity = Some t" and "min_capacity \<le> t" and "8 \<le> t" and "t \<le> INT64_MAX"
    and "2 * cap \<le> INT64_MAX \<longrightarrow> 2 * cap \<le> t"
proof -
  define want where "want = (if cap > 0 then (case loke_rt_v1_checked_add cap cap of
      Some doubled \<Rightarrow> if doubled > min_capacity then doubled else min_capacity | None \<Rightarrow> min_capacity) else min_capacity)"
  have w: "min_capacity \<le> want" "want \<le> INT64_MAX" "2 * cap \<le> INT64_MAX \<longrightarrow> want \<ge> 2 * cap \<or> cap = 0"
    using assms by (auto simp: want_def checked_add_Some split: option.splits) (auto simp: loke_rt_v1_checked_add_def split: if_splits)
  have "dyn_growth_target cap min_capacity = Some (if want < 8 then 8 else want)"
    using w(1) by (auto simp: dyn_growth_target_def want_def Let_def)
  then show thesis
    using w assms(1) by (intro that [of "if want < 8 then 8 else want"]) (auto simp: INT64_MAX_def)
qed

section \<open>A well-formed array\<close>

text \<open>The block an array owns; empty when it owns none.\<close>

definition own_block :: "dynamic_v1 \<Rightarrow> u64 \<Rightarrow> live" where
  "own_block d sz = (if nat (dyn_cap d) * unat sz = 0 then {} else {(dyn_data d, nat (dyn_cap d) * unat sz)})"

lemma own_block_0 [simp]: "own_block d 0 = {}"
  by (simp add: own_block_def)

definition dyn_ok :: "addr \<Rightarrow> addr set \<Rightarrow> live \<Rightarrow> 'w rt \<Rightarrow> addr \<Rightarrow> u64 \<Rightarrow> bool" where
  "dyn_ok h territory L st self sz \<longleftrightarrow>
     (let d = dyns st self in
      0 \<le> dyn_len d \<and> dyn_len d \<le> dyn_cap d \<and> dyn_cap d \<le> INT64_MAX \<and> nat (dyn_cap d) * unat sz < 2 ^ 64 \<and>
      dyn_allocator d = h \<and> own_block d sz \<subseteq> L \<and> (own_block d sz = {} \<longrightarrow> dyn_data d = 0) \<and>
      self \<in> - territory \<union> spans (L - own_block d sz))"

definition contents :: "'w rt \<Rightarrow> addr \<Rightarrow> u64 \<Rightarrow> u8 list list" where
  "contents st self sz = elems (mem st) (dyn_data (dyns st self)) (unat sz) (nat (dyn_len (dyns st self)))"

lemma spans_mono: "L \<subseteq> L' \<Longrightarrow> spans L \<subseteq> spans L'"
  by (auto simp: spans_def)

lemma spans_member: "(p, n) \<in> L \<Longrightarrow> k \<le> n \<Longrightarrow> span p k \<subseteq> spans L"
  using span_sub [of 0 k n p] by (auto simp: spans_def)

lemma spans_insert [simp]: "spans (insert (p, n) L) = span p n \<union> spans L"
  by (auto simp: spans_def)

lemma spans_empty [simp]: "spans {} = {}"
  by (simp add: spans_def)

lemma agree_refl [simp]: "agree A st st"
  by (simp add: agree_def)

lemma untouched_refl [simp]: "untouched A st st"
  by (simp add: untouched_def)

lemma agree_trans: "agree A st st' \<Longrightarrow> agree A st' st'' \<Longrightarrow> agree A st st''"
  by (auto simp: agree_def)

lemma untouched_trans: "untouched A st st' \<Longrightarrow> untouched A st' st'' \<Longrightarrow> untouched A st st''"
  by (auto simp: untouched_def elim: agree_trans)

lemma untouched_mono: "untouched B st st' \<Longrightarrow> A \<subseteq> B \<Longrightarrow> untouched A st st'"
  by (auto simp: untouched_def agree_def)

lemma set_dyn_run: "set_dyn self f st = (Inr (), st\<lparr>dyns := (dyns st)(self := f (dyns st self))\<rparr>)"
  by (simp add: set_dyn_def rt_simps)

lemma untouched_set_dyn: "self \<notin> A \<Longrightarrow> untouched A st (st\<lparr>dyns := (dyns st)(self := d)\<rparr>)"
  by (auto simp: untouched_def agree_def)

lemma untouched_store:
  "A \<inter> span p (length bs) = {} \<Longrightarrow> length bs \<le> 2 ^ 64 \<Longrightarrow> untouched A st (st\<lparr>mem := store (mem st) p bs\<rparr>)"
  by (auto simp: untouched_def agree_def intro!: store_outside)

lemma untouched_elems:
  "untouched A st st' \<Longrightarrow> span p (n * sz) \<subseteq> A \<Longrightarrow> elems (mem st') p sz n = elems (mem st) p sz n"
  by (rule elems_cong) (auto simp: untouched_def agree_def)

lemma untouched_dyns: "untouched A st st' \<Longrightarrow> self \<in> A \<Longrightarrow> dyns st' self = dyns st self"
  by (simp add: untouched_def agree_def)

text \<open>What an operation on one array leaves alone: the memory and structs of \<open>A\<close>, but for the
  array's own struct.\<close>

definition leaves :: "addr set \<Rightarrow> addr \<Rightarrow> 'w rt \<Rightarrow> 'w rt \<Rightarrow> bool" where
  "leaves A self st st' \<longleftrightarrow> untouched A st (st'\<lparr>dyns := (dyns st')(self := dyns st self)\<rparr>)"

lemma leaves_refl [simp]: "leaves A self st st"
  by (simp add: leaves_def)

lemma leaves_untouched: "untouched A st st' \<Longrightarrow> leaves A self st st'"
  by (auto simp: leaves_def untouched_def agree_def)

lemma leaves_iff: "leaves A self st st' \<longleftrightarrow>
    (\<forall>x \<in> A. mem st' x = mem st x \<and> allocators st' x = allocators st x \<and> arenas st' x = arenas st x \<and>
        blocks st' x = blocks st x \<and> (x \<noteq> self \<longrightarrow> dyns st' x = dyns st x) \<and> maps st' x = maps st x \<and> tables st' x = tables st x) \<and>
    selected st' = selected st \<and> seed_counter st' = seed_counter st \<and> init_phase st' = init_phase st"
  by (auto simp: leaves_def untouched_def agree_def)

lemma leaves_trans: "leaves A self st st' \<Longrightarrow> leaves A self st' st'' \<Longrightarrow> leaves A self st st''"
  by (simp add: leaves_iff)

lemma leaves_mono: "leaves B self st st' \<Longrightarrow> A \<subseteq> B \<Longrightarrow> leaves A self st st'"
  by (auto simp: leaves_def elim: untouched_mono)

lemma leaves_set_dyn: "leaves A self st (st\<lparr>dyns := (dyns st)(self := d)\<rparr>)"
  by (simp add: leaves_def)

lemma leaves_then_set_dyn: "untouched A st st' \<Longrightarrow> leaves A self st (st'\<lparr>dyns := (dyns st')(self := d)\<rparr>)"
  by (rule leaves_trans [OF leaves_untouched leaves_set_dyn])

lemma leaves_elems:
  "leaves A self st st' \<Longrightarrow> span p (n * sz) \<subseteq> A \<Longrightarrow> elems (mem st') p sz n = elems (mem st) p sz n"
  by (rule elems_cong) (auto simp: leaves_def untouched_def agree_def)

context provider
begin

lemma inv_set_dyn:
  assumes "inv L st" and "self \<in> - territory \<union> spans L"
  shows "inv L (st\<lparr>dyns := (dyns st)(self := d)\<rparr>)"
  using assms(1) by (rule stable) (use assms(2) in \<open>auto simp: agree_def\<close>)

lemma inv_store:
  assumes "inv L st" and "span p (length bs) \<subseteq> - territory \<union> spans L" and "length bs \<le> 2 ^ 64"
  shows "inv L (st\<lparr>mem := store (mem st) p bs\<rparr>)"
  using assms(1) by (rule stable) (use assms(2,3) in \<open>auto simp: agree_def intro!: store_outside\<close>)

lemma own_live:
  assumes "inv L st" and "dyn_ok h territory L st self sz" and "own_block (dyns st self) sz \<noteq> {}"
  shows "dyn_data (dyns st self) \<noteq> 0"
    and "span (dyn_data (dyns st self)) (nat (dyn_cap (dyns st self)) * unat sz) \<subseteq> territory"
    and "span (dyn_data (dyns st self)) (nat (dyn_cap (dyns st self)) * unat sz) \<inter> spans (L - own_block (dyns st self) sz) = {}"
proof -
  let ?d = "dyns st self" and ?n = "nat (dyn_cap (dyns st self)) * unat sz"
  have own: "own_block ?d sz = {(dyn_data ?d, ?n)}" and "(dyn_data ?d, ?n) \<in> L"
    using assms by (auto simp: own_block_def dyn_ok_def Let_def split: if_splits)
  with live_inside [OF assms(1)] have "block_in (L - {(dyn_data ?d, ?n)}) territory (dyn_data ?d) ?n" by blast
  then show "dyn_data ?d \<noteq> 0" "span (dyn_data ?d) ?n \<subseteq> territory" "span (dyn_data ?d) ?n \<inter> spans (L - own_block ?d sz) = {}"
    by (auto simp: block_in_def own)
qed

lemma no_empty: "inv L st \<Longrightarrow> (p, 0) \<notin> L"
  using live_inside by (fastforce simp: block_in_def)

lemma own_cut:
  assumes "inv L st" and "dyn_ok h territory L st self sz"
  shows "L - {(dyn_data (dyns st self), nat (dyn_cap (dyns st self)) * unat sz)} = L - own_block (dyns st self) sz"
  using no_empty [OF assms(1)] by (auto simp: own_block_def)

end

lemma load_slot:
  assumes "i < n"
  shows "load m (slot p sz i) sz = take sz (drop (i * sz) (load m p (n * sz)))"
proof -
  obtain k where n: "n = i + 1 + k" using assms by (metis Suc_eq_plus1 less_natE add.commute add.assoc)
  have "load m p (n * sz) = load m p (i * sz) @ load m (slot p sz i) sz @ load m (slot p sz i + of_nat sz) (k * sz)"
    using load_append [of m p "i * sz" "sz + k * sz"] load_append [of m "slot p sz i" sz "k * sz"]
    by (simp add: n slot_def algebra_simps)
  then show ?thesis by simp
qed

lemma elems_of_load:
  assumes "load m p (n * sz) = load m' p' (n * sz)" and "k \<le> n"
  shows "elems m p sz k = elems m' p' sz k"
proof -
  have "elems m p sz n = elems m' p' sz n"
    by (rule nth_equalityI) (simp_all add: load_slot [of _ n] assms(1))
  then show ?thesis using elems_take [OF assms(2)] by metis
qed

lemma checked_bytes_cases:
  assumes "0 \<le> n" and "n \<le> INT64_MAX"
  obtains (none) "loke_rt_v1_checked_bytes n sz = None" and "2 ^ 64 \<le> nat n * unat sz"
  | (some) b where "loke_rt_v1_checked_bytes n sz = Some b" and "unat b = nat n * unat sz" and "nat n * unat sz < 2 ^ 64"
proof (cases "loke_rt_v1_checked_bytes n sz")
  case None
  moreover have "i64 n" using assms by (simp add: i64_def)
  ultimately show thesis using assms checked_bytes_eq [of n sz] by (intro none) (auto split: if_splits)
next
  case (Some b)
  moreover have "i64 n" using assms by (simp add: i64_def)
  ultimately show thesis using checked_bytes_Some [of n sz b] by (intro some) auto
qed

lemma bind_nop: "dyn_allocator (dyns st self) \<noteq> 0 \<Longrightarrow> loke_rt_v1_dyn_bind self st = (Inr (), st)"
  by (simp add: loke_rt_v1_dyn_bind_def rt_simps bind_def)

lemma dyn_ok_bounds:
  assumes "dyn_ok h territory L st self sz"
  shows "0 \<le> dyn_len (dyns st self)" "dyn_len (dyns st self) \<le> dyn_cap (dyns st self)" "dyn_cap (dyns st self) \<le> INT64_MAX"
    "nat (dyn_cap (dyns st self)) * unat sz < 2 ^ 64" "dyn_allocator (dyns st self) = h"
    "self \<in> - territory \<union> spans (L - own_block (dyns st self) sz)"
  using assms by (simp_all add: dyn_ok_def Let_def)

lemma relocate_run:
  assumes "0 \<le> dyn_len (dyns st self)" and "dyn_len (dyns st self) \<le> INT64_MAX"
    and "nat (dyn_len (dyns st self)) * unat (elem_size ops) < 2 ^ 64"
  shows "dyn_relocate self ops q t st = (Inr (), st\<lparr>
    mem := store (mem st) q (load (mem st) (dyn_data (dyns st self)) (nat (dyn_len (dyns st self)) * unat (elem_size ops))),
    dyns := (dyns st)(self := (dyns st self)\<lparr>dyn_data := q, dyn_cap := t\<rparr>)\<rparr>)"
  using assms(1,2)
proof (cases rule: checked_bytes_cases [where sz = "elem_size ops"])
  case (some used)
  then show ?thesis
    by (cases "used = 0") (auto simp: dyn_relocate_def bind_def rt_simps memcpy_def set_dyn_def)
qed (use assms(3) in simp)

context provider
begin

lemma adopt_block:
  assumes inv: "inv (insert (q, nat t * unat sz) (L - own_block (dyns st self) sz)) st'" and ok: "dyn_ok h territory L st self sz"
    and same: "dyns st' self = dyns st self" and q: "(q, nat t * unat sz) \<notin> L - own_block (dyns st self) sz"
    and t: "dyn_len (dyns st self) \<le> t" "t \<le> INT64_MAX" "nat t * unat sz < 2 ^ 64" "0 < nat t * unat sz"
  defines "st'' \<equiv> st'\<lparr>dyns := (dyns st')(self := (dyns st self)\<lparr>dyn_data := q, dyn_cap := t\<rparr>)\<rparr>"
  shows "inv (insert (q, nat t * unat sz) (L - own_block (dyns st self) sz)) st''"
    and "dyn_ok h territory (insert (q, nat t * unat sz) (L - own_block (dyns st self) sz)) st'' self sz"
    and "own_block (dyns st'' self) sz = {(q, nat t * unat sz)}"
proof -
  note b = dyn_ok_bounds [OF ok]
  show "inv (insert (q, nat t * unat sz) (L - own_block (dyns st self) sz)) st''"
    unfolding st''_def using inv b(6) by (intro inv_set_dyn) auto
  show own: "own_block (dyns st'' self) sz = {(q, nat t * unat sz)}"
    using t(4) by (simp add: own_block_def st''_def)
  have cut: "insert (q, nat t * unat sz) (L - own_block (dyns st self) sz) - {(q, nat t * unat sz)} = L - own_block (dyns st self) sz"
    using q by blast
  show "dyn_ok h territory (insert (q, nat t * unat sz) (L - own_block (dyns st self) sz)) st'' self sz"
    unfolding dyn_ok_def Let_def own cut using b t by (simp add: st''_def)
qed

text \<open>Moving the storage to a capacity of \<open>t\<close> elements, as growing and shrinking do.\<close>

definition resize_storage :: "addr \<Rightarrow> 'w container_ops \<Rightarrow> u64 \<Rightarrow> u64 \<Rightarrow> int \<Rightarrow> dynamic_v1 \<Rightarrow> ('w rt, bool) proc" where
  "resize_storage self ops old new t d =
     bind (loke_rt_v1_resize P h (dyn_data d) old new (sane_container_align (elem_align ops))) (\<lambda>storage.
       if storage = 0 then return False
       else bind (set_dyn self (\<lambda>d. d\<lparr>dyn_data := storage, dyn_cap := t\<rparr>)) (\<lambda>_. return True))"

lemma resize_storage_cases:
  assumes inv: "inv L st" and ok: "dyn_ok h territory L st self (elem_size ops)"
    and al: "pow2 (sane_container_align (elem_align ops))"
    and old: "unat old = nat (dyn_cap (dyns st self)) * unat (elem_size ops)"
    and new: "unat new = nat t * unat (elem_size ops)" "nat t * unat (elem_size ops) < 2 ^ 64" "0 < nat t * unat (elem_size ops)"
    and t: "dyn_len (dyns st self) \<le> t" "t \<le> INT64_MAX"
  obtains (refused) st' where "resize_storage self ops old new t (dyns st self) st = (Inr False, st')" and "inv L st'"
      and "dyns st' self = dyns st self" and "untouched (- territory \<union> spans L) st st'"
  | (moved) st' L' where "resize_storage self ops old new t (dyns st self) st = (Inr True, st')" and "inv L' st'"
      and "dyn_ok h territory L' st' self (elem_size ops)" and "contents st' self (elem_size ops) = contents st self (elem_size ops)"
      and "dyn_len (dyns st' self) = dyn_len (dyns st self)" and "dyn_cap (dyns st' self) = t"
      and "L' - own_block (dyns st' self) (elem_size ops) = L - own_block (dyns st self) (elem_size ops)"
      and "leaves (- territory \<union> spans (L - own_block (dyns st self) (elem_size ops))) self st st'"
proof -
  let ?d = "dyns st self" and ?sz = "elem_size ops"
  note b = dyn_ok_bounds [OF ok]
  have old': "dyn_data ?d = 0 \<and> old = 0 \<or> (dyn_data ?d, unat old) \<in> L"
    using ok old by (auto simp: dyn_ok_def Let_def own_block_def unat_eq_zero split: if_splits)
  have "0 < new" using new(1,3) by (simp add: word_less_nat_alt)
  then obtain q st' where res: "loke_rt_v1_resize P h (dyn_data ?d) old new (sane_container_align (elem_align ops)) st = (Inr q, st')"
    and q: "if q = 0 then inv L st' \<and> untouched (- territory \<union> spans L) st st'
      else inv (insert (q, unat new) (L - {(dyn_data ?d, unat old)})) st' \<and>
        untouched (- territory \<union> spans (L - {(dyn_data ?d, unat old)})) st st' \<and> (q, unat new) \<notin> L - {(dyn_data ?d, unat old)} \<and>
        load (mem st') q (min (unat old) (unat new)) = load (mem st) (dyn_data ?d) (min (unat old) (unat new))"
    using resize_law [OF inv _ al old'] by blast
  show thesis
  proof (cases "q = 0")
    case True
    have "self \<in> - territory \<union> spans L" using b(6) spans_mono [of "L - own_block ?d ?sz" L] by auto
    with True q have "dyns st' self = ?d" by (auto intro: untouched_dyns)
    with True q res show thesis by (intro refused [of st']) (simp_all add: resize_storage_def bind_def rt_simps)
  next
    case False
    have cut: "L - {(dyn_data ?d, unat old)} = L - own_block ?d ?sz" unfolding old by (rule own_cut [OF inv ok])
    note q' = q [unfolded cut new(1), simplified False if_False]
    let ?L = "insert (q, nat t * unat ?sz) (L - own_block ?d ?sz)"
    let ?st = "st'\<lparr>dyns := (dyns st')(self := ?d\<lparr>dyn_data := q, dyn_cap := t\<rparr>)\<rparr>"
    have same: "dyns st' self = ?d" using q' b(6) by (intro untouched_dyns) auto
    note ad = adopt_block [of q t ?sz L st self st', OF _ ok same _ t new(2,3)]
    have "load (mem st') q (min (nat (dyn_cap ?d)) (nat t) * unat ?sz) = load (mem st) (dyn_data ?d) (min (nat (dyn_cap ?d)) (nat t) * unat ?sz)"
      using q' old by (simp add: nat_mult_min_left)
    moreover have "nat (dyn_len ?d) \<le> min (nat (dyn_cap ?d)) (nat t)" using b(2) t(1) by (simp add: nat_mono)
    ultimately have "contents ?st self ?sz = contents st self ?sz"
      unfolding contents_def by (simp add: elems_of_load)
    moreover have "resize_storage self ops old new t ?d st = (Inr True, ?st)"
      using res False same by (simp add: resize_storage_def bind_def rt_simps set_dyn_run)
    moreover have "leaves (- territory \<union> spans (L - own_block ?d ?sz)) self st ?st"
      using q' by (intro leaves_then_set_dyn) auto
    ultimately show thesis
      using q' ad by (intro moved [of ?st ?L]) auto
  qed
qed

lemma reserve_cases:
  assumes inv: "inv L st" and ok: "dyn_ok h territory L st self (elem_size ops)" and m: "0 \<le> m" "m \<le> INT64_MAX"
    and al: "pow2 (sane_container_align (elem_align ops))"
  obtains (refused) st' where "loke_rt_v1_dyn_reserve P self ops m st = (Inr False, st')" and "inv L st'"
      and "dyns st' self = dyns st self" and "untouched (- territory \<union> spans L) st st'"
  | (reserved) st' L' where "loke_rt_v1_dyn_reserve P self ops m st = (Inr True, st')" and "inv L' st'"
      and "dyn_ok h territory L' st' self (elem_size ops)" and "contents st' self (elem_size ops) = contents st self (elem_size ops)"
      and "dyn_len (dyns st' self) = dyn_len (dyns st self)" and "m \<le> dyn_cap (dyns st' self)"
      and "L' - own_block (dyns st' self) (elem_size ops) = L - own_block (dyns st self) (elem_size ops)"
      and "leaves (- territory \<union> spans (L - own_block (dyns st self) (elem_size ops))) self st st'"
proof -
  let ?d = "dyns st self" and ?sz = "elem_size ops"
  note b = dyn_ok_bounds [OF ok]
  have cap: "0 \<le> dyn_cap ?d" using b by simp
  have bound: "loke_rt_v1_dyn_bind self st = (Inr (), st)" using handle [OF inv] b(5) by (simp add: bind_nop)
  note unfolds = loke_rt_v1_dyn_reserve_def bind_def [of "loke_rt_v1_dyn_bind self"] bind_def [of get_state] rt_simps Let_def
  show thesis
  proof (cases "m \<le> dyn_cap ?d")
    case True
    then show thesis using bound m inv ok by (intro reserved [of st L]) (simp_all add: unfolds)
  next
    case small: False
    obtain t where t: "dyn_growth_target (dyn_cap ?d) m = Some t" "m \<le> t" "8 \<le> t" "t \<le> INT64_MAX"
      using growth_target [OF cap b(3) m(2)] by blast
    obtain old where old: "loke_rt_v1_checked_bytes (dyn_cap ?d) ?sz = Some old" "unat old = nat (dyn_cap ?d) * unat ?sz"
      using checked_bytes_cases [OF cap b(3), of ?sz] b(4) by (metis linorder_not_less)
    have "0 \<le> t" using t(3) by simp
    from this t(4) show thesis
    proof (cases rule: checked_bytes_cases [where sz = ?sz])
      case none
      then show thesis using bound small t(1) m inv by (intro refused [of st]) (simp_all add: unfolds)
    next
      case (some new)
      show thesis
      proof (cases "new = 0")
        case True
        with some t(3) have sz: "unat ?sz = 0" by auto
        let ?st = "st\<lparr>dyns := (dyns st)(self := ?d\<lparr>dyn_cap := t\<rparr>)\<rparr>"
        have own: "own_block d ?sz = {}" for d using sz by (simp add: own_block_def)
        have "inv L ?st" using b(6) by (intro inv_set_dyn [OF inv]) (simp add: own)
        moreover have "dyn_ok h territory L ?st self ?sz"
          using ok t small b by (simp add: dyn_ok_def Let_def own sz)
        moreover have "loke_rt_v1_dyn_reserve P self ops m st = (Inr True, ?st)"
          using True bound small t(1) m old some by (simp add: unfolds) (simp add: bind_def rt_simps set_dyn_run)
        ultimately show thesis
          using t(2) by (intro reserved [of ?st L]) (simp_all add: own contents_def leaves_set_dyn)
      next
        case False
        have run: "loke_rt_v1_dyn_reserve P self ops m st = resize_storage self ops old new t ?d st"
          using False bound small t(1) m old some b(5) by (simp add: unfolds resize_storage_def)
        have pos: "0 < nat t * unat ?sz" using False some(2) by (metis gr0I unat_eq_zero)
        have len: "dyn_len ?d \<le> t" using b(2) small t(2) by simp
        from inv ok al old(2) some(2,3) pos len t(4) show thesis
          by (cases rule: resize_storage_cases) (use run t(2) in \<open>auto intro: refused reserved\<close>)
      qed
    qed
  qed
qed

lemma relocated:
  assumes inv: "inv L st" and ok: "dyn_ok h territory L st self (elem_size ops)" and t: "dyn_len (dyns st self) \<le> t"
    and un: "untouched (- territory \<union> spans L) st st'"
    and inv': "inv (insert (q, nat t * unat (elem_size ops)) L) st'" and new: "(q, nat t * unat (elem_size ops)) \<notin> L"
  obtains st'' where "dyn_relocate self ops q t st' = (Inr (), st'')" and "inv (insert (q, nat t * unat (elem_size ops)) L) st''"
    and "dyns st'' self = (dyns st self)\<lparr>dyn_data := q, dyn_cap := t\<rparr>" and "leaves (- territory \<union> spans L) self st st''"
    and "elems (mem st'') q (unat (elem_size ops)) (nat (dyn_len (dyns st self))) = contents st self (elem_size ops)"
proof -
  let ?d = "dyns st self" and ?n = "nat (dyn_len (dyns st self))" and ?z = "unat (elem_size ops)"
  note b = dyn_ok_bounds [OF ok]
  have self: "self \<in> - territory \<union> spans L" using b(6) spans_mono [of "L - own_block ?d (elem_size ops)" L] by auto
  with un have same: "dyns st' self = ?d" by (rule untouched_dyns)
  let ?m = "st'\<lparr>mem := store (mem st') q (load (mem st') (dyn_data ?d) (?n * ?z))\<rparr>"
  let ?st = "?m\<lparr>dyns := (dyns ?m)(self := ?d\<lparr>dyn_data := q, dyn_cap := t\<rparr>)\<rparr>"
  have small: "?n * ?z \<le> nat (dyn_cap ?d) * ?z" "?n * ?z \<le> nat t * ?z" using b(2) t by (auto intro!: mult_le_mono1)
  then have fits: "?n * ?z < 2 ^ 64" using b(4) by linarith
  have here: "span q (?n * ?z) \<subseteq> span q (nat t * ?z)" using span_sub [of 0 "?n * ?z" _ q] small(2) by simp
  have blk: "block_in L territory q (nat t * ?z)" using live_inside [OF inv' insertI1] new by simp
  have "inv (insert (q, nat t * ?z) L) ?m" using here fits by (intro inv_store [OF inv']) auto
  then have inv2: "inv (insert (q, nat t * ?z) L) ?st" by (rule inv_set_dyn) (use self in auto)
  have "untouched (- territory \<union> spans L) st' ?m" using here blk fits by (intro untouched_store) (auto simp: block_in_def)
  then have lv: "leaves (- territory \<union> spans L) self st ?st" by (rule leaves_then_set_dyn [OF untouched_trans [OF un]])
  have "elems (mem ?st) q ?z ?n = elems (mem st') (dyn_data ?d) ?z ?n"
    using load_store_same [of "load (mem st') (dyn_data ?d) (?n * ?z)" "mem st'" q] fits
    by (intro elems_of_load [of _ _ ?n]) simp_all
  also have "\<dots> = contents st self (elem_size ops)"
  proof (cases "own_block ?d (elem_size ops) = {}")
    case True
    then have "?n = 0 \<or> ?z = 0" using small(1) by (auto simp: own_block_def split: if_splits)
    then show ?thesis by (auto simp: contents_def elems_def)
  next
    case False
    then have "(dyn_data ?d, nat (dyn_cap ?d) * ?z) \<in> L"
      using ok by (auto simp: dyn_ok_def Let_def own_block_def split: if_splits)
    then have "span (dyn_data ?d) (?n * ?z) \<subseteq> spans L" using small(1) by (rule spans_member)
    then show ?thesis unfolding contents_def by (intro untouched_elems [OF un]) auto
  qed
  finally show thesis
    using relocate_run [of st' self ops q t] same b(1-3) fits inv2 lv by (intro that [of ?st]) simp_all
qed

lemma regrow_cases:
  assumes inv: "inv L st" and ok: "dyn_ok h territory L st self (elem_size ops)"
    and need: "dyn_len (dyns st self) \<le> need" "need \<le> INT64_MAX"
    and al: "pow2 (sane_container_align (elem_align ops))"
  defines "undo \<equiv> \<lparr>old_data = dyn_data (dyns st self), old_cap = dyn_cap (dyns st self), grew = False\<rparr>"
  obtains (refused) st' where "dyn_regrow P self ops need force st = (Inr (False, undo), st')" and "inv L st'"
      and "dyns st' self = dyns st self" and "untouched (- territory \<union> spans L) st st'"
  | (kept) "dyn_regrow P self ops need force st = (Inr (True, undo), st)" and "need \<le> dyn_cap (dyns st self)" and "\<not> force"
  | (sizeless) t where "dyn_regrow P self ops need force st =
        (Inr (True, undo), st\<lparr>dyns := (dyns st)(self := (dyns st self)\<lparr>dyn_cap := t\<rparr>)\<rparr>)"
      and "elem_size ops = 0" and "need \<le> t" and "t \<le> INT64_MAX"
  | (fresh) st' q t where "dyn_regrow P self ops need force st = (Inr (True, undo\<lparr>grew := True\<rparr>), st')"
      and "inv (insert (q, nat t * unat (elem_size ops)) L) st'" and "(q, nat t * unat (elem_size ops)) \<notin> L"
      and "need \<le> t" and "t \<le> INT64_MAX" and "nat t * unat (elem_size ops) < 2 ^ 64" and "0 < nat t * unat (elem_size ops)"
      and "dyns st' self = (dyns st self)\<lparr>dyn_data := q, dyn_cap := t\<rparr>"
      and "leaves (- territory \<union> spans L) self st st'"
      and "elems (mem st') q (unat (elem_size ops)) (nat (dyn_len (dyns st self))) = contents st self (elem_size ops)"
proof -
  let ?d = "dyns st self" and ?sz = "elem_size ops"
  note b = dyn_ok_bounds [OF ok]
  have cap: "0 \<le> dyn_cap ?d" using b by simp
  note unfolds = dyn_regrow_def bind_def [of get_state] rt_simps Let_def
  show thesis
  proof (cases "need \<le> dyn_cap ?d \<and> \<not> force")
    case True
    then show thesis by (intro kept) (simp_all add: unfolds undo_def)
  next
    case grow: False
    obtain t where t: "dyn_growth_target (dyn_cap ?d) need = Some t" "need \<le> t" "8 \<le> t" "t \<le> INT64_MAX"
      using growth_target [OF cap b(3) need(2)] by blast
    have "0 \<le> t" using t(3) by simp
    from this t(4) show thesis
    proof (cases rule: checked_bytes_cases [where sz = ?sz])
      case none
      then show thesis using grow t(1) inv by (intro refused [of st]) (auto simp: unfolds undo_def)
    next
      case (some bytes)
      show thesis
      proof (cases "bytes = 0")
        case True
        with some t(3) have "unat ?sz = 0" by auto
        with True some grow t show thesis
          by (intro sizeless [of t]) (auto simp: unfolds undo_def bind_def set_dyn_run unat_eq_zero)
      next
        case False
        then obtain q st' where q: "loke_rt_v1_alloc P h bytes (sane_container_align (elem_align ops)) st = (Inr q, st')"
            "untouched (- territory \<union> spans L) st st'"
            "if q = 0 then inv L st' else inv (insert (q, unat bytes) L) st' \<and> (q, unat bytes) \<notin> L \<and> unat (sane_container_align (elem_align ops)) dvd unat q"
          using alloc_law [OF inv _ al, of bytes] by (metis word_gt_0)
        have "self \<in> - territory \<union> spans L" using b(6) spans_mono [of "L - own_block ?d ?sz" L] by auto
        with q(2) have same: "dyns st' self = ?d" by (rule untouched_dyns)
        have run: "dyn_regrow P self ops need force st =
            (if q = 0 then (Inr (False, undo), st')
             else bind (dyn_relocate self ops q t) (\<lambda>_. return (True, undo\<lparr>grew := True\<rparr>)) st')"
          using grow t(1) some(1) False b(5) q(1)
          by (auto simp: unfolds undo_def bind_def [of "loke_rt_v1_alloc _ _ _ _"])
        show thesis
        proof (cases "q = 0")
          case True
          with run q same show thesis by (intro refused [of st']) simp_all
        next
          case moved: False
          have len: "dyn_len ?d \<le> t" using need t(2) by simp
          have inv': "inv (insert (q, nat t * unat ?sz) L) st'" and new: "(q, nat t * unat ?sz) \<notin> L" using q(3) moved some(2) by auto
          from inv ok len q(2) inv' new show thesis
          proof (rule relocated)
            fix st'' assume st'': "dyn_relocate self ops q t st' = (Inr (), st'')" "inv (insert (q, nat t * unat ?sz) L) st''"
              "dyns st'' self = ?d\<lparr>dyn_data := q, dyn_cap := t\<rparr>" "leaves (- territory \<union> spans L) self st st''"
              "elems (mem st'') q (unat ?sz) (nat (dyn_len ?d)) = contents st self ?sz"
            have "dyn_regrow P self ops need force st = (Inr (True, undo\<lparr>grew := True\<rparr>), st'')"
              using run moved st''(1) by (simp add: bind_def rt_simps)
            then show thesis using st''(2-5) new t some(3) False some(2)
              by (intro fresh [of st'' q t]) (auto simp: unat_eq_zero intro: gr0I)
          qed
        qed
      qed
    qed
  qed
qed

lemma commit_run:
  assumes inv: "inv (insert (q, k) L) st'" and q: "(q, k) \<notin> L" and ok: "dyn_ok h territory L st self (elem_size ops)"
    and h: "dyn_allocator (dyns st' self) = h"
  obtains st'' where
    "dyn_regrow_commit P self ops \<lparr>old_data = dyn_data (dyns st self), old_cap = dyn_cap (dyns st self), grew = True\<rparr> st' = (Inr (), st'')"
    and "inv (insert (q, k) (L - own_block (dyns st self) (elem_size ops))) st''"
    and "untouched (- territory \<union> spans (insert (q, k) (L - own_block (dyns st self) (elem_size ops)))) st' st''"
proof (cases "own_block (dyns st self) (elem_size ops) = {}")
  case True
  then have "dyn_data (dyns st self) = 0" using ok by (simp add: dyn_ok_def Let_def)
  with True inv show thesis
    by (intro that [of st']) (simp_all add: dyn_regrow_commit_def bind_def rt_simps)
next
  case False
  let ?d = "dyns st self" and ?sz = "elem_size ops"
  have own: "own_block ?d ?sz = {(dyn_data ?d, nat (dyn_cap ?d) * unat ?sz)}" and pos: "0 < nat (dyn_cap ?d) * unat ?sz"
    using False by (auto simp: own_block_def split: if_splits)
  have old_in: "(dyn_data ?d, nat (dyn_cap ?d) * unat ?sz) \<in> L" using ok own by (simp add: dyn_ok_def Let_def)
  note b = dyn_ok_bounds [OF ok]
  have cap: "0 \<le> dyn_cap ?d" using b by simp
  obtain old where old: "loke_rt_v1_checked_bytes (dyn_cap ?d) ?sz = Some old" "unat old = nat (dyn_cap ?d) * unat ?sz"
    using checked_bytes_cases [OF cap b(3), of ?sz] b(4) by (metis linorder_not_less)
  have nz: "old \<noteq> 0" "dyn_data ?d \<noteq> 0"
    using pos old(2) live_inside [OF inv, of "dyn_data ?d"] old_in by (auto simp: block_in_def)
  have "(dyn_data ?d, unat old) \<in> insert (q, k) L" using old(2) old_in by simp
  from free_law [OF inv this] obtain st'' where
      "loke_rt_v1_free P h (dyn_data ?d) old (sane_container_align (elem_align ops)) st' = (Inr (), st'')"
      "inv (insert (q, k) L - {(dyn_data ?d, unat old)}) st''"
      "untouched (- territory \<union> spans (insert (q, k) L - {(dyn_data ?d, unat old)})) st' st''" by blast
  moreover have "insert (q, k) L - {(dyn_data ?d, unat old)} = insert (q, k) (L - own_block ?d ?sz)"
    using q old_in old(2) by (auto simp: own)
  ultimately show thesis
    using nz old(1) h by (intro that [of st'']) (simp_all add: dyn_regrow_commit_def bind_def rt_simps)
qed

lemma rollback_run:
  assumes inv: "inv (insert (q, nat t * unat (elem_size ops)) L) st'" and q: "(q, nat t * unat (elem_size ops)) \<notin> L"
    and ok: "dyn_ok h territory L st self (elem_size ops)" and t: "0 \<le> t" "t \<le> INT64_MAX" "nat t * unat (elem_size ops) < 2 ^ 64"
      "0 < nat t * unat (elem_size ops)"
    and d: "dyns st' self = (dyns st self)\<lparr>dyn_data := q, dyn_cap := t\<rparr>"
  obtains st'' where
    "dyn_regrow_rollback P self ops \<lparr>old_data = dyn_data (dyns st self), old_cap = dyn_cap (dyns st self), grew = True\<rparr> st' = (Inr (), st'')"
    and "inv L st''" and "dyns st'' self = dyns st self" and "leaves (- territory \<union> spans L) self st' st''"
proof -
  let ?d = "dyns st self" and ?sz = "elem_size ops"
  note b = dyn_ok_bounds [OF ok]
  from t(1,2) show thesis
  proof (cases rule: checked_bytes_cases [where sz = ?sz])
    case (some bytes)
    have "(q, unat bytes) \<in> insert (q, nat t * unat ?sz) L" using some(2) by simp
    from free_law [OF inv this] obtain st1 where free:
        "loke_rt_v1_free P h q bytes (sane_container_align (elem_align ops)) st' = (Inr (), st1)"
        "inv L st1" "untouched (- territory \<union> spans L) st' st1"
      using q some(2) by auto
    let ?st = "st1\<lparr>dyns := (dyns st1)(self := ?d)\<rparr>"
    have self: "self \<in> - territory \<union> spans L" using b(6) spans_mono [of "L - own_block ?d ?sz" L] by auto
    then have same: "dyns st1 self = ?d\<lparr>dyn_data := q, dyn_cap := t\<rparr>" using free(3) d by (simp add: untouched_dyns)
    have "bytes \<noteq> 0" using some(2) t(4) by auto
    then have "dyn_regrow_rollback P self ops \<lparr>old_data = dyn_data ?d, old_cap = dyn_cap ?d, grew = True\<rparr> st' = (Inr (), ?st)"
      using some(1) d b(5) free(1) same by (simp add: dyn_regrow_rollback_def bind_def rt_simps set_dyn_run)
    then show thesis
      using free self by (intro that [of ?st] inv_set_dyn leaves_then_set_dyn) auto
  qed (use t(3) in simp)
qed

end

lemma fill_plain:
  assumes "elem_clone ops = None" and "0 \<le> at" and "0 \<le> n" and "n \<le> INT64_MAX" and "nat n * unat (elem_size ops) < 2 ^ 64"
  shows "dyn_fill self ops at src owned n st = (Inr True, st\<lparr>mem :=
    store (mem st) (slot (dyn_data (dyns st self)) (unat (elem_size ops)) (nat at)) (load (mem st) src (nat n * unat (elem_size ops)))\<rparr>)"
  using assms(3,4)
proof (cases rule: checked_bytes_cases [where sz = "elem_size ops"])
  case (some bytes)
  then show ?thesis
    using assms(1,2) by (cases "bytes = 0") (auto simp: dyn_fill_def bind_def rt_simps memcpy_def dyn_at_slot)
qed (use assms(5) in simp)

text \<open>Where the elements of an append or insert may come from: anywhere outside the provider or in
  a live allocation, the array's own included, but not the uninitialized capacity.\<close>

definition source_ok :: "addr set \<Rightarrow> live \<Rightarrow> 'w rt \<Rightarrow> addr \<Rightarrow> u64 \<Rightarrow> addr \<Rightarrow> int \<Rightarrow> bool" where
  "source_ok territory L st self sz src n \<longleftrightarrow>
     (let d = dyns st self in
      span src (nat n * unat sz) \<subseteq> - territory \<union> spans L \<and>
      span src (nat n * unat sz) \<inter>
        span (slot (dyn_data d) (unat sz) (nat (dyn_len d))) (nat (dyn_cap d - dyn_len d) * unat sz) = {})"

context provider
begin

text \<open>Writing a run of elements into a block the array owns.\<close>

lemma write_own:
  assumes inv: "inv L st" and own: "(p, nat cap * z) \<in> L" and i: "i + length es \<le> nat cap"
    and es: "\<forall>e \<in> set es. length e = z" and fits: "nat cap * z < 2 ^ 64"
  defines "st' \<equiv> st\<lparr>mem := store (mem st) (slot p z i) (concat es)\<rparr>"
  shows "inv L st'" and "untouched (- territory \<union> spans (L - {(p, nat cap * z)})) st st'"
    and "k \<le> nat cap \<Longrightarrow> i + length es \<le> k \<Longrightarrow>
      elems (mem st') p z k = take i (elems (mem st) p z k) @ es @ drop (i + length es) (elems (mem st) p z k)"
proof -
  have len: "length (concat es) = length es * z" using es by (rule length_concat_sized)
  have here: "span (slot p z i) (length (concat es)) \<subseteq> span p (nat cap * z)"
    unfolding len using i by (rule span_slots)
  have small: "length (concat es) \<le> 2 ^ 64"
    unfolding len using i fits by (metis add_leD2 le_trans less_imp_le mult_le_mono1)
  have "block_in (L - {(p, nat cap * z)}) territory p (nat cap * z)" using live_inside [OF inv own] .
  with here small show "untouched (- territory \<union> spans (L - {(p, nat cap * z)})) st st'"
    unfolding st'_def by (intro untouched_store) (auto simp: block_in_def)
  show "inv L st'" unfolding st'_def using here small spans_member [OF own order_refl] by (intro inv_store [OF inv]) auto
  show "elems (mem st') p z k = take i (elems (mem st) p z k) @ es @ drop (i + length es) (elems (mem st) p z k)"
    if "k \<le> nat cap" "i + length es \<le> k"
  proof -
    have "k * z \<le> 2 ^ 64" using that(1) fits by (meson le_trans less_imp_le mult_le_mono1)
    then show ?thesis unfolding st'_def using that(2) es by (simp add: elems_store_run)
  qed
qed

lemma dyn_ok_len:
  assumes ok: "dyn_ok h territory L st self sz" and d: "dyns st' self = (dyns st self)\<lparr>dyn_len := n\<rparr>"
    and n: "0 \<le> n" "n \<le> dyn_cap (dyns st self)"
  shows "dyn_ok h territory L st' self sz" and "own_block (dyns st' self) sz = own_block (dyns st self) sz"
proof -
  show own: "own_block (dyns st' self) sz = own_block (dyns st self) sz" by (simp add: own_block_def d)
  show "dyn_ok h territory L st' self sz" using ok n unfolding dyn_ok_def Let_def own by (simp add: d)
qed

text \<open>Storing a run into the array's current block and setting its length.\<close>

lemma write_elements:
  assumes inv: "inv L st" and ok: "dyn_ok h territory L st self sz" and es: "\<forall>e \<in> set es. length e = unat sz"
    and i: "i + length es \<le> nat n" and n: "0 \<le> n" "n \<le> dyn_cap (dyns st self)"
  defines "p \<equiv> dyn_data (dyns st self)"
  defines "st' \<equiv> st\<lparr>mem := store (mem st) (slot p (unat sz) i) (concat es), dyns := (dyns st)(self := (dyns st self)\<lparr>dyn_len := n\<rparr>)\<rparr>"
  shows "inv L st'" and "dyn_ok h territory L st' self sz" and "own_block (dyns st' self) sz = own_block (dyns st self) sz"
    and "contents st' self sz =
      take i (elems (mem st) p (unat sz) (nat n)) @ es @ drop (i + length es) (elems (mem st) p (unat sz) (nat n))"
    and "leaves (- territory \<union> spans (L - own_block (dyns st self) sz)) self st st'"
proof -
  let ?d = "dyns st self" and ?z = "unat sz"
  note b = dyn_ok_bounds [OF ok]
  have d': "dyns st' self = ?d\<lparr>dyn_len := n\<rparr>" by (simp add: st'_def)
  show "dyn_ok h territory L st' self sz" "own_block (dyns st' self) sz = own_block ?d sz"
    using dyn_ok_len [OF ok d' n] by auto
  have cap: "i + length es \<le> nat (dyn_cap ?d)" "nat n \<le> nat (dyn_cap ?d)" using i n by auto
  have self: "self \<in> - territory \<union> spans L" using b(6) spans_mono [of "L - own_block ?d sz" L] by auto
  let ?st = "st\<lparr>mem := store (mem st) (slot p ?z i) (concat es)\<rparr>"
  have st': "st' = ?st\<lparr>dyns := (dyns ?st)(self := ?d\<lparr>dyn_len := n\<rparr>)\<rparr>" by (simp add: st'_def)
  have "inv L ?st \<and> untouched (- territory \<union> spans (L - own_block ?d sz)) st ?st \<and>
    elems (mem ?st) p ?z (nat n) = take i (elems (mem st) p ?z (nat n)) @ es @ drop (i + length es) (elems (mem st) p ?z (nat n))"
  proof (cases "own_block ?d sz = {}")
    case True
    have none: "concat es = []"
    proof (cases "?z = 0")
      case False
      with True i n have "es = []" by (auto simp: own_block_def split: if_splits)
      then show ?thesis by simp
    qed (use es in auto)
    have "elems (mem st) p ?z (nat n) = take i (elems (mem st) p ?z (nat n)) @ es @ drop (i + length es) (elems (mem st) p ?z (nat n))"
    proof (cases "?z = 0")
      case z: True
      show ?thesis
        using es i z by (intro nth_equalityI) (auto simp: nth_append)
    next
      case False
      with True i n show ?thesis by (auto simp: own_block_def split: if_splits)
    qed
    with inv show ?thesis by (simp add: none)
  next
    case False
    then have own: "own_block ?d sz = {(p, nat (dyn_cap ?d) * ?z)}" by (auto simp: own_block_def p_def split: if_splits)
    with ok have mem: "(p, nat (dyn_cap ?d) * ?z) \<in> L" by (simp add: dyn_ok_def Let_def)
    show ?thesis
      using write_own [OF inv mem cap(1) es b(4)] cap(2) i by (simp add: own)
  qed
  then have *: "inv L ?st" "untouched (- territory \<union> spans (L - own_block ?d sz)) st ?st"
    "elems (mem ?st) p ?z (nat n) = take i (elems (mem st) p ?z (nat n)) @ es @ drop (i + length es) (elems (mem st) p ?z (nat n))"
    by blast+
  show "inv L st'" unfolding st' by (rule inv_set_dyn [OF *(1) self])
  show "leaves (- territory \<union> spans (L - own_block ?d sz)) self st st'" unfolding st' by (rule leaves_then_set_dyn [OF *(2)])
  show "contents st' self sz = take i (elems (mem st) p ?z (nat n)) @ es @ drop (i + length es) (elems (mem st) p ?z (nat n))"
    using *(3) by (simp add: contents_def d' p_def) (simp add: st'_def p_def)
qed

text \<open>Growth as its callers see it: refused with nothing changed, or storage for \<open>need\<close> elements
  holding the same elements, with the old block still live until the commit.\<close>

lemma regrow_grown:
  assumes inv: "inv L st" and ok: "dyn_ok h territory L st self (elem_size ops)"
    and need: "dyn_len (dyns st self) \<le> need" "need \<le> INT64_MAX"
    and al: "pow2 (sane_container_align (elem_align ops))"
  obtains (refused) undo st' where "dyn_regrow P self ops need force st = (Inr (False, undo), st')" and "inv L st'"
      and "dyns st' self = dyns st self" and "untouched (- territory \<union> spans L) st st'"
  | (grown) undo st' own where "dyn_regrow P self ops need force st = (Inr (True, undo), st')"
      and "own = own_block (dyns st' self) (elem_size ops)"
      and "inv (L \<union> own) st'" and "dyn_ok h territory (L \<union> own) st' self (elem_size ops)"
      and "contents st' self (elem_size ops) = contents st self (elem_size ops)"
      and "dyn_len (dyns st' self) = dyn_len (dyns st self)" and "need \<le> dyn_cap (dyns st' self)"
      and "leaves (- territory \<union> spans L) self st st'"
      and "\<not> force \<and> dyns st' self = dyns st self \<or> elem_size ops = 0 \<or> own \<inter> L = {}"
      and "\<And>st1. inv (L \<union> own) st1 \<Longrightarrow> dyn_allocator (dyns st1 self) = h \<Longrightarrow> \<exists>st2.
        dyn_regrow_commit P self ops undo st1 = (Inr (), st2) \<and> inv (L - own_block (dyns st self) (elem_size ops) \<union> own) st2 \<and>
        untouched (- territory \<union> spans (L - own_block (dyns st self) (elem_size ops) \<union> own)) st1 st2"
      and "\<And>st1. inv (L \<union> own) st1 \<Longrightarrow> dyns st1 self = dyns st' self \<Longrightarrow> \<exists>st2.
        dyn_regrow_rollback P self ops undo st1 = (Inr (), st2) \<and> inv L st2 \<and> leaves (- territory \<union> spans L) self st1 st2 \<and>
        (dyns st2 self = dyns st self \<or> elem_size ops = 0 \<and> dyns st2 self = dyns st' self)"
  using inv ok need al
proof (cases rule: regrow_cases [where force = force])
  case (refused st')
  then show thesis by (rule that(1))
next
  case kept
  have "own_block (dyns st self) (elem_size ops) \<subseteq> L" using ok by (simp add: dyn_ok_def Let_def)
  then have L: "L \<union> own_block (dyns st self) (elem_size ops) = L" "L - own_block (dyns st self) (elem_size ops) \<union> own_block (dyns st self) (elem_size ops) = L"
    by auto
  show thesis
    using kept inv ok need by (intro that(2) [OF kept(1) refl])
      (auto simp: L dyn_regrow_commit_def dyn_regrow_rollback_def bind_def rt_simps)
next
  case (sizeless t)
  let ?st = "st\<lparr>dyns := (dyns st)(self := (dyns st self)\<lparr>dyn_cap := t\<rparr>)\<rparr>"
  note b = dyn_ok_bounds [OF ok]
  have self: "self \<in> - territory \<union> spans L" using b(6) by (simp add: sizeless(2))
  have "inv L ?st" using inv self by (rule inv_set_dyn)
  moreover have "dyn_ok h territory L ?st self (elem_size ops)"
    using ok sizeless need by (auto simp: dyn_ok_def Let_def)
  ultimately show thesis
    using sizeless by (intro that(2) [OF sizeless(1) refl])
      (auto simp: contents_def leaves_set_dyn dyn_regrow_commit_def dyn_regrow_rollback_def bind_def rt_simps)
next
  case (fresh st' q t)
  let ?z = "unat (elem_size ops)"
  have own: "own_block (dyns st' self) (elem_size ops) = {(q, nat t * ?z)}" using fresh by (simp add: own_block_def)
  note b = dyn_ok_bounds [OF ok]
  have cut: "insert (q, nat t * ?z) L - {(q, nat t * ?z)} = L" using fresh(3) by auto
  have self: "self \<in> - territory \<union> spans L"
    using b(6) spans_mono [of "L - own_block (dyns st self) (elem_size ops)" L] by auto
  have ok': "dyn_ok h territory (insert (q, nat t * ?z) L) st' self (elem_size ops)"
    unfolding dyn_ok_def Let_def own cut using fresh b need self by auto
  have t: "0 \<le> t" using b(1) need(1) fresh(4) by simp
  show thesis
  proof (rule that(2) [OF fresh(1) refl, unfolded own])
    show "inv (L \<union> {(q, nat t * ?z)}) st'" "dyn_ok h territory (L \<union> {(q, nat t * ?z)}) st' self (elem_size ops)"
      using fresh(2) ok' by simp_all
    show "contents st' self (elem_size ops) = contents st self (elem_size ops)"
      using fresh(10) by (simp add: contents_def fresh(8))
    show "\<exists>st2. dyn_regrow_commit P self ops
        (\<lparr>old_data = dyn_data (dyns st self), old_cap = dyn_cap (dyns st self), grew = False\<rparr>\<lparr>grew := True\<rparr>) st1 = (Inr (), st2) \<and>
        inv (L - own_block (dyns st self) (elem_size ops) \<union> {(q, nat t * ?z)}) st2 \<and>
        untouched (- territory \<union> spans (L - own_block (dyns st self) (elem_size ops) \<union> {(q, nat t * ?z)})) st1 st2"
      if "inv (L \<union> {(q, nat t * ?z)}) st1" "dyn_allocator (dyns st1 self) = h" for st1
    proof -
      have "inv (insert (q, nat t * ?z) L) st1" using that by simp
      from commit_run [OF this fresh(3) ok that(2)] show ?thesis unfolding Un_insert_right Un_empty_right by auto
    qed
    show "\<exists>st2. dyn_regrow_rollback P self ops
        (\<lparr>old_data = dyn_data (dyns st self), old_cap = dyn_cap (dyns st self), grew = False\<rparr>\<lparr>grew := True\<rparr>) st1 = (Inr (), st2) \<and>
        inv L st2 \<and> leaves (- territory \<union> spans L) self st1 st2 \<and>
        (dyns st2 self = dyns st self \<or> elem_size ops = 0 \<and> dyns st2 self = dyns st' self)"
      if "inv (L \<union> {(q, nat t * ?z)}) st1" "dyns st1 self = dyns st' self" for st1
    proof -
      have "inv (insert (q, nat t * ?z) L) st1" using that by simp
      from rollback_run [OF this fresh(3) ok t fresh(5-7)] that(2) fresh(8) show ?thesis by auto
    qed
  qed (use fresh in auto)
qed

lemma contents_untouched:
  assumes "dyn_ok h territory L st self sz" and "untouched A st st'" and "spans (own_block (dyns st self) sz) \<subseteq> A"
    and "dyns st' self = dyns st self"
  shows "contents st' self sz = contents st self sz"
proof -
  note b = dyn_ok_bounds [OF assms(1)]
  have small: "nat (dyn_len (dyns st self)) * unat sz \<le> nat (dyn_cap (dyns st self)) * unat sz"
    using b(2) by (simp add: nat_mono)
  have "span (dyn_data (dyns st self)) (nat (dyn_len (dyns st self)) * unat sz) \<subseteq> A"
  proof (cases "own_block (dyns st self) sz = {}")
    case True
    then have "nat (dyn_len (dyns st self)) * unat sz = 0" using b(2) by (auto simp: own_block_def split: if_splits)
    then show ?thesis by (metis span_0 empty_subsetI)
  next
    case False
    then have "(dyn_data (dyns st self), nat (dyn_cap (dyns st self)) * unat sz) \<in> own_block (dyns st self) sz"
      by (simp add: own_block_def split: if_splits)
    from spans_member [OF this small] assms(3) show ?thesis by blast
  qed
  from untouched_elems [OF assms(2) this] assms(4) show ?thesis by (simp add: contents_def)
qed

text \<open>The commit: the old block goes, nothing else changes.\<close>

lemma after_commit:
  assumes ok0: "dyn_ok h territory L st0 self sz" and ok: "dyn_ok h territory (L \<union> own) st self sz"
    and own: "own = own_block (dyns st self) sz" and apart: "own \<inter> (L - own_block (dyns st0 self) sz) = {}"
    and un: "untouched (- territory \<union> spans (L - own_block (dyns st0 self) sz \<union> own)) st st'"
  shows "dyn_ok h territory (L - own_block (dyns st0 self) sz \<union> own) st' self sz"
    and "contents st' self sz = contents st self sz" and "own_block (dyns st' self) sz = own"
    and "L - own_block (dyns st0 self) sz \<union> own - own = L - own_block (dyns st0 self) sz"
proof -
  let ?K = "L - own_block (dyns st0 self) sz"
  note b0 = dyn_ok_bounds [OF ok0] and b = dyn_ok_bounds [OF ok]
  have self: "self \<in> - territory \<union> spans ?K" using b0(6) .
  then have d: "dyns st' self = dyns st self"
    using spans_mono [of ?K "?K \<union> own"] by (intro untouched_dyns [OF un]) auto
  have z: "own = {} \<longrightarrow> dyn_data (dyns st self) = 0" using ok by (simp add: dyn_ok_def Let_def own)
  show cut: "?K \<union> own - own = ?K" using apart by auto
  show own': "own_block (dyns st' self) sz = own" by (simp add: d own)
  show "contents st' self sz = contents st self sz"
    using spans_mono [of own "?K \<union> own"] by (intro contents_untouched [OF ok un _ d]) (auto simp: own)
  show "dyn_ok h territory (?K \<union> own) st' self sz"
    unfolding dyn_ok_def Let_def own' cut unfolding d using b(1-5) self z by simp
qed

definition append_after :: "addr \<Rightarrow> addr \<Rightarrow> int \<Rightarrow> int \<Rightarrow> addr \<Rightarrow> 'w container_ops \<Rightarrow> bool \<times> dyn_grow_undo \<Rightarrow> ('w rt, bool) proc" where
  "append_after src owned n need self ops = (\<lambda>(ok, undo). if \<not> ok then return False
     else bind get_state (\<lambda>st.
       bind (dyn_fill self ops (dyn_len (dyns st self)) src owned n) (\<lambda>ok.
         if \<not> ok then bind (dyn_regrow_rollback P self ops undo) (\<lambda>_. return False)
         else bind (set_dyn self (\<lambda>d. d\<lparr>dyn_len := need\<rparr>)) (\<lambda>_.
           bind (dyn_regrow_commit P self ops undo) (\<lambda>_. return True)))))"

lemma append_plain_cases:
  assumes inv: "inv L st" and ok: "dyn_ok h territory L st self (elem_size ops)"
    and al: "pow2 (sane_container_align (elem_align ops))" and plain: "elem_clone ops = None"
    and n: "0 < n" "n \<le> INT64_MAX" and src: "source_ok territory L st self (elem_size ops) src n"
  obtains (refused) st' where "loke_rt_v1_dyn_append_owned P self ops src owned n st = (Inr False, st')" and "inv L st'"
      and "dyns st' self = dyns st self" and "untouched (- territory \<union> spans L) st st'"
  | (appended) st' L' where "loke_rt_v1_dyn_append_owned P self ops src owned n st = (Inr True, st')" and "inv L' st'"
      and "dyn_ok h territory L' st' self (elem_size ops)"
      and "contents st' self (elem_size ops) = contents st self (elem_size ops) @ elems (mem st) src (unat (elem_size ops)) (nat n)"
      and "L' - own_block (dyns st' self) (elem_size ops) = L - own_block (dyns st self) (elem_size ops)"
      and "leaves (- territory \<union> spans (L - own_block (dyns st self) (elem_size ops))) self st st'"
proof -
  let ?d = "dyns st self" and ?sz = "elem_size ops" and ?z = "unat (elem_size ops)"
  note b = dyn_ok_bounds [OF ok]
  have bound: "loke_rt_v1_dyn_bind self st = (Inr (), st)" using handle [OF inv] b(5) by (simp add: bind_nop)
  note unfolds = loke_rt_v1_dyn_append_owned_def bind_def [of "loke_rt_v1_dyn_bind self"] bind_def [of get_state] rt_simps Let_def
  show thesis
  proof (cases "dyn_len ?d + n \<le> INT64_MAX")
    case False
    then have "loke_rt_v1_checked_add (dyn_len ?d) n = None" using b(1) n(1) by (auto simp: loke_rt_v1_checked_add_def)
    then show thesis using bound n(1) inv by (intro refused [of st]) (simp_all add: unfolds)
  next
    case True
    let ?need = "dyn_len ?d + n"
    have need: "loke_rt_v1_checked_add (dyn_len ?d) n = Some ?need" using True b(1) n(1) by (auto simp: checked_add_Some)
    have run: "loke_rt_v1_dyn_append_owned P self ops src owned n st =
        bind (dyn_regrow P self ops ?need False) (append_after src owned n ?need self ops) st"
      using bound need n(1) by (simp add: unfolds append_after_def)
    have len: "dyn_len ?d \<le> ?need" using n(1) by simp
    from inv ok len True al show thesis
    proof (cases rule: regrow_grown [where force = False])
      case (refused undo st')
      then show thesis using run by (intro that(1) [of st']) (simp_all add: append_after_def bind_def rt_simps)
    next
      case (grown undo st1 own)
      let ?es = "elems (mem st) src ?z (nat n)" and ?d1 = "dyns st1 self"
      have "nat n \<le> nat (dyn_cap ?d1)" using grown(7) b(1) by simp
      then have fits: "nat n * ?z < 2 ^ 64"
        using dyn_ok_bounds(4) [OF grown(4)] by (meson le_less_trans mult_le_mono1)
      have same: "elems (mem st1) src ?z (nat n) = ?es"
        using src by (intro leaves_elems [OF grown(8)]) (simp add: source_ok_def Let_def)
      let ?st2 = "st1\<lparr>mem := store (mem st1) (slot (dyn_data ?d1) ?z (nat (dyn_len ?d))) (concat ?es),
        dyns := (dyns st1)(self := ?d1\<lparr>dyn_len := ?need\<rparr>)\<rparr>"
      have es: "\<forall>e \<in> set ?es. length e = ?z" using elems_sized by blast
      have i: "nat (dyn_len ?d) + length ?es \<le> nat ?need" using n(1) b(1) by simp
      have nn: "0 \<le> ?need" using b(1) n(1) by simp
      note w = write_elements [OF grown(3,4) es i nn grown(7)]
      have "contents ?st2 self ?sz = contents st self ?sz @ ?es"
      proof -
        have "nat ?need = nat (dyn_len ?d) + nat n" using b(1) n(1) by simp
        moreover have "take (nat (dyn_len ?d)) (elems (mem st1) (dyn_data ?d1) ?z (nat ?need)) = contents st self ?sz"
          using grown(5,6) n(1) b(1) by (simp add: contents_def elems_take)
        ultimately show ?thesis using w(4) by simp
      qed
      moreover obtain st3 where st3: "dyn_regrow_commit P self ops undo ?st2 = (Inr (), st3)"
          "inv (L - own_block ?d ?sz \<union> own) st3" "untouched (- territory \<union> spans (L - own_block ?d ?sz \<union> own)) ?st2 st3"
        using grown(10) [OF w(1)] dyn_ok_bounds(5) [OF w(2)] by auto
      moreover have K: "own \<inter> (L - own_block ?d ?sz) = {}"
        using grown(2,9) by (auto simp: own_block_def split: if_splits)
      have own2: "own_block (dyns ?st2 self) ?sz = own" using w(3) grown(2) by simp
      note c = after_commit [OF ok w(2) own2 [symmetric] K st3(3)]
      have fill: "dyn_fill self ops (dyn_len ?d1) src owned n st1 = (Inr True, st1\<lparr>mem := mem ?st2\<rparr>)"
        using fill_plain [OF plain _ _ n(2) fits, of "dyn_len ?d1" self src owned st1] b(1) n(1) grown(6) same
        by (simp add: load_elems)
      have "loke_rt_v1_dyn_append_owned P self ops src owned n st = (Inr True, st3)"
        using run grown(1) fill st3(1) by (simp add: append_after_def bind_def rt_simps set_dyn_run)
      moreover have "leaves (- territory \<union> spans (L - own_block ?d ?sz)) self st st3"
      proof (rule leaves_trans [OF leaves_mono [OF grown(8)] leaves_trans [OF leaves_mono [OF w(5)] leaves_untouched [OF untouched_mono [OF st3(3)]]]])
        show "- territory \<union> spans (L - own_block ?d ?sz) \<subseteq> - territory \<union> spans (L \<union> own - own_block ?d1 ?sz)"
          using K grown(2) spans_mono [of "L - own_block ?d ?sz" "L \<union> own - own_block ?d1 ?sz"] by blast
      qed (use spans_mono [of "L - own_block ?d ?sz"] in blast)+
      ultimately show thesis
        using st3(2) c by (intro that(2) [of st3 "L - own_block ?d ?sz \<union> own"]) simp_all
    qed
  qed
qed

definition insert_after :: "int \<Rightarrow> addr \<Rightarrow> int \<Rightarrow> int \<Rightarrow> addr \<Rightarrow> 'w container_ops \<Rightarrow> bool \<times> dyn_grow_undo \<Rightarrow> ('w rt, bool) proc" where
  "insert_after index src n need self ops = (\<lambda>(ok, undo).
     if \<not> ok then return False
     else bind get_state (\<lambda>st.
       let tail_bytes = dyn_tail_bytes (dyn_len (dyns st self) - index) ops in
       bind (if tail_bytes \<noteq> 0
             then memmove (dyn_at (dyns st self) ops (index + n)) (dyn_at (dyns st self) ops index) tail_bytes
             else return ()) (\<lambda>_.
       bind (dyn_fill self ops index src 0 n) (\<lambda>ok.
         if \<not> ok
         then bind get_state (\<lambda>st.
           bind (if tail_bytes \<noteq> 0
                 then memmove (dyn_at (dyns st self) ops index) (dyn_at (dyns st self) ops (index + n)) tail_bytes
                 else return ()) (\<lambda>_.
           bind (dyn_regrow_rollback P self ops undo) (\<lambda>_. return False)))
         else bind (set_dyn self (\<lambda>d. d\<lparr>dyn_len := need\<rparr>)) (\<lambda>_.
           bind (dyn_regrow_commit P self ops undo) (\<lambda>_. return True))))))"

end

lemma tail_move:
  assumes "0 \<le> i" and "0 \<le> j" and "0 \<le> k" and "k \<le> INT64_MAX" and "nat k * unat (elem_size ops) < 2 ^ 64"
  shows "(if dyn_tail_bytes k ops \<noteq> 0 then memmove (dyn_at d ops j) (dyn_at d ops i) (dyn_tail_bytes k ops) else return ()) st =
    (Inr (), st\<lparr>mem := store (mem st) (slot (dyn_data d) (unat (elem_size ops)) (nat j))
       (concat (elems (mem st) (slot (dyn_data d) (unat (elem_size ops)) (nat i)) (unat (elem_size ops)) (nat k)))\<rparr>)"
proof -
  from assms(3,4) obtain b where b: "loke_rt_v1_checked_bytes k (elem_size ops) = Some b" "unat b = nat k * unat (elem_size ops)"
    by (cases rule: checked_bytes_cases [where sz = "elem_size ops"]) (use assms(5) in auto)
  have run: "load m q (unat b) = concat (elems m q (unat (elem_size ops)) (nat k))" for m q
    unfolding b(2) by (rule load_elems)
  show ?thesis
    using assms(1,2) b(1) by (cases "b = 0") (simp_all add: dyn_tail_bytes_def memmove_def rt_simps dyn_at_slot flip: run)
qed

text \<open>An insert shifts elements, so a source that is not recognised as inside the array's storage
  must be wholly outside it.\<close>

definition insert_source_ok :: "addr set \<Rightarrow> live \<Rightarrow> 'w rt \<Rightarrow> addr \<Rightarrow> 'w container_ops \<Rightarrow> addr \<Rightarrow> int \<Rightarrow> bool" where
  "insert_source_ok territory L st self ops src n \<longleftrightarrow>
     (let d = dyns st self; z = unat (elem_size ops) in
      span src (nat n * z) \<subseteq> - territory \<union> spans L \<and>
      (dyn_src_aliases d ops src \<or> span src (nat n * z) \<inter> span (dyn_data d) (nat (dyn_cap d) * z) = {}))"

context provider
begin

lemma insert_source_apart:
  assumes inv: "inv L st" and ok: "dyn_ok h territory L st self (elem_size ops)"
    and src: "insert_source_ok territory L st self ops src n" and own: "own = own_block d1 (elem_size ops)"
    and how: "\<not> dyn_src_aliases (dyns st self) ops src \<and> d1 = dyns st self \<or> elem_size ops = 0 \<or> own \<inter> L = {}"
  shows "span src (nat n * unat (elem_size ops)) \<subseteq> - territory \<union> spans (L \<union> own - own_block d1 (elem_size ops))"
  using how
proof (elim disjE conjE)
  assume "\<not> dyn_src_aliases (dyns st self) ops src" and d1: "d1 = dyns st self"
  then have apart: "span src (nat n * unat (elem_size ops)) \<inter> spans own = {}"
    using src by (auto simp: insert_source_ok_def Let_def own own_block_def spans_def)
  have "spans L \<subseteq> spans own \<union> spans (L \<union> own - own)" by (auto simp: spans_def)
  with apart src show ?thesis by (auto simp: insert_source_ok_def Let_def own)
next
  assume "own \<inter> L = {}"
  then have "L \<subseteq> L \<union> own - own" by auto
  from spans_mono [OF this] src show ?thesis by (auto simp: insert_source_ok_def Let_def own)
qed simp

text \<open>Opening a gap at \<open>index\<close> and filling it: the tail moves up, then the new elements go in.\<close>

lemma gap_filled:
  assumes inv: "inv L st" and ok: "dyn_ok h territory L st self (elem_size ops)" and plain: "elem_clone ops = None"
    and index: "0 \<le> index" "index \<le> dyn_len (dyns st self)" and n: "0 < n" "n \<le> INT64_MAX"
    and room: "dyn_len (dyns st self) + n \<le> dyn_cap (dyns st self)"
    and away: "span src (nat n * unat (elem_size ops)) \<subseteq> - territory \<union> spans (L - own_block (dyns st self) (elem_size ops))"
  obtains m m' st' where "(if dyn_tail_bytes (dyn_len (dyns st self) - index) ops \<noteq> 0
        then memmove (dyn_at (dyns st self) ops (index + n)) (dyn_at (dyns st self) ops index) (dyn_tail_bytes (dyn_len (dyns st self) - index) ops)
        else return ()) st = (Inr (), st\<lparr>mem := m\<rparr>)"
    and "dyn_fill self ops index src 0 n (st\<lparr>mem := m\<rparr>) = (Inr True, st\<lparr>mem := m'\<rparr>)"
    and "st' = st\<lparr>mem := m', dyns := (dyns st)(self := (dyns st self)\<lparr>dyn_len := dyn_len (dyns st self) + n\<rparr>)\<rparr>"
    and "inv L st'" and "dyn_ok h territory L st' self (elem_size ops)"
    and "own_block (dyns st' self) (elem_size ops) = own_block (dyns st self) (elem_size ops)"
    and "contents st' self (elem_size ops) = take (nat index) (contents st self (elem_size ops)) @
      elems (mem st) src (unat (elem_size ops)) (nat n) @ drop (nat index) (contents st self (elem_size ops))"
    and "leaves (- territory \<union> spans (L - own_block (dyns st self) (elem_size ops))) self st st'"
proof -
  let ?d = "dyns st self" and ?sz = "elem_size ops" and ?z = "unat (elem_size ops)" and ?need = "dyn_len (dyns st self) + n"
  let ?xs = "contents st self ?sz" and ?es = "elems (mem st) src ?z (nat n)" and ?p = "dyn_data ?d"
  let ?tail = "drop (nat index) (contents st self ?sz)"
  note b = dyn_ok_bounds [OF ok]
  have lens: "length ?xs = nat (dyn_len ?d)" "nat ?need = nat (dyn_len ?d) + nat n" "nat index \<le> nat (dyn_len ?d)"
    using b(1) n(1) index by (simp_all add: contents_def)
  have tail: "elems (mem st) (slot ?p ?z (nat index)) ?z (nat (dyn_len ?d - index)) = ?tail"
    unfolding contents_def using index b(1) by (simp add: elems_drop nat_diff_distrib nat_mono)
  have sized: "\<forall>e \<in> set ?tail. length e = ?z" "\<forall>e \<in> set ?es. length e = ?z"
    using elems_sized by (auto simp: contents_def dest!: in_set_dropD)
  have i1: "nat (index + n) + length ?tail \<le> nat ?need" and i2: "nat index + length ?es \<le> nat ?need" and nn: "0 \<le> ?need"
    using lens index n(1) b(1) by (auto simp: nat_add_distrib)
  define m where "m = store (mem st) (slot ?p ?z (nat (index + n))) (concat ?tail)"
  define m' where "m' = store m (slot ?p ?z (nat index)) (concat ?es)"
  define A where "A = st\<lparr>mem := m, dyns := (dyns st)(self := ?d\<lparr>dyn_len := ?need\<rparr>)\<rparr>"
  define B where "B = st\<lparr>mem := m', dyns := (dyns st)(self := ?d\<lparr>dyn_len := ?need\<rparr>)\<rparr>"
  note w1 = write_elements [OF inv ok sized(1) i1 nn room, folded m_def, folded A_def]
  have nA: "?need \<le> dyn_cap (dyns A self)" using room by (simp add: A_def)
  have toB: "A\<lparr>mem := store (mem A) (slot (dyn_data (dyns A self)) ?z (nat index)) (concat ?es),
      dyns := (dyns A)(self := (dyns A self)\<lparr>dyn_len := ?need\<rparr>)\<rparr> = B" by (simp add: A_def B_def m'_def)
  note w2 = write_elements [OF w1(1,2) sized(2) i2 nn nA, unfolded toB w1(3)]
  have "take (nat index) (elems (mem st) ?p ?z (nat ?need)) = take (nat index) ?xs"
    unfolding contents_def using lens by (simp add: elems_take)
  moreover have "elems (mem A) (dyn_data (dyns A self)) ?z (nat ?need) = contents A self ?sz" by (simp add: contents_def A_def)
  ultimately have res: "contents B self ?sz = take (nat index) ?xs @ ?es @ ?tail"
    using w2(4) w1(4) lens index n(1) by (simp add: nat_add_distrib min_def)
  have "elems m src ?z (nat n) = ?es" using leaves_elems [OF w1(5) away] by (simp add: A_def)
  then have same: "load m src (nat n * ?z) = concat ?es" by (simp add: load_elems)
  have "nat n \<le> nat (dyn_cap ?d)" "nat (dyn_len ?d - index) \<le> nat (dyn_cap ?d)" using room b(1) n(1) index by auto
  then have fits: "nat n * ?z < 2 ^ 64" "nat (dyn_len ?d - index) * ?z < 2 ^ 64"
    using b(4) by (meson le_less_trans mult_le_mono1)+
  have len1: "0 \<le> index + n" "0 \<le> dyn_len ?d - index" "dyn_len ?d - index \<le> INT64_MAX" using index n(1) b by auto
  note move = tail_move [OF index(1) len1 fits(2), where d = ?d and st = st, unfolded tail, folded m_def]
  have fill: "dyn_fill self ops index src 0 n (st\<lparr>mem := m\<rparr>) = (Inr True, st\<lparr>mem := m'\<rparr>)"
    using fill_plain [OF plain index(1) _ n(2) fits(1), of self src 0 "st\<lparr>mem := m\<rparr>"] n(1) same by (simp add: m'_def)
  from move fill B_def w2(1-3) res leaves_trans [OF w1(5) w2(5)] show thesis by (rule that)
qed

lemma insert_plain_cases:
  assumes inv: "inv L st" and ok: "dyn_ok h territory L st self (elem_size ops)"
    and al: "pow2 (sane_container_align (elem_align ops))" and plain: "elem_clone ops = None"
    and index: "0 \<le> index" "index \<le> dyn_len (dyns st self)"
    and n: "0 < n" "n \<le> INT64_MAX" and src: "insert_source_ok territory L st self ops src n"
  obtains (refused) st' where "loke_rt_v1_dyn_insert P self ops index src n st = (Inr False, st')" and "inv L st'"
      and "dyns st' self = dyns st self" and "untouched (- territory \<union> spans L) st st'"
  | (inserted) st' L' where "loke_rt_v1_dyn_insert P self ops index src n st = (Inr True, st')" and "inv L' st'"
      and "dyn_ok h territory L' st' self (elem_size ops)"
      and "contents st' self (elem_size ops) = take (nat index) (contents st self (elem_size ops)) @
        elems (mem st) src (unat (elem_size ops)) (nat n) @ drop (nat index) (contents st self (elem_size ops))"
      and "L' - own_block (dyns st' self) (elem_size ops) = L - own_block (dyns st self) (elem_size ops)"
      and "leaves (- territory \<union> spans (L - own_block (dyns st self) (elem_size ops))) self st st'"
proof -
  let ?d = "dyns st self" and ?sz = "elem_size ops" and ?z = "unat (elem_size ops)" and ?need = "dyn_len (dyns st self) + n"
  note b = dyn_ok_bounds [OF ok]
  have bound: "loke_rt_v1_dyn_bind self st = (Inr (), st)" using handle [OF inv] b(5) by (simp add: bind_nop)
  note unfolds = loke_rt_v1_dyn_insert_def bind_def [of "loke_rt_v1_dyn_bind self"] bind_def [of get_state] rt_simps Let_def
  show thesis
  proof (cases "?need \<le> INT64_MAX")
    case False
    then have "loke_rt_v1_checked_add (dyn_len ?d) n = None" using b(1) n(1) by (auto simp: loke_rt_v1_checked_add_def)
    then show thesis using bound n(1) index inv by (intro refused [of st]) (simp_all add: unfolds)
  next
    case True
    have need: "loke_rt_v1_checked_add (dyn_len ?d) n = Some ?need" using True b(1) n(1) by (auto simp: checked_add_Some)
    have run: "loke_rt_v1_dyn_insert P self ops index src n st =
        bind (dyn_regrow P self ops ?need (dyn_src_aliases ?d ops src)) (insert_after index src n ?need self ops) st"
      using bound need n(1) index by (simp add: unfolds insert_after_def)
    have len: "dyn_len ?d \<le> ?need" using n(1) by simp
    from inv ok len True al show thesis
    proof (cases rule: regrow_grown [where force = "dyn_src_aliases ?d ops src"])
      case (refused undo st')
      then show thesis using run by (intro that(1) [of st']) (simp_all add: insert_after_def bind_def rt_simps)
    next
      case (grown undo st1 own)
      let ?d1 = "dyns st1 self"
      have K: "own \<inter> (L - own_block ?d ?sz) = {}"
        using grown(2,9) by (auto simp: own_block_def split: if_splits)
      have away: "span src (nat n * ?z) \<subseteq> - territory \<union> spans (L \<union> own - own_block ?d1 ?sz)"
        by (rule insert_source_apart [OF inv ok src grown(2,9)])
      have es: "elems (mem st1) src ?z (nat n) = elems (mem st) src ?z (nat n)"
        using src by (intro leaves_elems [OF grown(8)]) (simp add: insert_source_ok_def Let_def)
      have index1: "index \<le> dyn_len ?d1" and room: "dyn_len ?d1 + n \<le> dyn_cap ?d1" using index grown(6,7) by simp_all
      from grown(3,4) plain index(1) index1 n room away show thesis
      proof (rule gap_filled)
        fix m m' st2
        assume move: "(if dyn_tail_bytes (dyn_len ?d1 - index) ops \<noteq> 0
            then memmove (dyn_at ?d1 ops (index + n)) (dyn_at ?d1 ops index) (dyn_tail_bytes (dyn_len ?d1 - index) ops)
            else return ()) st1 = (Inr (), st1\<lparr>mem := m\<rparr>)"
          and fill: "dyn_fill self ops index src 0 n (st1\<lparr>mem := m\<rparr>) = (Inr True, st1\<lparr>mem := m'\<rparr>)"
          and st2: "st2 = st1\<lparr>mem := m', dyns := (dyns st1)(self := ?d1\<lparr>dyn_len := dyn_len ?d1 + n\<rparr>)\<rparr>"
          and w: "inv (L \<union> own) st2" "dyn_ok h territory (L \<union> own) st2 self ?sz" "own_block (dyns st2 self) ?sz = own_block ?d1 ?sz"
            "contents st2 self ?sz = take (nat index) (contents st1 self ?sz) @ elems (mem st1) src ?z (nat n) @ drop (nat index) (contents st1 self ?sz)"
            "leaves (- territory \<union> spans (L \<union> own - own_block ?d1 ?sz)) self st1 st2"
        obtain st3 where st3: "dyn_regrow_commit P self ops undo st2 = (Inr (), st3)"
            "inv (L - own_block ?d ?sz \<union> own) st3" "untouched (- territory \<union> spans (L - own_block ?d ?sz \<union> own)) st2 st3"
          using grown(10) [OF w(1)] dyn_ok_bounds(5) [OF w(2)] by auto
        have own2: "own = own_block (dyns st2 self) ?sz" using w(3) grown(2) by simp
        note c = after_commit [OF ok w(2) own2 K st3(3)]
        have "loke_rt_v1_dyn_insert P self ops index src n st = (Inr True, st3)"
          unfolding run insert_after_def using grown(1,6) move fill st3(1) st2
          by (simp add: bind_def [of "dyn_regrow _ _ _ _ _"] bind_def [of get_state] bind_def [of "if _ then _ else _"]
                bind_def [of "dyn_fill _ _ _ _ _ _"] bind_def [of "set_dyn _ _"] bind_def [of "dyn_regrow_commit _ _ _ _"]
                rt_simps set_dyn_run Let_def)
        moreover have "leaves (- territory \<union> spans (L - own_block ?d ?sz)) self st st3"
        proof (rule leaves_trans [OF leaves_mono [OF grown(8)] leaves_trans [OF leaves_mono [OF w(5)] leaves_untouched [OF untouched_mono [OF st3(3)]]]])
          show "- territory \<union> spans (L - own_block ?d ?sz) \<subseteq> - territory \<union> spans (L \<union> own - own_block ?d1 ?sz)"
            using K grown(2) spans_mono [of "L - own_block ?d ?sz" "L \<union> own - own"] by blast
        qed (use spans_mono [of "L - own_block ?d ?sz"] in blast)+
        ultimately show thesis
          using st3(2) c w(4) grown(5) es by (intro that(2) [of st3 "L - own_block ?d ?sz \<union> own"]) simp_all
      qed
    qed
  qed
qed

end

end
