(* ===== verification/Loke_Chain.thy ===== *)
theory Loke_Chain
  imports Loke_Dyn_Correct
begin

text \<open>
  The chain of blocks of an arena, \<^verbatim>\<open>runtime/arena.c\<close> beyond its first block: what it means that the headers are linked, that
  no two blocks overlap and that each allocation is inside one of them, and what the steps of the arena (a bump, a change
  at the top, a new block in front) do to that.
\<close>

section \<open>A chain of blocks\<close>

text \<open>The list of headers that starts at an address and follows \<^verbatim>\<open>next\<close>.\<close>

primrec block_list :: "(addr \<Rightarrow> arena_block_v1) \<Rightarrow> addr \<Rightarrow> addr list \<Rightarrow> bool" where
  "block_list m x [] \<longleftrightarrow> x = 0"
| "block_list m x (b # bs) \<longleftrightarrow> x = b \<and> b \<noteq> 0 \<and> block_list m (next_block (m b)) bs"

lemma block_list_cong: "(\<And>b. b \<in> set bs \<Longrightarrow> next_block (m' b) = next_block (m b)) \<Longrightarrow> block_list m' x bs = block_list m x bs"
  by (induction bs arbitrary: x) auto

definition extent :: "(addr \<Rightarrow> arena_block_v1) \<Rightarrow> addr \<Rightarrow> addr \<times> nat" where
  "extent m b = (b, 32 + unat (block_usable (m b)))"

text \<open>An arena at \<open>a\<close> over the blocks \<open>bs\<close>, newest first, with the live allocations \<open>L\<close>: the blocks and the control
  structure share no byte, and each allocation lies in the used part of a block.\<close>

definition chain_ok :: "addr \<Rightarrow> addr list \<Rightarrow> live \<Rightarrow> 'w rt \<Rightarrow> bool" where
  "chain_ok a bs L st \<longleftrightarrow>
     handle_ok a st \<and> a \<noteq> 0 \<and> unat a + 80 < 2 ^ 64 \<and> bs \<noteq> [] \<and> distinct bs \<and>
     block_list (blocks st) (arena_blocks (arenas st a)) bs \<and> arena_first (arenas st a) = last bs \<and>
     (\<forall>b \<in> set bs. block_ok b (blocks st b) \<and> block_owned (blocks st b) = (if b = last bs then 0 else 1) \<and> apart (a, 80) (extent (blocks st) b)) \<and>
     (\<forall>b \<in> set bs. \<forall>c \<in> set bs. b \<noteq> c \<longrightarrow> apart (extent (blocks st) b) (extent (blocks st) c)) \<and>
     (\<forall>p k. (p, k) \<in> L \<longrightarrow> (\<exists>b \<in> set bs. within (arena_block_bytes b) (unat (block_used (blocks st b))) p k)) \<and>
     (\<forall>x \<in> L. \<forall>y \<in> L. x \<noteq> y \<longrightarrow> apart x y)"

lemma chain_block:
  assumes "chain_ok a bs L st" and "b \<in> set bs"
  shows "block_ok b (blocks st b)" and "unat (arena_block_bytes b) = unat b + 32" and "unat (block_used (blocks st b)) \<le> unat (block_usable (blocks st b))"
    and "unat b + 32 + unat (block_usable (blocks st b)) < 2 ^ 64" and "apart (a, 80) (extent (blocks st) b)" and "b \<noteq> 0"
proof -
  show ok: "block_ok b (blocks st b)" using assms by (simp add: chain_ok_def)
  show "unat (arena_block_bytes b) = unat b + 32" "unat (block_used (blocks st b)) \<le> unat (block_usable (blocks st b))"
    using block_base [OF ok] block_top(3) [OF ok] by simp_all
  show "unat b + 32 + unat (block_usable (blocks st b)) < 2 ^ 64" "b \<noteq> 0" using ok by (simp_all add: block_ok_def)
  show "apart (a, 80) (extent (blocks st) b)" using assms by (simp add: chain_ok_def)
qed

lemma chain_top:
  assumes "chain_ok a bs L st"
  shows "hd bs \<in> set bs" and "arena_blocks (arenas st a) = hd bs" and "a \<noteq> 0" and "arena_first (arenas st a) = last bs" and "last bs \<in> set bs"
  using assms by (cases bs; auto simp: chain_ok_def)+

lemma chain_home: "chain_ok a bs L st \<Longrightarrow> (p, k) \<in> L \<Longrightarrow> \<exists>b \<in> set bs. within (arena_block_bytes b) (unat (block_used (blocks st b))) p k"
  by (simp add: chain_ok_def)

lemma chain_live:
  assumes "chain_ok a bs L st" and "(p, k) \<in> L"
  obtains b where "b \<in> set bs" and "0 < k" and "unat b + 32 \<le> unat p" and "unat p + k \<le> unat b + 32 + unat (block_used (blocks st b))"
    and "unat p + k \<le> unat b + 32 + unat (block_usable (blocks st b))" and "unat p + k < 2 ^ 64"
proof -
  obtain b where b: "b \<in> set bs" "within (arena_block_bytes b) (unat (block_used (blocks st b))) p k"
    using chain_home [OF assms] by blast
  note c = chain_block [OF assms(1) b(1)]
  show thesis using b(2) c by (intro that [OF b(1)]) (auto simp: within_def)
qed

lemma chain_pairwise: "chain_ok a bs L st \<Longrightarrow> x \<in> L \<Longrightarrow> y \<in> L \<Longrightarrow> x \<noteq> y \<Longrightarrow> apart x y"
  by (simp add: chain_ok_def)

lemma chain_subset: "chain_ok a bs L st \<Longrightarrow> L' \<subseteq> L \<Longrightarrow> chain_ok a bs L' st"
  by (simp add: chain_ok_def) blast

text \<open>An allocation is in a given block or apart from all of it.\<close>

lemma chain_elsewhere:
  assumes chain: "chain_ok a bs L st" and mem: "(p, k) \<in> L" and b: "b \<in> set bs"
  shows "within (arena_block_bytes b) (unat (block_used (blocks st b))) p k \<or>
    (\<exists>c \<in> set bs. c \<noteq> b \<and> within (arena_block_bytes c) (unat (block_used (blocks st c))) p k) \<and> apart (p, k) (extent (blocks st) b)"
proof -
  obtain c where c: "c \<in> set bs" "within (arena_block_bytes c) (unat (block_used (blocks st c))) p k"
    using chain_home [OF chain mem] by blast
  show ?thesis
  proof (cases "c = b")
    case False
    then have "apart (extent (blocks st) c) (extent (blocks st) b)" using chain c(1) b by (simp add: chain_ok_def)
    then have "apart (p, k) (extent (blocks st) b)"
      using c(2) chain_block [OF chain c(1)] by (auto simp: apart_def extent_def within_def)
    with c False show ?thesis by blast
  qed (use c in blast)
qed

lemma chain_private:
  assumes chain: "chain_ok a bs L st"
  shows "a \<notin> spans L" and "b \<in> set bs \<Longrightarrow> b \<notin> spans L"
proof -
  have out: "x \<notin> span p k" if pk: "(p, k) \<in> L" and x: "unat x < unat p \<or> unat p + k \<le> unat x" for x p k
  proof -
    obtain c where "unat p + k < 2 ^ 64" using chain_live [OF chain pk] by metis
    then show ?thesis using x by (auto simp: span_nowrap)
  qed
  have "a \<notin> span p k" if pk: "(p, k) \<in> L" for p k
  proof -
    obtain c where c: "c \<in> set bs" "unat c + 32 \<le> unat p" "unat p + k \<le> unat c + 32 + unat (block_usable (blocks st c))"
      by (rule chain_live [OF chain pk])
    then show ?thesis using out [OF pk, of a] chain_block(5) [OF chain c(1)] by (auto simp: apart_def extent_def)
  qed
  then show "a \<notin> spans L" by (auto simp: spans_def)
  have "b \<notin> span p k" if pk: "(p, k) \<in> L" and b: "b \<in> set bs" for p k b
  proof -
    from chain_elsewhere [OF chain pk b] chain_block(2) [OF chain b] have "unat b < unat p \<or> unat p + k \<le> unat b"
      by (auto simp: within_def apart_def extent_def)
    with out [OF pk] show ?thesis by blast
  qed
  then show "b \<in> set bs \<Longrightarrow> b \<notin> spans L" by (auto simp: spans_def)
qed

lemma chain_agree:
  assumes "chain_ok a bs L st" and "agree ({a} \<union> set bs) st st'"
  shows "chain_ok a bs L st'"
proof -
  have eq: "blocks st' b = blocks st b" if "b \<in> set bs" for b using assms(2) that by (simp add: agree_def)
  have "arenas st' a = arenas st a" "allocators st' a = allocators st a" using assms(2) by (simp_all add: agree_def)
  moreover have "block_list (blocks st') x bs = block_list (blocks st) x bs" for x by (rule block_list_cong) (simp add: eq)
  ultimately show ?thesis using assms(1) eq by (auto simp: chain_ok_def extent_def handle_ok_def)
qed

text \<open>Moving the top of one block, and the live allocations with it.\<close>

lemma chain_set_used:
  assumes chain: "chain_ok a bs L st" and b: "b \<in> set bs" and u: "u \<le> block_usable (blocks st b)"
    and home: "\<And>p k. (p, k) \<in> L' \<Longrightarrow> \<exists>c \<in> set bs. within (arena_block_bytes c) (unat (if c = b then u else block_used (blocks st c))) p k"
    and pairs: "\<And>x y. x \<in> L' \<Longrightarrow> y \<in> L' \<Longrightarrow> x \<noteq> y \<Longrightarrow> apart x y"
  shows "chain_ok a bs L' (set_used b u st)"
proof -
  have "block_list (blocks (set_used b u st)) x bs = block_list (blocks st) x bs" for x
    by (rule block_list_cong) (simp add: set_used_def)
  moreover have "extent (blocks (set_used b u st)) = extent (blocks st)" by (auto simp: extent_def set_used_def fun_eq_iff)
  moreover have "block_used (blocks (set_used b u st) c) = (if c = b then u else block_used (blocks st c))" for c by (simp add: set_used_def)
  moreover have "block_ok c (blocks (set_used b u st) c)" if "c \<in> set bs" for c
    using chain_block(1) [OF chain that] u by (auto simp: block_ok_def set_used_def)
  moreover have "handle_ok a (set_used b u st) = handle_ok a st" "arenas (set_used b u st) = arenas st"
      "block_owned (blocks (set_used b u st) c) = block_owned (blocks st c)" for c by (simp_all add: set_used_def handle_ok_def)
  ultimately show ?thesis using chain home pairs unfolding chain_ok_def by (auto split del: if_split)
qed

lemma chain_bump:
  assumes chain: "chain_ok a bs L st" and sz: "0 < sz" and al: "pow2 align"
  obtains (full) "arena_bump (hd bs) sz align st = (Inr 0, st)"
  | (placed) p u where "arena_bump (hd bs) sz align st = (Inr p, set_used (hd bs) u st)" and "p \<noteq> 0"
      and "chain_ok a bs (insert (p, unat sz) L) (set_used (hd bs) u st)" and "(p, unat sz) \<notin> L" and "unat align dvd unat p"
proof -
  let ?b = "hd bs"
  have b: "?b \<in> set bs" by (rule chain_top [OF chain])
  note c = chain_block [OF chain b]
  obtain r st' where bump: "arena_bump ?b sz align st = (r, st')" by fastforce
  from c(1) al bump show thesis
  proof (cases rule: arena_bump_cases)
    case full
    then show thesis using bump that(1) by simp
  next
    case (placed p)
    define u where "u = p + sz - arena_block_bytes ?b"
    have uu: "unat u = unat p + unat sz - (unat ?b + 32)" using placed(7) by (simp add: u_def)
    have pos: "0 < unat sz" using sz by (simp add: word_less_nat_alt)
    have new: "apart (p, unat sz) (q, k)" if "(q, k) \<in> L" for q k
      using chain_elsewhere [OF chain that b] placed(4,5) c(2,3) by (auto simp: within_def apart_def extent_def)
    have "chain_ok a bs (insert (p, unat sz) L) (set_used ?b u st)"
    proof (rule chain_set_used [OF chain b])
      show "u \<le> block_usable (blocks st ?b)" using placed(5) uu by (simp add: word_le_nat_alt)
      fix q k assume qk: "(q, k) \<in> insert (p, unat sz) L"
      show "\<exists>c \<in> set bs. within (arena_block_bytes c) (unat (if c = ?b then u else block_used (blocks st c))) q k"
      proof (cases "(q, k) = (p, unat sz)")
        case True
        then show ?thesis using b placed(4,5) uu pos c(2) by (intro bexI [of _ ?b]) (auto simp: within_def)
      next
        case False
        then obtain d where "d \<in> set bs" "within (arena_block_bytes d) (unat (block_used (blocks st d))) q k"
          using chain_home [OF chain, of q k] qk by auto
        then show ?thesis using uu placed(4) pos by (intro bexI [of _ d]) (auto simp: within_def)
      qed
    next
      show "apart x y" if "x \<in> insert (p, unat sz) L" "y \<in> insert (p, unat sz) L" "x \<noteq> y" for x y
        using that new chain_pairwise [OF chain] apart_sym by (cases x; cases y) auto
    qed
    moreover have "(p, unat sz) \<notin> L" using new [of p "unat sz"] pos by (auto simp: apart_def)
    ultimately show thesis using bump placed by (intro that(2)) (auto simp: set_used_def u_def)
  qed
qed

text \<open>The newest allocation is at the top of the newest block; no other one ends there.\<close>

lemma chain_is_top:
  assumes chain: "chain_ok a bs L st" and mem: "(p, unat sz) \<in> L" and top: "arena_is_top st a p sz"
  shows "unat (hd bs) + 32 \<le> unat p" and "unat p + unat sz = unat (hd bs) + 32 + unat (block_used (blocks st (hd bs)))"
proof -
  let ?b = "hd bs"
  have b: "?b \<in> set bs" "arena_blocks (arenas st a) = ?b" by (rule chain_top [OF chain])+
  note c = chain_block [OF chain b(1)]
  obtain d where "unat p + unat sz < 2 ^ 64" using chain_live [OF chain mem] by metis
  then have "unat (p + sz) = unat p + unat sz" by (rule unat_plus_exact)
  then show eq: "unat p + unat sz = unat ?b + 32 + unat (block_used (blocks st ?b))"
    using top b(2) block_top(1) [OF c(1)] by (simp add: arena_is_top_def Let_def split: if_splits)
  show "unat ?b + 32 \<le> unat p"
    using chain_elsewhere [OF chain mem b(1)] eq c(2,3) by (auto simp: within_def apart_def extent_def)
qed

lemma chain_top_moves:
  assumes chain: "chain_ok a bs L st" and mem: "(p, k) \<in> L" and b: "b = hd bs"
    and top: "unat b + 32 \<le> unat p" "unat p + k = unat b + 32 + unat (block_used (blocks st b))"
    and u: "unat u = unat p + j - (unat b + 32)" "unat p + j \<le> unat b + 32 + unat (block_usable (blocks st b))"
    and new: "new = (if j = 0 then {} else {(p, j)})"
  shows "chain_ok a bs (new \<union> (L - {(p, k)})) (set_used b u st)"
proof -
  have bs: "b \<in> set bs" using chain_top(1) [OF chain] b by simp
  note c = chain_block [OF chain bs]
  have below: "unat q + i \<le> unat p \<and> within (arena_block_bytes b) (unat (block_used (blocks st b))) q i \<or>
      (\<exists>d \<in> set bs. d \<noteq> b \<and> within (arena_block_bytes d) (unat (block_used (blocks st d))) q i) \<and> apart (q, i) (extent (blocks st) b)"
    if qi: "(q, i) \<in> L" "(q, i) \<noteq> (p, k)" for q i
    using chain_elsewhere [OF chain qi(1) bs] chain_pairwise [OF chain qi(1) mem qi(2)] top c(2) by (auto simp: within_def apart_def)
  have apart_new: "apart (p, j) (q, i)" if "(q, i) \<in> L" "(q, i) \<noteq> (p, k)" for q i
    using below [OF that] top u(2) by (auto simp: apart_def extent_def)
  show ?thesis
  proof (rule chain_set_used [OF chain bs])
    show "u \<le> block_usable (blocks st b)" using u by (simp add: word_le_nat_alt)
    fix q i assume qi: "(q, i) \<in> new \<union> (L - {(p, k)})"
    show "\<exists>d \<in> set bs. within (arena_block_bytes d) (unat (if d = b then u else block_used (blocks st d))) q i"
    proof (cases "(q, i) \<in> L \<and> (q, i) \<noteq> (p, k)")
      case True
      with below [of q i] consider "unat q + i \<le> unat p" "within (arena_block_bytes b) (unat (block_used (blocks st b))) q i"
        | d where "d \<in> set bs" "d \<noteq> b" "within (arena_block_bytes d) (unat (block_used (blocks st d))) q i" by blast
      then show ?thesis
      proof cases
        case 1
        then show ?thesis using bs c(2) u(1) top(1) by (intro bexI [of _ b]) (auto simp: within_def)
      next
        case (2 d)
        then show ?thesis by (intro bexI [of _ d]) auto
      qed
    next
      case False
      then have "q = p" "i = j" "0 < j" using qi new by (auto split: if_splits)
      then show ?thesis using bs c(2) u(1) top(1) by (intro bexI [of _ b]) (auto simp: within_def)
    qed
  next
    show "apart x y" if "x \<in> new \<union> (L - {(p, k)})" "y \<in> new \<union> (L - {(p, k)})" "x \<noteq> y" for x y
      using that new apart_new chain_pairwise [OF chain] apart_sym by (cases x; cases y) (auto split: if_splits)
  qed
qed

lemma chain_shrunk:
  assumes chain: "chain_ok a bs L st" and mem: "(p, k) \<in> L" and j: "0 < j" "j \<le> k"
  shows "chain_ok a bs (insert (p, j) (L - {(p, k)})) st"
proof -
  have new: "apart (p, j) x" if "x \<in> L - {(p, k)}" for x
    using chain_pairwise [OF chain mem, of x] that j by (auto simp: apart_def)
  have "apart x y" if "x \<in> insert (p, j) (L - {(p, k)})" "y \<in> insert (p, j) (L - {(p, k)})" "x \<noteq> y" for x y
    using that new chain_pairwise [OF chain] apart_sym by (metis DiffD1 insertE)
  moreover obtain b where "b \<in> set bs" "within (arena_block_bytes b) (unat (block_used (blocks st b))) p j"
    using chain_home [OF chain mem] j by (fastforce simp: within_def)
  ultimately show ?thesis using chain unfolding chain_ok_def by (simp add: Ball_def) blast
qed

lemma chain_one_per_address: "chain_ok a bs L st \<Longrightarrow> (p, k) \<in> L \<Longrightarrow> (p, j) \<in> L \<Longrightarrow> j = k"
  using chain_pairwise [of a bs L st "(p, k)" "(p, j)"] chain_live [of a bs L st p k] chain_live [of a bs L st p j]
  by (cases "j = k") (auto simp: apart_def)

lemma disjoint_apart:
  assumes "span p n \<inter> span q k = {}" and "0 < n" and "0 < k" and "unat p + n \<le> 2 ^ 64" and "unat q + k \<le> 2 ^ 64"
  shows "apart (p, n) (q, k)"
proof (rule ccontr)
  assume "\<not> apart (p, n) (q, k)"
  then have "(if unat p \<le> unat q then q else p) \<in> span p n \<inter> span q k"
    using assms(2-5) by (auto simp: apart_def span_nowrap)
  with assms(1) show False by blast
qed

text \<open>A new block in front of the chain.\<close>

definition pushed :: "addr \<Rightarrow> addr \<Rightarrow> u64 \<Rightarrow> 'w rt \<Rightarrow> 'w rt" where
  "pushed a s want st = st\<lparr>
     blocks := (blocks st)(s := \<lparr>next_block = arena_blocks (arenas st a), block_usable = want - SIZEOF_BLOCK, block_used = 0, block_owned = 1\<rparr>),
     arenas := (arenas st)(a := (arenas st a)\<lparr>arena_blocks := s, block_bytes := want\<rparr>)\<rparr>"

lemma chain_pushed:
  assumes chain: "chain_ok a bs L st" and want: "32 \<le> unat want" and s: "s \<noteq> 0" "unat s + unat want < 2 ^ 64" "s \<notin> set bs"
    and away: "apart (a, 80) (s, unat want)" "\<forall>b \<in> set bs. apart (extent (blocks st) b) (s, unat want)"
  shows "chain_ok a (s # bs) L (pushed a s want st)" and "extent (blocks (pushed a s want st)) s = (s, unat want)"
    and "b \<in> set bs \<Longrightarrow> blocks (pushed a s want st) b = blocks st b"
proof -
  let ?st = "pushed a s want st"
  have size: "unat (want - 32) = unat want - 32" by (subst unat_minus_exact) (use want in simp_all)
  show ext: "extent (blocks ?st) s = (s, unat want)" using want size by (simp add: extent_def pushed_def SIZEOF_BLOCK_def)
  show old: "blocks ?st b = blocks st b" if "b \<in> set bs" for b using that s(3) by (auto simp: pushed_def)
  have exts: "extent (blocks ?st) b = extent (blocks st) b" if "b \<in> set bs" for b using old [OF that] by (simp add: extent_def)
  have "block_list (blocks ?st) x bs = block_list (blocks st) x bs" for x by (rule block_list_cong) (simp add: old)
  then have "block_list (blocks ?st) (arena_blocks (arenas ?st a)) (s # bs)"
    using chain s(1) by (simp add: chain_ok_def pushed_def)
  moreover have "block_ok s (blocks ?st s)" "block_owned (blocks ?st s) = 1"
    using s want size by (simp_all add: block_ok_def pushed_def SIZEOF_BLOCK_def word_le_nat_alt)
  moreover have "handle_ok a ?st = handle_ok a st" "arena_first (arenas ?st a) = arena_first (arenas st a)"
    by (simp_all add: pushed_def handle_ok_def)
  moreover have "last (s # bs) = last bs" "s \<noteq> last bs" using chain s(3) by (auto simp: chain_ok_def)
  moreover have "apart (extent (blocks ?st) b) (extent (blocks ?st) c)" if "b \<in> set (s # bs)" "c \<in> set (s # bs)" "b \<noteq> c" for b c
    using that chain away(2) exts ext apart_sym [of "(s, unat want)" "extent (blocks st) c"] by (auto simp: chain_ok_def)
  moreover have "\<exists>b \<in> set (s # bs). within (arena_block_bytes b) (unat (block_used (blocks ?st b))) p k" if "(p, k) \<in> L" for p k
    using chain_home [OF chain that] old by auto
  moreover have "apart (a, 80) (extent (blocks ?st) b)" if "b \<in> set (s # bs)" for b
    using that chain_block(5) [OF chain] exts ext away(1) by auto
  ultimately show "chain_ok a (s # bs) L ?st"
    using chain s(3) old by (auto simp: chain_ok_def)
qed

lemma needed_exact:
  assumes "pow2 align" and "\<not> sz + align + SIZEOF_BLOCK < sz"
  shows "unat (sz + align + SIZEOF_BLOCK) = unat sz + unat align + 32"
proof -
  obtain k where k: "k < 64" "align = 2 ^ k" using assms(1) by (auto simp: pow2_def)
  have "(2 :: nat) ^ k \<le> 2 ^ 63" using k(1) by (intro power_increasing) simp_all
  then have small: "unat align \<le> 2 ^ 63" using k by (simp add: unat_pow2)
  then have al: "unat (align + 32) = unat align + 32" by (subst unat_plus_exact) simp_all
  have "unat sz + unat (align + 32) < 2 ^ 64"
    using assms(2) plus_no_wrap [of sz "align + 32"] by (simp add: SIZEOF_BLOCK_def add.assoc not_less)
  then show ?thesis using al by (subst add.assoc, subst unat_plus_exact) (simp_all add: SIZEOF_BLOCK_def)
qed

end
