(* ===== verification/Loke_Dyn_Ops.thy ===== *)
theory Loke_Dyn_Ops
  imports Loke_Dyn_Correct
begin

text \<open>
  The remaining operations of the dynamic array (removal, resizing, shrinking, cloning, dropping)
  and the properties of the array as a whole: under any provider that keeps the \<open>provider\<close>
  contract, a call either refuses and changes nothing or does to the contents what the
  corresponding list operation does.
\<close>

section \<open>Operations\<close>

lemma elems_eq_Nil [simp]: "elems m p z n = [] \<longleftrightarrow> n = 0"
  using length_elems [of m p z n] by (metis length_0_conv)

lemma concat_replicate_replicate: "concat (replicate k (replicate z x)) = replicate (k * z) x"
  by (induction k) (simp_all add: replicate_add)

lemma leaves_load: "leaves A self st st' \<Longrightarrow> span p n \<subseteq> A \<Longrightarrow> load (mem st') p n = load (mem st) p n"
  by (rule load_cong) (auto simp: leaves_iff)

lemma mem_same [simp]: "st\<lparr>mem := mem st\<rparr> = st"
  by (cases st) simp

lemma removal:
  assumes i: "i < length xs" and es: "es = (if i = length xs - 1 then [] else if unordered then [last xs] else drop (Suc i) xs)"
  shows "take i (butlast xs) @ es @ drop (i + length es) (butlast xs) =
    (if unordered then butlast (xs[i := last xs]) else take i xs @ drop (Suc i) xs)"
proof -
  from i obtain ys x where xs: "xs = ys @ [x]" by (cases xs rule: rev_cases) auto
  with i show ?thesis
    by (cases "i = length ys") (auto simp: es list_update_append upd_conv_take_nth_drop butlast_append)
qed

context provider
begin

text \<open>Writing a result buffer that is not part of the array.\<close>

lemma write_outside:
  assumes inv: "inv L st" and ok: "dyn_ok h territory L st self sz" and small: "length bs \<le> 2 ^ 64"
    and out: "span out (length bs) \<subseteq> - territory \<union> spans (L - own_block (dyns st self) sz)"
  defines "st' \<equiv> st\<lparr>mem := store (mem st) out bs\<rparr>"
  shows "inv L st'" and "dyn_ok h territory L st' self sz" and "contents st' self sz = contents st self sz"
    and "leaves (- span out (length bs)) self st st'"
proof -
  let ?d = "dyns st self"
  show "inv L st'" unfolding st'_def
    using out spans_mono [of "L - own_block ?d sz" L] small by (intro inv_store [OF inv]) auto
  have d: "dyns st' = dyns st" by (simp add: st'_def)
  show "dyn_ok h territory L st' self sz" using ok by (simp add: dyn_ok_def d)
  have un: "untouched (- span out (length bs)) st st'" unfolding st'_def using small by (intro untouched_store) auto
  then show "leaves (- span out (length bs)) self st st'" by (rule leaves_untouched)
  have "spans (own_block ?d sz) \<inter> span out (length bs) = {}"
  proof (cases "own_block ?d sz = {}")
    case False
    then have "own_block ?d sz = {(dyn_data ?d, nat (dyn_cap ?d) * unat sz)}" by (auto simp: own_block_def split: if_splits)
    then have "spans (own_block ?d sz) = span (dyn_data ?d) (nat (dyn_cap ?d) * unat sz)" by simp
    with own_live(2,3) [OF inv ok False] out show ?thesis by blast
  qed simp
  then show "contents st' self sz = contents st self sz"
    by (intro contents_untouched [OF ok un]) (auto simp: d)
qed

lemma set_len:
  assumes inv: "inv L st" and ok: "dyn_ok h territory L st self sz" and n: "0 \<le> n" "n \<le> dyn_len (dyns st self)"
  defines "st' \<equiv> st\<lparr>dyns := (dyns st)(self := (dyns st self)\<lparr>dyn_len := n\<rparr>)\<rparr>"
  shows "inv L st'" and "dyn_ok h territory L st' self sz" and "own_block (dyns st' self) sz = own_block (dyns st self) sz"
    and "contents st' self sz = take (nat n) (contents st self sz)" and "leaves A self st st'"
proof -
  note b = dyn_ok_bounds [OF ok]
  have "self \<in> - territory \<union> spans L"
    using b(6) spans_mono [of "L - own_block (dyns st self) sz" L] by auto
  then show "inv L st'" unfolding st'_def by (rule inv_set_dyn [OF inv])
  have d: "dyns st' self = (dyns st self)\<lparr>dyn_len := n\<rparr>" by (simp add: st'_def)
  show "dyn_ok h territory L st' self sz" "own_block (dyns st' self) sz = own_block (dyns st self) sz"
    using dyn_ok_len [OF ok d n(1)] n(2) b(2) by auto
  show "contents st' self sz = take (nat n) (contents st self sz)"
    using n by (simp add: contents_def elems_take nat_mono) (simp add: st'_def)
  show "leaves A self st st'" unfolding st'_def by (rule leaves_set_dyn)
qed

lemma pop_run:
  assumes inv: "inv L st" and ok: "dyn_ok h territory L st self (elem_size ops)" and some: "0 < dyn_len (dyns st self)"
    and out: "span out (unat (elem_size ops)) \<subseteq> - territory \<union> spans (L - own_block (dyns st self) (elem_size ops))"
  obtains st' where "loke_rt_v1_dyn_pop self ops out st = (Inr True, st')" and "inv L st'"
    and "dyn_ok h territory L st' self (elem_size ops)"
    and "contents st' self (elem_size ops) = butlast (contents st self (elem_size ops))"
    and "load (mem st') out (unat (elem_size ops)) = last (contents st self (elem_size ops))"
    and "leaves (- span out (unat (elem_size ops))) self st st'"
proof -
  let ?d = "dyns st self" and ?sz = "elem_size ops" and ?z = "unat (elem_size ops)" and ?n = "dyn_len (dyns st self) - 1"
  let ?st = "st\<lparr>dyns := (dyns st)(self := ?d\<lparr>dyn_len := ?n\<rparr>)\<rparr>" and ?x = "last (contents st self (elem_size ops))"
  let ?st' = "?st\<lparr>mem := store (mem ?st) out ?x\<rparr>"
  have n: "0 \<le> ?n" "?n \<le> dyn_len ?d" using some by auto
  note l = set_len [OF inv ok n]
  have x: "?x = load (mem st) (slot (dyn_data ?d) ?z (nat ?n)) ?z"
    using some by (subst last_conv_nth) (auto simp: contents_def nat_diff_distrib)
  then have len: "length ?x = ?z" by simp
  note w = write_outside [OF l(1,2), of ?x out, unfolded l(3) len, OF less_imp_le [OF unat_u64_lt] out]
  have "loke_rt_v1_dyn_pop self ops out st = (Inr True, ?st')"
    using some by (simp add: loke_rt_v1_dyn_pop_def bind_def rt_simps set_dyn_run memcpy_def dyn_at_slot x)
  moreover have "contents ?st' self ?sz = butlast (contents st self ?sz)"
    using w(3) l(4) some by (simp add: butlast_conv_take contents_def nat_diff_distrib)
  moreover have "load (mem ?st') out ?z = ?x"
    using load_store_same [of ?x "mem st" out] less_imp_le [OF unat_u64_lt] by (simp add: len)
  moreover have "leaves (- span out ?z) self st ?st'"
    using leaves_trans [OF l(5) w(4)] .
  ultimately show thesis using w(1,2) by (intro that [of ?st'])
qed

lemma remove_run:
  assumes inv: "inv L st" and ok: "dyn_ok h territory L st self (elem_size ops)"
    and i: "0 \<le> index" "index < dyn_len (dyns st self)"
    and out: "span out (unat (elem_size ops)) \<subseteq> - territory \<union> spans (L - own_block (dyns st self) (elem_size ops))"
  defines "xs \<equiv> contents st self (elem_size ops)"
  obtains st' where "loke_rt_v1_dyn_remove self ops index out unordered st = (Inr (), st')" and "inv L st'"
    and "dyn_ok h territory L st' self (elem_size ops)"
    and "contents st' self (elem_size ops) =
      (if unordered then butlast (xs[nat index := last xs]) else take (nat index) xs @ drop (Suc (nat index)) xs)"
    and "load (mem st') out (unat (elem_size ops)) = xs ! nat index"
    and "leaves (- territory \<union> spans (L - own_block (dyns st self) (elem_size ops)) - span out (unat (elem_size ops))) self st st'"
proof -
  let ?d = "dyns st self" and ?sz = "elem_size ops" and ?z = "unat (elem_size ops)" and ?n = "dyn_len (dyns st self) - 1"
  let ?i = "nat index" and ?p = "dyn_data (dyns st self)"
  note b = dyn_ok_bounds [OF ok]
  have len: "length xs = nat (dyn_len ?d)" "nat ?n = nat (dyn_len ?d) - 1" "?i < nat (dyn_len ?d)" "length (xs ! ?i) = ?z"
    using i by (auto simp: xs_def contents_def)
  have x: "load (mem st) (slot ?p ?z ?i) ?z = xs ! ?i" using len by (simp add: xs_def contents_def)
  define st1 where "st1 = st\<lparr>mem := store (mem st) out (xs ! ?i)\<rparr>"
  note w1 = write_outside [OF inv ok, of "xs ! ?i" out, unfolded len(4), OF less_imp_le [OF unat_u64_lt] out, folded st1_def]
  have d1: "dyns st1 = dyns st" by (simp add: st1_def)
  have slots: "load (mem st1) (slot ?p ?z j) ?z = xs ! j" if "j < nat (dyn_len ?d)" for j
    using that arg_cong [OF w1(3), of "\<lambda>ys. ys ! j"] by (simp add: contents_def d1 xs_def)
  define es where "es = (if ?i = nat ?n then [] else if unordered then [last xs] else drop (Suc ?i) xs)"
  have es: "\<forall>e \<in> set es. length e = ?z" and ei: "?i + length es \<le> nat ?n"
    using len elems_sized [of _ "mem st" ?p ?z]
    by (auto simp: es_def xs_def contents_def last_conv_nth nat_diff_distrib dest!: in_set_dropD)
  have n: "0 \<le> ?n" "?n \<le> dyn_cap (dyns st1 self)" using i b by (auto simp: d1)
  note w2 = write_elements [OF w1(1,2) es ei n, unfolded d1]
  let ?st = "st1\<lparr>mem := store (mem st1) (slot ?p ?z ?i) (concat es), dyns := (dyns st)(self := ?d\<lparr>dyn_len := ?n\<rparr>)\<rparr>"
  have "elems (mem st1) ?p ?z (nat ?n) = butlast xs"
    using len by (intro nth_equalityI) (auto simp: slots nth_butlast)
  moreover have "es = (if ?i = length xs - 1 then [] else if unordered then [last xs] else drop (Suc ?i) xs)"
    using len by (simp add: es_def)
  ultimately have "contents ?st self ?sz =
      (if unordered then butlast (xs[?i := last xs]) else take ?i xs @ drop (Suc ?i) xs)"
    unfolding w2(4) using len by (simp only: removal)
  moreover have "loke_rt_v1_dyn_remove self ops index out unordered st = (Inr (), ?st)"
  proof -
    have "nat (?n - index) \<le> nat (dyn_cap ?d)" using i b by simp
    then have "nat (?n - index) * ?z < 2 ^ 64" using b(4) by (meson le_less_trans mult_le_mono1)
    moreover have "0 \<le> ?n - index" "?n - index \<le> INT64_MAX" using i b by auto
    ultimately obtain tb where tb: "loke_rt_v1_checked_bytes (?n - index) ?sz = Some tb" "unat tb = nat (?n - index) * ?z"
      using checked_bytes_cases [of "?n - index" ?sz] by (metis linorder_not_less)
    have last: "load (mem st1) (slot ?p ?z (nat ?n)) ?z = last xs"
      using slots [of "nat ?n"] len by (subst last_conv_nth) auto
    have "elems (mem st1) (slot ?p ?z (Suc ?i)) ?z (nat (?n - index)) = drop (Suc ?i) xs"
      using len i by (intro nth_equalityI) (auto simp: slots)
    then have tail: "load (mem st1) (slot ?p ?z (Suc ?i)) (unat tb) = concat (drop (Suc ?i) xs)"
      by (simp add: tb(2) load_elems)
    have run: "loke_rt_v1_dyn_remove self ops index out unordered st =
        (if index = ?n then (Inr (), st1\<lparr>dyns := (dyns st)(self := ?d\<lparr>dyn_len := ?n\<rparr>)\<rparr>)
         else if unordered then memcpy (slot ?p ?z ?i) (slot ?p ?z (nat ?n)) ?sz (st1\<lparr>dyns := (dyns st)(self := ?d\<lparr>dyn_len := ?n\<rparr>)\<rparr>)
         else memmove (slot ?p ?z ?i) (slot ?p ?z (Suc ?i)) tb (st1\<lparr>dyns := (dyns st)(self := ?d\<lparr>dyn_len := ?n\<rparr>)\<rparr>))"
      using i tb(1) x nat_add_distrib [of index 1]
      by (simp add: loke_rt_v1_dyn_remove_def bind_def rt_simps set_dyn_run Let_def memcpy_def memmove_def dyn_at_slot st1_def)
    have "index = ?n \<longleftrightarrow> ?i = nat ?n" using i by auto
    then show ?thesis
      unfolding run using last tail by (auto simp: es_def memcpy_def memmove_def rt_simps)
  qed
  moreover have "load (mem ?st) out ?z = xs ! ?i"
    using leaves_load [OF w2(5) out] load_store_same [of "xs ! ?i" "mem st" out] less_imp_le [OF unat_u64_lt]
    by (simp add: len(4) st1_def)
  moreover have "leaves (- territory \<union> spans (L - own_block ?d ?sz) - span out ?z) self st ?st"
    by (rule leaves_trans [OF leaves_mono [OF w1(4)] leaves_mono [OF w2(5)]]) auto
  ultimately show thesis using w2(1,2) by (intro that [of ?st])
qed

lemma resize_grow_cases:
  assumes inv: "inv L st" and ok: "dyn_ok h territory L st self (elem_size ops)" and al: "pow2 (sane_container_align (elem_align ops))"
    and n: "dyn_len (dyns st self) < n" "n \<le> INT64_MAX"
  obtains (refused) st' where "loke_rt_v1_dyn_resize P self ops n st = (Inr False, st')" and "inv L st'"
      and "dyns st' self = dyns st self" and "untouched (- territory \<union> spans L) st st'"
  | (resized) st' L' where "loke_rt_v1_dyn_resize P self ops n st = (Inr True, st')" and "inv L' st'"
      and "dyn_ok h territory L' st' self (elem_size ops)"
      and "contents st' self (elem_size ops) = contents st self (elem_size ops) @
        replicate (nat n - length (contents st self (elem_size ops))) (replicate (unat (elem_size ops)) 0)"
      and "L' - own_block (dyns st' self) (elem_size ops) = L - own_block (dyns st self) (elem_size ops)"
      and "leaves (- territory \<union> spans (L - own_block (dyns st self) (elem_size ops))) self st st'"
proof -
  let ?d = "dyns st self" and ?sz = "elem_size ops" and ?z = "unat (elem_size ops)"
  note b = dyn_ok_bounds [OF ok]
  have bound: "loke_rt_v1_dyn_bind self st = (Inr (), st)" using handle [OF inv] b(5) by (simp add: bind_nop)
  have pos: "0 \<le> n" using b(1) n by simp
  note unfolds = loke_rt_v1_dyn_resize_def bind_def [of "loke_rt_v1_dyn_bind self"] bind_def [of get_state] rt_simps Let_def
  from inv ok pos n(2) al show thesis
  proof (cases rule: reserve_cases)
    case (refused st')
    then show thesis using bound n pos
      by (intro that(1) [of st']) (simp_all add: unfolds bind_def [of "loke_rt_v1_dyn_reserve _ _ _ _"])
  next
    case (reserved st1 L')
    let ?d1 = "dyns st1 self" and ?k = "n - dyn_len ?d"
    let ?es = "replicate (nat ?k) (replicate ?z (0 :: u8))"
    have es: "\<forall>e \<in> set ?es. length e = ?z" by simp
    have i: "nat (dyn_len ?d) + length ?es \<le> nat n" using n b(1) by simp
    note w = write_elements [OF reserved(2,3) es i pos reserved(6)]
    let ?st = "st1\<lparr>mem := store (mem st1) (slot (dyn_data ?d1) ?z (nat (dyn_len ?d))) (concat ?es),
        dyns := (dyns st1)(self := ?d1\<lparr>dyn_len := n\<rparr>)\<rparr>"
    have "nat ?k \<le> nat (dyn_cap ?d1)" using reserved(6) b(1) by simp
    then have fits: "nat ?k * ?z < 2 ^ 64" using dyn_ok_bounds(4) [OF reserved(3)] by (meson le_less_trans mult_le_mono1)
    have k: "0 \<le> ?k" "?k \<le> INT64_MAX" using n b(1) by auto
    then obtain bytes where bytes: "loke_rt_v1_checked_bytes ?k ?sz = Some bytes" "unat bytes = nat ?k * ?z"
      by (cases rule: checked_bytes_cases [where sz = ?sz]) (use fits in auto)
    have zeros: "concat ?es = replicate (unat bytes) 0"
      unfolding bytes(2) by (rule concat_replicate_replicate)
    have "loke_rt_v1_dyn_resize P self ops n st = (Inr True, ?st)"
      using bound n pos reserved(1,5) bytes(1) b(1) zeros
      by (cases "bytes = 0") (auto simp: unfolds bind_def set_dyn_run memset_def dyn_at_slot)
    moreover have "contents ?st self ?sz = contents st self ?sz @ ?es"
    proof -
      have "take (nat (dyn_len ?d)) (elems (mem st1) (dyn_data ?d1) ?z (nat n)) = contents st self ?sz"
        unfolding reserved(4) [symmetric] unfolding contents_def reserved(5) using n by (simp add: elems_take nat_mono)
      then show ?thesis using w(4) n b(1) by (simp add: nat_diff_distrib)
    qed
    moreover have "leaves (- territory \<union> spans (L - own_block ?d ?sz)) self st ?st"
      using leaves_trans [OF reserved(8) w(5) [unfolded reserved(7)]] .
    moreover have "nat ?k = nat n - length (contents st self ?sz)" using b(1) by (simp add: contents_def nat_diff_distrib')
    ultimately show thesis using w(1-3) reserved(7) by (intro that(2) [of ?st L']) simp_all
  qed
qed

end

context provider
begin

lemma free_own:
  assumes inv: "inv L st" and ok: "dyn_ok h territory L st self (elem_size ops)"
    and own: "own_block (dyns st self) (elem_size ops) \<noteq> {}"
    and old: "unat old = nat (dyn_cap (dyns st self)) * unat (elem_size ops)"
  obtains st' where "loke_rt_v1_free P h (dyn_data (dyns st self)) old al st = (Inr (), st')"
    and "inv (L - own_block (dyns st self) (elem_size ops)) st'" and "dyns st' self = dyns st self"
    and "untouched (- territory \<union> spans (L - own_block (dyns st self) (elem_size ops))) st st'"
proof -
  let ?d = "dyns st self"
  have eq: "own_block ?d (elem_size ops) = {(dyn_data ?d, unat old)}"
    using own by (auto simp: own_block_def old split: if_splits)
  then have "(dyn_data ?d, unat old) \<in> L" using ok by (simp add: dyn_ok_def Let_def)
  from free_law [OF inv this] obtain st' where st': "loke_rt_v1_free P h (dyn_data ?d) old al st = (Inr (), st')"
      "inv (L - own_block ?d (elem_size ops)) st'"
      "untouched (- territory \<union> spans (L - own_block ?d (elem_size ops))) st st'"
    unfolding eq by blast
  moreover have "dyns st' self = ?d" using st'(3) dyn_ok_bounds(6) [OF ok] by (rule untouched_dyns)
  ultimately show thesis by (intro that)
qed

lemma shrink_cases:
  assumes inv: "inv L st" and ok: "dyn_ok h territory L st self (elem_size ops)" and al: "pow2 (sane_container_align (elem_align ops))"
    and m: "0 \<le> m"
  obtains (refused) st' where "loke_rt_v1_dyn_shrink P self ops m st = (Inr False, st')" and "inv L st'"
      and "dyns st' self = dyns st self" and "untouched (- territory \<union> spans L) st st'"
  | (shrunk) st' L' where "loke_rt_v1_dyn_shrink P self ops m st = (Inr True, st')" and "inv L' st'"
      and "dyn_ok h territory L' st' self (elem_size ops)" and "contents st' self (elem_size ops) = contents st self (elem_size ops)"
      and "dyn_cap (dyns st' self) = min (dyn_cap (dyns st self)) (max m (dyn_len (dyns st self)))"
      and "L' - own_block (dyns st' self) (elem_size ops) = L - own_block (dyns st self) (elem_size ops)"
      and "leaves (- territory \<union> spans (L - own_block (dyns st self) (elem_size ops))) self st st'"
proof -
  let ?d = "dyns st self" and ?sz = "elem_size ops" and ?z = "unat (elem_size ops)"
  define t where "t = max m (dyn_len ?d)"
  have t': "(if dyn_len ?d < m then m else dyn_len ?d) = t" by (simp add: t_def max_def)
  note b = dyn_ok_bounds [OF ok]
  note unfolds = loke_rt_v1_dyn_shrink_def bind_def [of get_state] rt_simps Let_def t'
  show thesis
  proof (cases "dyn_cap ?d \<le> t")
    case True
    then show thesis using m inv ok by (intro shrunk [of st L]) (simp_all add: unfolds flip: t_def)
  next
    case False
    have cap: "0 \<le> dyn_cap ?d" "0 \<le> t" "dyn_len ?d \<le> t" "t \<le> INT64_MAX" "min (dyn_cap ?d) t = t" using b m False by (auto simp: t_def)
    obtain old where old: "loke_rt_v1_checked_bytes (dyn_cap ?d) ?sz = Some old" "unat old = nat (dyn_cap ?d) * ?z"
      using checked_bytes_cases [OF cap(1) b(3), of ?sz] b(4) by (metis linorder_not_less)
    have fits: "nat t * ?z < 2 ^ 64"
      using b(4) False cap(1) by (meson le_less_trans mult_le_mono1 nat_mono linorder_not_less less_imp_le)
    then obtain new where new: "loke_rt_v1_checked_bytes t ?sz = Some new" "unat new = nat t * ?z"
      using checked_bytes_cases [OF cap(2,4), of ?sz] by (metis linorder_not_less)
    show thesis
    proof (cases "new = 0")
      case zero: True
      then have none: "nat t * ?z = 0" using new(2) by simp
      have gone: "own_block (d\<lparr>dyn_data := 0, dyn_cap := t\<rparr>) ?sz = {}" for d using none by (simp add: own_block_def)
      have none': "nat (dyn_len ?d) * ?z = 0" using none cap(3) by auto
      have empty: "elems m' p ?z (nat (dyn_len ?d)) = elems m'' p' ?z (nat (dyn_len ?d))" for m' m'' p p'
        using none' by (cases "?z = 0") (auto intro: nth_equalityI)
      have self: "self \<in> - territory \<union> spans (L - own_block ?d ?sz)" by (rule b(6))
      have "\<exists>st'. (if dyn_data ?d \<noteq> 0 then loke_rt_v1_free P h (dyn_data ?d) old (sane_container_align (elem_align ops)) else return ()) st = (Inr (), st') \<and>
          inv (L - own_block ?d ?sz) st' \<and> dyns st' self = ?d \<and> untouched (- territory \<union> spans (L - own_block ?d ?sz)) st st'"
      proof (cases "own_block ?d ?sz = {}")
        case True
        then show ?thesis using inv ok by (auto simp: dyn_ok_def Let_def rt_simps)
      next
        case False
        from inv ok False old(2) show ?thesis
          by (rule free_own [where al = "sane_container_align (elem_align ops)"]) (use own_live(1) [OF inv ok False] in auto)
      qed
      then obtain st' where st': "(if dyn_data ?d \<noteq> 0 then loke_rt_v1_free P h (dyn_data ?d) old (sane_container_align (elem_align ops)) else return ()) st = (Inr (), st')"
          "inv (L - own_block ?d ?sz) st'" "dyns st' self = ?d" "untouched (- territory \<union> spans (L - own_block ?d ?sz)) st st'" by blast
      let ?st = "st'\<lparr>dyns := (dyns st')(self := ?d\<lparr>dyn_data := 0, dyn_cap := t\<rparr>)\<rparr>"
      have "loke_rt_v1_dyn_shrink P self ops m st = (Inr True, ?st)"
        using m False old(1) new(1) zero st'(1,3) b(5)
        by (simp add: unfolds) (auto simp: bind_def set_dyn_run rt_simps split: if_splits)
      moreover have "inv (L - own_block ?d ?sz) ?st" using st'(2) self by (rule inv_set_dyn)
      moreover have "dyn_ok h territory (L - own_block ?d ?sz) ?st self ?sz"
        using b cap fits self by (simp add: dyn_ok_def Let_def gone)
      moreover have "contents ?st self ?sz = contents st self ?sz"
        by (simp add: contents_def) (rule empty)
      moreover have "leaves (- territory \<union> spans (L - own_block ?d ?sz)) self st ?st"
        by (rule leaves_then_set_dyn [OF st'(4)])
      ultimately show thesis
        using cap(5) by (intro shrunk [of ?st "L - own_block ?d ?sz"]) (simp_all add: gone flip: t_def)
    next
      case nz: False
      have run: "loke_rt_v1_dyn_shrink P self ops m st = resize_storage self ops old new t ?d st"
        using nz m False old(1) new(1) b(5) by (simp add: unfolds resize_storage_def split del: if_split cong: if_cong)
      have pos: "0 < nat t * ?z" using nz new(2) by (metis gr0I unat_eq_zero)
      from inv ok al old(2) new(2) fits pos cap(3,4) show thesis
        by (cases rule: resize_storage_cases) (use run cap(5) in \<open>auto simp: t_def intro: refused shrunk\<close>)
    qed
  qed
qed

lemma contents_leaves:
  assumes "dyn_ok h territory L st other sz" and "leaves A self st st'" and "other \<noteq> self" and "other \<in> A"
    and "spans (own_block (dyns st other) sz) \<subseteq> A"
  shows "dyns st' other = dyns st other" and "contents st' other sz = contents st other sz"
proof -
  show d: "dyns st' other = dyns st other" using assms by (simp add: leaves_iff)
  have "untouched A st (st'\<lparr>dyns := (dyns st')(self := dyns st self)\<rparr>)" using assms(2) by (simp add: leaves_def)
  from contents_untouched [OF assms(1) this assms(5)] d assms(3) show "contents st' other sz = contents st other sz"
    by (simp add: contents_def)
qed

lemma inv_leaves:
  assumes "inv L st" and "leaves (territory - spans L) self st st'" and "self \<in> - territory \<union> spans L"
  shows "inv L st'"
  using assms(1) by (rule stable) (use assms(2,3) in \<open>auto simp: agree_def leaves_iff\<close>)

lemma clone_plain_cases:
  assumes inv: "inv L st" and ok: "dyn_ok h territory L st src (elem_size ops)" and al: "pow2 (sane_container_align (elem_align ops))"
    and plain: "elem_clone ops = None" and out: "out \<noteq> src" "out \<in> - territory \<union> spans (L - own_block (dyns st src) (elem_size ops))"
  obtains (refused) st' where "loke_rt_v1_dyn_clone P out src ops h st = (Inr False, st')" and "inv L st'"
      and "dyns st' out = zero_dyn\<lparr>dyn_allocator := h\<rparr>" and "leaves (- territory \<union> spans L) out st st'"
  | (cloned) st' L' where "loke_rt_v1_dyn_clone P out src ops h st = (Inr True, st')" and "inv L' st'"
      and "dyn_ok h territory L' st' out (elem_size ops)" and "contents st' out (elem_size ops) = contents st src (elem_size ops)"
      and "dyns st' src = dyns st src" and "contents st' src (elem_size ops) = contents st src (elem_size ops)"
      and "L' - own_block (dyns st' out) (elem_size ops) = L"
      and "leaves (- territory \<union> spans L) out st st'"
proof -
  let ?d = "dyns st src" and ?sz = "elem_size ops" and ?z = "unat (elem_size ops)" and ?n = "dyn_len (dyns st src)"
  let ?zero = "zero_dyn\<lparr>dyn_allocator := h\<rparr>"
  define st0 where "st0 = st\<lparr>dyns := (dyns st)(out := ?zero)\<rparr>"
  note b = dyn_ok_bounds [OF ok]
  have out': "out \<in> - territory \<union> spans L" using out(2) spans_mono [of "L - own_block ?d ?sz" L] by auto
  have src': "src \<in> - territory \<union> spans L" using b(6) spans_mono [of "L - own_block ?d ?sz" L] by auto
  have block: "spans (own_block ?d ?sz) \<subseteq> - territory \<union> spans L"
    using ok spans_mono [of "own_block ?d ?sz" L] by (auto simp: dyn_ok_def Let_def)
  have inv0: "inv L st0" unfolding st0_def by (rule inv_set_dyn [OF inv out'])
  have own0: "own_block (dyns st0 out) ?sz = {}" by (simp add: st0_def own_block_def zero_dyn_def)
  have ok0: "dyn_ok h territory L st0 out ?sz"
    unfolding dyn_ok_def Let_def own0 using out' by (simp add: st0_def zero_dyn_def INT64_MAX_def)
  have leaves0: "leaves A out st st0" for A unfolding st0_def by (rule leaves_set_dyn)
  have d0: "dyns st0 src = ?d" using out(1) by (simp add: st0_def)
  have run: "loke_rt_v1_dyn_clone P out src ops h st =
      (if ?n = 0 then (Inr True, st0)
       else bind (loke_rt_v1_dyn_reserve P out ops ?n) (\<lambda>ok.
         if \<not> ok then bind (set_dyn out (\<lambda>_. ?zero)) (\<lambda>_. return False)
         else (case loke_rt_v1_checked_bytes ?n ?sz of
               None \<Rightarrow> bind (loke_rt_v1_dyn_drop P out ops) (\<lambda>_.
                 bind (set_dyn out (\<lambda>d. d\<lparr>dyn_allocator := h\<rparr>)) (\<lambda>_. return False))
             | Some bytes \<Rightarrow> bind get_state (\<lambda>st.
                 bind (memcpy (dyn_data (dyns st out)) (dyn_data (dyns st src)) bytes) (\<lambda>_.
                 bind (set_dyn out (\<lambda>d. d\<lparr>dyn_len := ?n\<rparr>)) (\<lambda>_. return True))))) st0)"
    using plain out(1) by (simp add: loke_rt_v1_dyn_clone_def bind_def [of "set_dyn _ _" _ st] bind_def [of get_state _ "st\<lparr>dyns := _\<rparr>"]
      set_dyn_run rt_simps Let_def st0_def cong: if_cong option.case_cong)
  show thesis
  proof (cases "?n = 0")
    case True
    have "contents st0 out ?sz = []" by (simp add: contents_def st0_def zero_dyn_def)
    moreover have "contents st0 src ?sz = contents st src ?sz" "contents st src ?sz = []"
      using True d0 by (simp_all add: contents_def)
    ultimately show thesis using True run inv0 ok0 own0 d0 leaves0 by (intro cloned [of st0 L]) simp_all
  next
    case False
    have n: "0 \<le> ?n" "?n \<le> INT64_MAX" using b by auto
    from inv0 ok0 n al show thesis
  proof (cases rule: reserve_cases)
      case (refused st1)
      let ?st = "st1\<lparr>dyns := (dyns st1)(out := ?zero)\<rparr>"
      have "inv L ?st" using refused(2) out' by (rule inv_set_dyn)
      moreover have "leaves (- territory \<union> spans L) out st ?st"
        by (rule leaves_trans [OF leaves0 leaves_then_set_dyn [OF refused(4)]])
      moreover have "loke_rt_v1_dyn_clone P out src ops h st = (Inr False, ?st)"
        using False run refused(1) by (simp add: bind_def set_dyn_run rt_simps)
      ultimately show thesis by (intro that(1) [of ?st]) simp_all
    next
      case (reserved st1 L')
      note leaves1 = leaves_trans [OF leaves0 reserved(8) [unfolded own0 Diff_empty]]
      note s1 = contents_leaves [OF ok leaves1 out(1) [symmetric] src' block]
      let ?d1 = "dyns st1 out" and ?es = "contents st src ?sz"
      have es: "\<forall>e \<in> set ?es. length e = ?z" and en: "0 + length ?es \<le> nat ?n"
        using elems_sized by (auto simp: contents_def)
      note w = write_elements [OF reserved(2,3) es en n(1) reserved(6)]
      let ?st = "st1\<lparr>mem := store (mem st1) (slot (dyn_data ?d1) ?z 0) (concat ?es),
        dyns := (dyns st1)(out := ?d1\<lparr>dyn_len := ?n\<rparr>)\<rparr>"
      have "nat ?n * ?z < 2 ^ 64" using b by (meson le_less_trans mult_le_mono1 nat_mono)
      then obtain bytes where bytes: "loke_rt_v1_checked_bytes ?n ?sz = Some bytes" "unat bytes = nat ?n * ?z"
        using checked_bytes_cases [OF n, of ?sz] by (metis linorder_not_less)
      have copied: "load (mem st1) (dyn_data ?d) (unat bytes) = concat ?es"
        unfolding bytes(2) load_elems s1(2) [symmetric] by (simp add: contents_def s1(1))
      have "loke_rt_v1_dyn_clone P out src ops h st = (Inr True, ?st)"
        using False run reserved(1) bytes(1) copied s1(1) by (simp add: bind_def set_dyn_run rt_simps memcpy_def)
      moreover have "contents ?st out ?sz = ?es"
        unfolding w(4) by (simp add: contents_def)
      moreover have leaves2: "leaves (- territory \<union> spans L) out st ?st"
        by (rule leaves_trans [OF leaves1 w(5) [unfolded reserved(7) own0 Diff_empty]])
      ultimately show thesis
        using w(1-3) reserved(7) own0 contents_leaves [OF ok leaves2 out(1) [symmetric] src' block]
        by (intro that(2) [of ?st L']) simp_all
    qed
  qed
qed

end

section \<open>Dropping elements\<close>

text \<open>A drop hook that records its argument in \<open>world\<close> and leaves the array's struct alone; it may panic.\<close>

definition logs_drops :: "addr \<Rightarrow> (addr \<Rightarrow> (addr list rt, unit) proc) \<Rightarrow> bool" where
  "logs_drops self hook \<longleftrightarrow>
     (\<forall>p st. dyns (snd (hook p st)) self = dyns st self \<and> world (snd (hook p st)) = world st @ [p])"

lemma drop_down_run:
  assumes hook: "logs_drops self hook" and n: "n \<le> dyn_len (dyns st self)"
  obtains r st' j where "dyn_drop_down_to self ops hook n st = (r, st')" and "n \<le> j" and "j \<le> dyn_len (dyns st self)"
    and "dyns st' self = (dyns st self)\<lparr>dyn_len := j\<rparr>"
    and "world st' = world st @ map (dyn_at (dyns st self) ops) (rev [j..dyn_len (dyns st self) - 1])"
    and "r = Inr () \<and> j = n \<or> (\<exists>e. r = Inl e)"
proof -
  have "\<exists>r st' j. dyn_drop_down_to self ops hook n st = (r, st') \<and> n \<le> j \<and> j \<le> dyn_len (dyns st self) \<and>
      dyns st' self = (dyns st self)\<lparr>dyn_len := j\<rparr> \<and>
      world st' = world st @ map (dyn_at (dyns st self) ops) (rev [j..dyn_len (dyns st self) - 1]) \<and>
      (r = Inr () \<and> j = n \<or> (\<exists>e. r = Inl e))"
    using n
  proof (induction "nat (dyn_len (dyns st self) - n)" arbitrary: st)
    case 0
    then have "dyn_len (dyns st self) = n" by simp
    then show ?case by (intro exI [of _ "Inr ()"] exI [of _ st] exI [of _ n]) (simp add: dyn_drop_down_to_def rt_simps)
  next
    case (Suc k)
    let ?d = "dyns st self" and ?m = "dyn_len (dyns st self) - 1"
    let ?st1 = "st\<lparr>dyns := (dyns st)(self := ?d\<lparr>dyn_len := ?m\<rparr>)\<rparr>"
    obtain r1 st2 where h: "hook (dyn_at ?d ops ?m) ?st1 = (r1, st2)" by fastforce
    have at: "dyn_at (?d\<lparr>dyn_len := i\<rparr>) ops = dyn_at ?d ops" for i by (simp add: dyn_at_def fun_eq_iff)
    from hook have "dyns (snd (hook (dyn_at ?d ops ?m) ?st1)) self = dyns ?st1 self \<and>
        world (snd (hook (dyn_at ?d ops ?m) ?st1)) = world ?st1 @ [dyn_at ?d ops ?m]"
      unfolding logs_drops_def by blast
    then have st2: "dyns st2 self = ?d\<lparr>dyn_len := ?m\<rparr>" "world st2 = world st @ [dyn_at ?d ops ?m]"
      by (simp_all add: h)
    have step: "dyn_drop_last self ops hook st = (r1, st2)"
      using h by (simp add: dyn_drop_last_def bind_def set_dyn_run rt_simps at)
    have more: "dyn_len ?d > n" using Suc(2) by simp
    show ?case
    proof (cases r1)
      case (Inl e)
      then have "dyn_drop_down_to self ops hook n st = (Inl e, st2)"
        using step more by (simp add: dyn_drop_down_to_def rt_simps)
      with st2 more show ?thesis
        by (intro exI [of _ "Inl e"] exI [of _ st2] exI [of _ ?m]) simp
    next
      case (Inr u)
      then have go: "dyn_drop_down_to self ops hook n st = dyn_drop_down_to self ops hook n st2"
        using step more by (simp add: dyn_drop_down_to_def rt_simps)
      have "k = nat (dyn_len (dyns st2 self) - n)" "n \<le> dyn_len (dyns st2 self)" using Suc(2) more st2 by auto
      from Suc(1) [OF this] obtain r st' j where IH: "dyn_drop_down_to self ops hook n st2 = (r, st')" "n \<le> j" "j \<le> ?m"
          "dyns st' self = ?d\<lparr>dyn_len := j\<rparr>" "world st' = world st2 @ map (dyn_at ?d ops) (rev [j..?m - 1])"
          "r = Inr () \<and> j = n \<or> (\<exists>e. r = Inl e)"
        by (auto simp: st2 at)
      have "[j..?m] = [j..?m - 1] @ [?m]" using IH(3) by (rule upto_rec2)
      with IH st2 go show ?thesis by (intro exI [of _ r] exI [of _ st'] exI [of _ j]) simp
    qed
  qed
  then show thesis using that by blast
qed

section \<open>The array refines a list\<close>

datatype dyn_call = Reserve int | Append addr addr int | Insert int addr int | Pop addr | Remove int addr bool
  | Resize int | Shrink int | Clear

definition dyn_run :: "'w providers \<Rightarrow> addr \<Rightarrow> 'w container_ops \<Rightarrow> dyn_call \<Rightarrow> ('w rt, bool) proc" where
  "dyn_run P self ops c = (case c of
     Reserve m \<Rightarrow> loke_rt_v1_dyn_reserve P self ops m
   | Append src owned n \<Rightarrow> loke_rt_v1_dyn_append_owned P self ops src owned n
   | Insert i src n \<Rightarrow> loke_rt_v1_dyn_insert P self ops i src n
   | Pop out \<Rightarrow> loke_rt_v1_dyn_pop self ops out
   | Remove i out unordered \<Rightarrow> bind (loke_rt_v1_dyn_remove self ops i out unordered) (\<lambda>_. return True)
   | Resize n \<Rightarrow> loke_rt_v1_dyn_resize P self ops n
   | Shrink m \<Rightarrow> loke_rt_v1_dyn_shrink P self ops m
   | Clear \<Rightarrow> bind (loke_rt_v1_dyn_clear self ops) (\<lambda>_. return True))"

text \<open>The list operation, the result buffer, and what a caller must respect.\<close>

definition list_call :: "(addr \<Rightarrow> u8) \<Rightarrow> nat \<Rightarrow> dyn_call \<Rightarrow> u8 list list \<Rightarrow> u8 list list" where
  "list_call m z c xs = (case c of
     Reserve _ \<Rightarrow> xs
   | Append src _ n \<Rightarrow> xs @ elems m src z (nat n)
   | Insert i src n \<Rightarrow> take (nat i) xs @ elems m src z (nat n) @ drop (nat i) xs
   | Pop _ \<Rightarrow> butlast xs
   | Remove i _ unordered \<Rightarrow>
       if unordered then butlast (xs[nat i := last xs]) else take (nat i) xs @ drop (Suc (nat i)) xs
   | Resize n \<Rightarrow> take (nat n) xs @ replicate (nat n - length xs) (replicate z 0)
   | Shrink _ \<Rightarrow> xs
   | Clear \<Rightarrow> [])"

definition taken :: "dyn_call \<Rightarrow> u8 list list \<Rightarrow> (addr \<times> u8 list) list" where
  "taken c xs = (case c of
     Pop out \<Rightarrow> if xs = [] then [] else [(out, last xs)]
   | Remove i out _ \<Rightarrow> [(out, xs ! nat i)]
   | _ \<Rightarrow> [])"

definition buffer :: "dyn_call \<Rightarrow> nat \<Rightarrow> addr set" where
  "buffer c z = (case c of Pop out \<Rightarrow> span out z | Remove _ out _ \<Rightarrow> span out z | _ \<Rightarrow> {})"

definition call_ok :: "addr set \<Rightarrow> live \<Rightarrow> 'w rt \<Rightarrow> addr \<Rightarrow> 'w container_ops \<Rightarrow> dyn_call \<Rightarrow> bool" where
  "call_ok territory L st self ops c \<longleftrightarrow>
     buffer c (unat (elem_size ops)) \<subseteq> - territory \<union> spans (L - own_block (dyns st self) (elem_size ops)) \<and>
     (case c of
       Reserve m \<Rightarrow> 0 \<le> m \<and> m \<le> INT64_MAX
     | Append src _ n \<Rightarrow> 0 \<le> n \<and> n \<le> INT64_MAX \<and> source_ok territory L st self (elem_size ops) src n
     | Insert i src n \<Rightarrow> 0 \<le> i \<and> i \<le> dyn_len (dyns st self) \<and> 0 \<le> n \<and> n \<le> INT64_MAX \<and>
         insert_source_ok territory L st self ops src n
     | Pop _ \<Rightarrow> True
     | Remove i _ _ \<Rightarrow> 0 \<le> i \<and> i < dyn_len (dyns st self)
     | Resize n \<Rightarrow> 0 \<le> n \<and> n \<le> INT64_MAX
     | Shrink m \<Rightarrow> 0 \<le> m
     | Clear \<Rightarrow> True)"

text \<open>What one call has done.\<close>

definition simulated :: "addr \<Rightarrow> addr set \<Rightarrow> (live \<Rightarrow> 'w rt \<Rightarrow> bool) \<Rightarrow> addr \<Rightarrow> 'w container_ops \<Rightarrow> dyn_call \<Rightarrow>
    live \<Rightarrow> 'w rt \<Rightarrow> bool \<Rightarrow> live \<Rightarrow> 'w rt \<Rightarrow> bool" where
  "simulated h territory keeps self ops c L st ok L' st' \<longleftrightarrow>
     (let sz = elem_size ops; z = unat sz; xs = contents st self sz; rest = L - own_block (dyns st self) sz in
      keeps L' st' \<and> dyn_ok h territory L' st' self sz \<and> L' - own_block (dyns st' self) sz = rest \<and>
      contents st' self sz = (if ok then list_call (mem st) z c xs else xs) \<and>
      list_all (\<lambda>(out, e). load (mem st') out z = e) (taken c xs) \<and>
      leaves (- territory \<union> spans rest - buffer c z) self st st')"

context provider
begin

lemma simulated_refused:
  assumes ok: "dyn_ok h territory L st self (elem_size ops)" and "inv L st'" and d: "dyns st' self = dyns st self"
    and un: "untouched (- territory \<union> spans L) st st'" and "taken c (contents st self (elem_size ops)) = []"
  shows "simulated h territory inv self ops c L st False L st'"
proof -
  let ?own = "own_block (dyns st self) (elem_size ops)"
  have "?own \<subseteq> L" using ok by (simp add: dyn_ok_def Let_def)
  then have "contents st' self (elem_size ops) = contents st self (elem_size ops)"
    using spans_mono [of ?own L] by (intro contents_untouched [OF ok un _ d]) auto
  moreover have "dyn_ok h territory L st' self (elem_size ops)" using ok by (simp add: dyn_ok_def d)
  moreover have "leaves (- territory \<union> spans (L - ?own) - buffer c (unat (elem_size ops))) self st st'"
    using spans_mono [of "L - ?own" L] by (intro leaves_untouched [OF untouched_mono [OF un]]) auto
  ultimately show ?thesis using assms(2,5) by (simp add: simulated_def Let_def d)
qed

lemma simulated_done:
  assumes "inv L' st'" and "dyn_ok h territory L' st' self (elem_size ops)"
    and "L' - own_block (dyns st' self) (elem_size ops) = L - own_block (dyns st self) (elem_size ops)"
    and "contents st' self (elem_size ops) = list_call (mem st) (unat (elem_size ops)) c (contents st self (elem_size ops))"
    and "leaves (- territory \<union> spans (L - own_block (dyns st self) (elem_size ops))) self st st'"
    and "taken c (contents st self (elem_size ops)) = []"
  shows "simulated h territory inv self ops c L st True L' st'"
  using assms leaves_mono [OF assms(5), of "- territory \<union> spans (L - own_block (dyns st self) (elem_size ops)) - buffer c (unat (elem_size ops))"]
  by (simp add: simulated_def Let_def)

lemma truncate_plain:
  assumes inv: "inv L st" and ok: "dyn_ok h territory L st self (elem_size ops)" and plain: "elem_drop ops = None"
    and n: "0 \<le> n" "n \<le> dyn_len (dyns st self)"
  obtains st' where "dyn_truncate self ops n st = (Inr (), st')" and "inv L st'"
    and "dyn_ok h territory L st' self (elem_size ops)" and "own_block (dyns st' self) (elem_size ops) = own_block (dyns st self) (elem_size ops)"
    and "contents st' self (elem_size ops) = take (nat n) (contents st self (elem_size ops))" and "leaves UNIV self st st'"
  using set_len [OF inv ok n] that plain by (simp add: dyn_truncate_def set_dyn_run)

lemma simulated_still:
  assumes "inv L st" and "dyn_ok h territory L st self (elem_size ops)" and "taken c (contents st self (elem_size ops)) = []"
    and "list_call (mem st) (unat (elem_size ops)) c (contents st self (elem_size ops)) = contents st self (elem_size ops)"
  shows "simulated h territory inv self ops c L st True L st"
  using assms by (intro simulated_done) simp_all

lemma call_refused:
  assumes "p st = (Inr False, st')" and "inv L st'" and "dyns st' self = dyns st self"
    and "untouched (- territory \<union> spans L) st st'" and "taken c (contents st self (elem_size ops)) = []"
    and "dyn_ok h territory L st self (elem_size ops)"
  shows "\<exists>r st' L'. p st = (Inr r, st') \<and> simulated h territory inv self ops c L st r L' st'"
  using simulated_refused assms by blast

lemma call_done:
  assumes "p st = (Inr True, st')" and "inv L' st'" and "dyn_ok h territory L' st' self (elem_size ops)"
    and "contents st' self (elem_size ops) = list_call (mem st) (unat (elem_size ops)) c (contents st self (elem_size ops))"
    and "L' - own_block (dyns st' self) (elem_size ops) = L - own_block (dyns st self) (elem_size ops)"
    and "leaves (- territory \<union> spans (L - own_block (dyns st self) (elem_size ops))) self st st'"
    and "taken c (contents st self (elem_size ops)) = []"
  shows "\<exists>r st' L'. p st = (Inr r, st') \<and> simulated h territory inv self ops c L st r L' st'"
  using simulated_done assms by blast

lemma call_reserve:
  assumes inv: "inv L st"
    and ok: "dyn_ok h territory L st self (elem_size ops)"
    and al: "pow2 (sane_container_align (elem_align ops))"
    and c: "call_ok territory L st self ops (Reserve m)"
  shows "\<exists>r st' L'. dyn_run P self ops (Reserve m) st = (Inr r, st') \<and> simulated h territory inv self ops (Reserve m) L st r L' st'"
proof -
  from c have m: "0 \<le> m" "m \<le> INT64_MAX" by (auto simp: call_ok_def)
  from inv ok m al show ?thesis
  proof (cases rule: reserve_cases)
    case (refused st')
    then show ?thesis using ok by (intro call_refused) (simp_all add: dyn_run_def taken_def)
  next
    case (reserved st' L')
    from reserved(1-4,7,8) show ?thesis by (intro call_done) (simp_all add: dyn_run_def taken_def list_call_def)
  qed
qed

lemma call_append:
  assumes inv: "inv L st"
    and ok: "dyn_ok h territory L st self (elem_size ops)"
    and al: "pow2 (sane_container_align (elem_align ops))"
    and plain: "elem_clone ops = None"
    and c: "call_ok territory L st self ops (Append src owned n)"
  shows "\<exists>r st' L'. dyn_run P self ops (Append src owned n) st = (Inr r, st') \<and> simulated h territory inv self ops (Append src owned n) L st r L' st'"
proof -
  let ?sz = "elem_size ops"
  show ?thesis
  proof (cases "n = 0")
    case True
    then show ?thesis using simulated_still [OF inv ok, of "Append src owned n"]
      by (auto simp: dyn_run_def loke_rt_v1_dyn_append_owned_def rt_simps taken_def list_call_def)
  next
    case False
    with c have n: "0 < n" "n \<le> INT64_MAX" "source_ok territory L st self ?sz src n" by (auto simp: call_ok_def)
    from inv ok al plain n show ?thesis
    proof (cases rule: append_plain_cases [where owned = owned])
      case (refused st')
      then show ?thesis using ok by (intro call_refused) (simp_all add: dyn_run_def taken_def)
    next
      case (appended st' L')
      from appended show ?thesis by (intro call_done) (simp_all add: dyn_run_def taken_def list_call_def)
    qed
  qed
qed

lemma call_insert:
  assumes inv: "inv L st"
    and ok: "dyn_ok h territory L st self (elem_size ops)"
    and al: "pow2 (sane_container_align (elem_align ops))"
    and plain: "elem_clone ops = None"
    and c: "call_ok territory L st self ops (Insert i src n)"
  shows "\<exists>r st' L'. dyn_run P self ops (Insert i src n) st = (Inr r, st') \<and> simulated h territory inv self ops (Insert i src n) L st r L' st'"
proof -
  let ?n = "dyn_len (dyns st self)"
  from c have i: "0 \<le> i" "i \<le> ?n" by (auto simp: call_ok_def)
  show ?thesis
  proof (cases "n = 0")
    case True
    then show ?thesis using simulated_still [OF inv ok, of "Insert i src n"] i
      by (auto simp: dyn_run_def loke_rt_v1_dyn_insert_def rt_simps taken_def list_call_def bind_def)
  next
    case False
    with c have n: "0 < n" "n \<le> INT64_MAX" "insert_source_ok territory L st self ops src n" by (auto simp: call_ok_def)
    from inv ok al plain i n show ?thesis
    proof (cases rule: insert_plain_cases)
      case (refused st')
      then show ?thesis using ok by (intro call_refused) (simp_all add: dyn_run_def taken_def)
    next
      case (inserted st' L')
      from inserted show ?thesis by (intro call_done) (simp_all add: dyn_run_def taken_def list_call_def)
    qed
  qed
qed

lemma call_pop:
  assumes inv: "inv L st"
    and ok: "dyn_ok h territory L st self (elem_size ops)"
    and c: "call_ok territory L st self ops (Pop out)"
  shows "\<exists>r st' L'. dyn_run P self ops (Pop out) st = (Inr r, st') \<and> simulated h territory inv self ops (Pop out) L st r L' st'"
proof -
  let ?sz = "elem_size ops" and ?xs = "contents st self (elem_size ops)" and ?n = "dyn_len (dyns st self)"
  note b = dyn_ok_bounds [OF ok]
  from c have out: "span out (unat ?sz) \<subseteq> - territory \<union> spans (L - own_block (dyns st self) ?sz)"
    by (simp add: call_ok_def buffer_def)
  show ?thesis
  proof (cases "?n = 0")
    case True
    note w = write_outside [OF inv ok, of "replicate (unat ?sz) 0" out, unfolded length_replicate, OF less_imp_le [OF unat_u64_lt] out]
    have "simulated h territory inv self ops (Pop out) L st False L (st\<lparr>mem := store (mem st) out (replicate (unat ?sz) 0)\<rparr>)"
      using w leaves_mono [OF w(4)] True by (auto simp: simulated_def Let_def taken_def buffer_def contents_def)
    then show ?thesis using True by (auto simp: dyn_run_def loke_rt_v1_dyn_pop_def rt_simps bind_def memset_def)
  next
    case False
    with b(1) have "0 < ?n" by simp
    from inv ok this out show ?thesis
    proof (rule pop_run)
      fix st' assume st': "loke_rt_v1_dyn_pop self ops out st = (Inr True, st')" "inv L st'"
        "dyn_ok h territory L st' self ?sz" "contents st' self ?sz = butlast ?xs"
        "load (mem st') out (unat ?sz) = last ?xs" "leaves (- span out (unat ?sz)) self st st'"
      then have "dyns st' self = (dyns st self)\<lparr>dyn_len := ?n - 1\<rparr>"
        using False by (auto simp: loke_rt_v1_dyn_pop_def rt_simps bind_def set_dyn_run memcpy_def)
      then have "own_block (dyns st' self) ?sz = own_block (dyns st self) ?sz" by (simp add: own_block_def)
      with st' leaves_mono [OF st'(6)] have "simulated h territory inv self ops (Pop out) L st True L st'"
        by (auto simp: simulated_def Let_def taken_def buffer_def list_call_def)
      with st'(1) show ?thesis by (auto simp: dyn_run_def)
    qed
  qed
qed

lemma call_remove:
  assumes inv: "inv L st"
    and ok: "dyn_ok h territory L st self (elem_size ops)"
    and c: "call_ok territory L st self ops (Remove i out u)"
  shows "\<exists>r st' L'. dyn_run P self ops (Remove i out u) st = (Inr r, st') \<and> simulated h territory inv self ops (Remove i out u) L st r L' st'"
proof -
  let ?sz = "elem_size ops" and ?xs = "contents st self (elem_size ops)" and ?n = "dyn_len (dyns st self)"
  from c have i: "0 \<le> i" "i < ?n" and out: "span out (unat ?sz) \<subseteq> - territory \<union> spans (L - own_block (dyns st self) ?sz)"
    by (auto simp: call_ok_def buffer_def)
  from inv ok i out show ?thesis
  proof (rule remove_run [where unordered = u])
    fix st' assume st': "loke_rt_v1_dyn_remove self ops i out u st = (Inr (), st')" "inv L st'" "dyn_ok h territory L st' self ?sz"
      "contents st' self ?sz = (if u then butlast (?xs[nat i := last ?xs]) else take (nat i) ?xs @ drop (Suc (nat i)) ?xs)"
      "load (mem st') out (unat ?sz) = ?xs ! nat i"
      "leaves (- territory \<union> spans (L - own_block (dyns st self) ?sz) - span out (unat ?sz)) self st st'"
    then have "dyns st' self = (dyns st self)\<lparr>dyn_len := ?n - 1\<rparr>"
      using i by (auto simp: loke_rt_v1_dyn_remove_def rt_simps bind_def set_dyn_run memcpy_def memmove_def Let_def
        split: if_splits option.splits)
    then have "own_block (dyns st' self) ?sz = own_block (dyns st self) ?sz" by (simp add: own_block_def)
    with st' have "simulated h territory inv self ops (Remove i out u) L st True L st'"
      by (simp add: simulated_def Let_def taken_def buffer_def list_call_def)
    with st'(1) show ?thesis by (auto simp: dyn_run_def bind_def rt_simps)
  qed
qed

lemma call_resize:
  assumes inv: "inv L st"
    and ok: "dyn_ok h territory L st self (elem_size ops)"
    and al: "pow2 (sane_container_align (elem_align ops))"
    and plain: "elem_drop ops = None"
    and c: "call_ok territory L st self ops (Resize n)"
  shows "\<exists>r st' L'. dyn_run P self ops (Resize n) st = (Inr r, st') \<and> simulated h territory inv self ops (Resize n) L st r L' st'"
proof -
  let ?sz = "elem_size ops" and ?xs = "contents st self (elem_size ops)" and ?n = "dyn_len (dyns st self)"
  have len: "length (contents st self (elem_size ops)) = nat (dyn_len (dyns st self))" by (simp add: contents_def)
  from c have n: "0 \<le> n" "n \<le> INT64_MAX" by (auto simp: call_ok_def)
  consider "n < ?n" | "n = ?n" | "?n < n" by linarith
  then show ?thesis
  proof cases
    case 1
    then have "n \<le> ?n" by simp
    with inv ok plain n(1) show ?thesis
    proof (rule truncate_plain)
      fix st' assume st': "dyn_truncate self ops n st = (Inr (), st')" "inv L st'" "dyn_ok h territory L st' self ?sz"
        "own_block (dyns st' self) ?sz = own_block (dyns st self) ?sz" "contents st' self ?sz = take (nat n) ?xs" "leaves UNIV self st st'"
      then show ?thesis using 1 n len leaves_mono [OF st'(6)]
        by (intro call_done [of _ _ st' L]) (simp_all add: dyn_run_def loke_rt_v1_dyn_resize_def bind_def rt_simps taken_def list_call_def)
    qed
  next
    case 2
    then show ?thesis using simulated_still [OF inv ok, of "Resize n"] n len
      by (auto simp: dyn_run_def loke_rt_v1_dyn_resize_def bind_def rt_simps taken_def list_call_def)
  next
    case 3
    from inv ok al 3 n(2) show ?thesis
    proof (cases rule: resize_grow_cases)
      case (refused st')
      then show ?thesis using ok by (intro call_refused) (simp_all add: dyn_run_def taken_def)
    next
      case (resized st' L')
      then show ?thesis using len 3 by (intro call_done) (simp_all add: dyn_run_def taken_def list_call_def)
    qed
  qed
qed

lemma call_shrink:
  assumes inv: "inv L st"
    and ok: "dyn_ok h territory L st self (elem_size ops)"
    and al: "pow2 (sane_container_align (elem_align ops))"
    and c: "call_ok territory L st self ops (Shrink m)"
  shows "\<exists>r st' L'. dyn_run P self ops (Shrink m) st = (Inr r, st') \<and> simulated h territory inv self ops (Shrink m) L st r L' st'"
proof -
  from c have m: "0 \<le> m" by (auto simp: call_ok_def)
  from inv ok al m show ?thesis
  proof (cases rule: shrink_cases)
    case (refused st')
    then show ?thesis using ok by (intro call_refused) (simp_all add: dyn_run_def taken_def)
  next
    case (shrunk st' L')
    from shrunk(1-4,6,7) show ?thesis by (intro call_done) (simp_all add: dyn_run_def taken_def list_call_def)
  qed
qed

lemma call_clear:
  assumes inv: "inv L st"
    and ok: "dyn_ok h territory L st self (elem_size ops)"
    and plain: "elem_drop ops = None"
  shows "\<exists>r st' L'. dyn_run P self ops Clear st = (Inr r, st') \<and> simulated h territory inv self ops Clear L st r L' st'"
proof -
  let ?sz = "elem_size ops" and ?xs = "contents st self (elem_size ops)"
  note b = dyn_ok_bounds [OF ok]
  from inv ok plain order_refl b(1) show ?thesis
  proof (rule truncate_plain)
    fix st' assume st': "dyn_truncate self ops 0 st = (Inr (), st')" "inv L st'" "dyn_ok h territory L st' self ?sz"
      "own_block (dyns st' self) ?sz = own_block (dyns st self) ?sz" "contents st' self ?sz = take (nat 0) ?xs" "leaves UNIV self st st'"
    then show ?thesis using leaves_mono [OF st'(6)]
      by (intro call_done [of _ _ st' L]) (simp_all add: dyn_run_def loke_rt_v1_dyn_clear_def bind_def rt_simps taken_def list_call_def)
  qed
qed

lemma call_simulates:
  assumes inv: "inv L st" and ok: "dyn_ok h territory L st self (elem_size ops)" and al: "pow2 (sane_container_align (elem_align ops))"
    and plain: "elem_clone ops = None" "elem_drop ops = None" and c: "call_ok territory L st self ops c"
  shows "\<exists>r st' L'. dyn_run P self ops c st = (Inr r, st') \<and> simulated h territory inv self ops c L st r L' st'"
proof (cases c)
  case (Reserve m)
  show ?thesis unfolding Reserve by (rule call_reserve [OF inv ok al c [unfolded Reserve]])
next
  case (Append src owned n)
  show ?thesis unfolding Append by (rule call_append [OF inv ok al plain(1) c [unfolded Append]])
next
  case (Insert i src n)
  show ?thesis unfolding Insert by (rule call_insert [OF inv ok al plain(1) c [unfolded Insert]])
next
  case (Pop out)
  show ?thesis unfolding Pop by (rule call_pop [OF inv ok c [unfolded Pop]])
next
  case (Remove i out u)
  show ?thesis unfolding Remove by (rule call_remove [OF inv ok c [unfolded Remove]])
next
  case (Resize n)
  show ?thesis unfolding Resize by (rule call_resize [OF inv ok al plain(2) c [unfolded Resize]])
next
  case (Shrink m)
  show ?thesis unfolding Shrink by (rule call_shrink [OF inv ok al c [unfolded Shrink]])
next
  case Clear
  show ?thesis unfolding Clear by (rule call_clear [OF inv ok plain(2)])
qed

lemma drop_run:
  assumes inv: "inv L st" and ok: "dyn_ok h territory L st self (elem_size ops)"
    and loop: "(case elem_drop ops of None \<Rightarrow> return () | Some hook \<Rightarrow> dyn_drop_down_to self ops hook 0) st = (Inr (), st1)"
    and d1: "dyns st1 self = (dyns st self)\<lparr>dyn_len := k\<rparr>" "0 \<le> k" "k \<le> dyn_len (dyns st self)" and l1: "leaves UNIV self st st1"
  shows "\<exists>st'. loke_rt_v1_dyn_drop P self ops st = (Inr (), st') \<and> inv (L - own_block (dyns st self) (elem_size ops)) st' \<and>
    dyns st' self = zero_dyn \<and> leaves (- territory \<union> spans (L - own_block (dyns st self) (elem_size ops))) self st st'"
proof -
  let ?d = "dyns st self" and ?sz = "elem_size ops"
  note b = dyn_ok_bounds [OF ok]
  have self: "self \<in> - territory \<union> spans L" using b(6) spans_mono [of "L - own_block ?d ?sz" L] by auto
  have inv1: "inv L st1" using inv leaves_mono [OF l1 subset_UNIV] self by (rule inv_leaves)
  have ok1: "dyn_ok h territory L st1 self ?sz" and own1: "own_block (dyns st1 self) ?sz = own_block ?d ?sz"
    using dyn_ok_len [OF ok d1(1,2)] d1(3) b(2) by auto
  have "0 \<le> dyn_cap ?d" using b by simp
  then obtain bytes where bytes: "loke_rt_v1_checked_bytes (dyn_cap ?d) ?sz = Some bytes" "unat bytes = nat (dyn_cap ?d) * unat ?sz"
    using checked_bytes_cases [OF _ b(3), of ?sz] b(4) by (metis linorder_not_less)
  have "\<exists>st2. (if dyn_data ?d \<noteq> 0
        then (case loke_rt_v1_checked_bytes (dyn_cap ?d) ?sz of
            Some bytes \<Rightarrow> if bytes \<noteq> 0 then loke_rt_v1_free P h (dyn_data ?d) bytes (sane_container_align (elem_align ops)) else return ()
          | None \<Rightarrow> return ()) else return ()) st1 = (Inr (), st2) \<and>
      inv (L - own_block ?d ?sz) st2 \<and> untouched (- territory \<union> spans (L - own_block ?d ?sz)) st1 st2"
  proof (cases "own_block ?d ?sz = {}")
    case True
    then have "dyn_data ?d = 0" using ok by (simp add: dyn_ok_def Let_def)
    with True inv1 show ?thesis by (auto simp: rt_simps)
  next
    case False
    then have "own_block (dyns st1 self) ?sz \<noteq> {}" "bytes \<noteq> 0" "dyn_data ?d \<noteq> 0"
      using own1 bytes(2) own_live(1) [OF inv ok False] by (auto simp: own_block_def split: if_splits)
    moreover have "unat bytes = nat (dyn_cap (dyns st1 self)) * unat ?sz" using bytes(2) d1(1) by simp
    ultimately show ?thesis
      using free_own [OF inv1 ok1, of bytes "sane_container_align (elem_align ops)"] bytes(1) d1(1) unfolding own1 by auto
  qed
  then obtain st2 where st2: "(if dyn_data ?d \<noteq> 0
        then (case loke_rt_v1_checked_bytes (dyn_cap ?d) ?sz of
            Some bytes \<Rightarrow> if bytes \<noteq> 0 then loke_rt_v1_free P h (dyn_data ?d) bytes (sane_container_align (elem_align ops)) else return ()
          | None \<Rightarrow> return ()) else return ()) st1 = (Inr (), st2)"
      "inv (L - own_block ?d ?sz) st2" "untouched (- territory \<union> spans (L - own_block ?d ?sz)) st1 st2" by blast
  let ?st = "st2\<lparr>dyns := (dyns st2)(self := zero_dyn)\<rparr>"
  have "loke_rt_v1_dyn_drop P self ops st = (Inr (), ?st)"
    using loop st2(1) d1(1) b(5) by (simp add: loke_rt_v1_dyn_drop_def bind_def rt_simps Let_def set_dyn_run cong: if_cong option.case_cong)
  moreover have "inv (L - own_block ?d ?sz) ?st" using st2(2) b(6) by (rule inv_set_dyn)
  moreover have "leaves (- territory \<union> spans (L - own_block ?d ?sz)) self st ?st"
    by (rule leaves_trans [OF leaves_mono [OF l1 subset_UNIV] leaves_then_set_dyn [OF st2(3)]])
  ultimately show ?thesis by auto
qed

end

lemma drop_down_quiet:
  assumes hook: "logs_drops self hook" and quiet: "\<And>p st. fst (hook p st) = Inr ()" "\<And>p st. untouched UNIV st (snd (hook p st))"
    and n: "n \<le> dyn_len (dyns st self)"
  shows "fst (dyn_drop_down_to self ops hook n st) = Inr () \<and> leaves UNIV self st (snd (dyn_drop_down_to self ops hook n st))"
  using n
proof (induction "nat (dyn_len (dyns st self) - n)" arbitrary: st)
  case 0
  then show ?case by (simp add: dyn_drop_down_to_def rt_simps)
next
  case (Suc k)
  let ?d = "dyns st self"
  let ?st1 = "st\<lparr>dyns := (dyns st)(self := ?d\<lparr>dyn_len := dyn_len ?d - 1\<rparr>)\<rparr>"
  let ?p = "dyn_at (?d\<lparr>dyn_len := dyn_len ?d - 1\<rparr>) ops (dyn_len ?d - 1)"
  define st2 where "st2 = snd (hook ?p ?st1)"
  have h: "hook ?p ?st1 = (Inr (), st2)" using quiet(1) by (simp add: st2_def prod_eq_iff)
  have un: "untouched UNIV ?st1 st2" using quiet(2) by (simp add: st2_def)
  then have l: "leaves UNIV self st st2" by (rule leaves_trans [OF leaves_set_dyn leaves_untouched])
  have d2: "dyns st2 self = ?d\<lparr>dyn_len := dyn_len ?d - 1\<rparr>" using untouched_dyns [OF un, of self] by simp
  have "dyn_drop_last self ops hook st = (Inr (), st2)"
    using h by (simp add: dyn_drop_last_def bind_def set_dyn_run rt_simps)
  then have go: "dyn_drop_down_to self ops hook n st = dyn_drop_down_to self ops hook n st2"
    using Suc(2) by (simp add: dyn_drop_down_to_def rt_simps)
  have "k = nat (dyn_len (dyns st2 self) - n)" "n \<le> dyn_len (dyns st2 self)" using Suc(2,3) d2 by auto
  from Suc(1) [OF this] l show ?case unfolding go by (auto intro: leaves_trans)
qed

section \<open>Properties on a fixed-buffer arena\<close>





section \<open>A concrete array\<close>

text \<open>Two of three 8-byte elements in use, in the arena of 256 bytes at address 4096.\<close>

definition sample_ops :: "'w container_ops" where
  "sample_ops = \<lparr>elem_size = 8, elem_align = 8, elem_drop = None, elem_clone = None, key_size = 0, key_align = 1, key_drop = None,
     key_clone = None, key_hash = (\<lambda>_ _ s. s), key_equal = (\<lambda>_ _ _. True)\<rparr>"

definition sample_dyn :: dynamic_v1 where
  "sample_dyn = \<lparr>dyn_data = 4208, dyn_len = 2, dyn_cap = 3, dyn_allocator = 4096\<rparr>"

definition sample_array :: "unit rt" where
  "sample_array = (set_used 4176 24 sample_arena)\<lparr>dyns := (\<lambda>_. sample_dyn)\<rparr>"

lemma sample_array_inv: "fixed_inv 4096 4176 144 {(4208, 24)} sample_array"
  using sample_used by (simp add: sample_array_def fixed_inv_def handle_ok_def)

lemma sample_own: "own_block sample_dyn 8 = {(4208, 24)}"
  by (simp add: own_block_def sample_dyn_def)

lemma sample_away: "x < 4096 \<Longrightarrow> x \<notin> fixed_territory 4096 4176 144"
  by (auto simp: fixed_territory_def arena_block_bytes_def SIZEOF_BLOCK_def span_nowrap word_less_nat_alt)

lemma sample_array_ok: "self < 4096 \<Longrightarrow> dyn_ok 4096 (fixed_territory 4096 4176 144) {(4208, 24)} sample_array self (elem_size sample_ops)"
  using sample_away by (simp add: dyn_ok_def sample_array_def sample_ops_def sample_own) (simp add: sample_dyn_def INT64_MAX_def)

lemma sample_ops_align: "pow2 (sane_container_align (elem_align sample_ops))"
  using pow2_8 by (simp add: sample_ops_def sane_container_align_def)



text \<open>A hook that only records, and one that panics on the first element it is given.\<close>

definition log_drop :: "addr \<Rightarrow> (addr list rt, unit) proc" where
  "log_drop p = modify (\<lambda>st. st\<lparr>world := world st @ [p]\<rparr>)"

definition panic_drop :: "addr \<Rightarrow> (addr list rt, unit) proc" where
  "panic_drop p = bind get_state (\<lambda>st. bind (log_drop p) (\<lambda>_.
     if world st = [] then stop (Panic ''drop'') else return ()))"

lemma sample_logs: "logs_drops self log_drop" "logs_drops self panic_drop"
  by (auto simp: logs_drops_def log_drop_def panic_drop_def bind_def rt_simps)

definition sample_log :: "addr list rt" where
  "sample_log = \<lparr>mem = (\<lambda>_. 0), allocators = allocators sample_array, arenas = arenas sample_array, blocks = blocks sample_array,
     dyns = (\<lambda>_. sample_dyn), maps = (\<lambda>_. undefined), tables = (\<lambda>_. undefined), selected = 0, init_phase = Init_done,
     refused_by = 0, refused_size = 0, seed_counter = 0, world = []\<rparr>"

lemma sample_log_ok: "fixed_inv 4096 4176 144 {(4208, 24)} sample_log"
    "dyn_ok 4096 (fixed_territory 4096 4176 144) {(4208, 24)} sample_log 512 8"
  using sample_array_inv sample_array_ok [of 512]
  by (simp_all add: sample_log_def fixed_inv_def handle_ok_def dyn_ok_def sample_array_def sample_ops_def)

definition log_host :: "addr list host" where
  "log_host = \<lparr>aligned_malloc = (\<lambda>sz align. return 0x10000), aligned_realloc = (\<lambda>p sz align. return 0),
     aligned_free = (\<lambda>p. return ()), program_ops = (\<lambda>_. no_callbacks), default_allocator = 16, empty_region = 64\<rparr>"



section \<open>A clone hook that panics inside an insertion\<close>

text \<open>
  An insertion moves the tail up before it clones into the gap, and the length is set only at the
  end.  Three one-byte elements 10, 11, 12 have room for a fourth, and the clone hook panics.
\<close>

definition byte_drop :: "addr \<Rightarrow> (u8 list rt, unit) proc" where
  "byte_drop p = modify (\<lambda>st. st\<lparr>world := world st @ [mem st p]\<rparr>)"

definition byte_ops :: "u8 list container_ops" where
  "byte_ops = \<lparr>elem_size = 1, elem_align = 1, elem_drop = Some byte_drop, elem_clone = Some (\<lambda>_ _ _. stop (Panic ''clone'')),
     key_size = 0, key_align = 1, key_drop = None, key_clone = None, key_hash = (\<lambda>_ _ s. s), key_equal = (\<lambda>_ _ _. True)\<rparr>"

definition byte_array :: "u8 list rt" where
  "byte_array = \<lparr>mem = (\<lambda>a. if a = 64 then 10 else if a = 65 then 11 else if a = 66 then 12 else 0),
     allocators = (\<lambda>_. loke_rt_v1_default_allocator), arenas = (\<lambda>_. undefined), blocks = (\<lambda>_. undefined),
     dyns = (\<lambda>_. \<lparr>dyn_data = 64, dyn_len = 3, dyn_cap = 4, dyn_allocator = 16\<rparr>), maps = (\<lambda>_. undefined),
     tables = (\<lambda>_. undefined), selected = 16, init_phase = Init_done, refused_by = 0, refused_size = 0,
     seed_counter = 0, world = []\<rparr>"

definition no_providers :: "u8 list providers" where
  "no_providers = (\<lambda>_. no_callbacks)"

lemma byte_insert: "loke_rt_v1_dyn_insert no_providers 8 byte_ops 0 200 1 byte_array =
    (Inl (Panic ''clone''), byte_array\<lparr>mem := store (mem byte_array) 65 [10, 11, 12]\<rparr>)"
proof -
  have b: "loke_rt_v1_checked_bytes 3 1 = Some 3" "loke_rt_v1_checked_bytes 4 1 = Some 4" "loke_rt_v1_checked_add 3 1 = Some 4" by code_simp+
  have l: "load (mem byte_array) 64 3 = [10, 11, 12]" by (simp add: load_def byte_array_def upt_rec)
  show ?thesis
    using l by (simp add: loke_rt_v1_dyn_insert_def loke_rt_v1_dyn_bind_def dyn_regrow_def dyn_src_aliases_def dyn_tail_bytes_def
      dyn_fill_def dyn_fill_step_def is_owned_def dyn_at_def bind_def rt_simps Let_def memmove_def b
      byte_ops_def byte_array_def)
qed

definition byte_left :: "int \<Rightarrow> u8 list \<Rightarrow> u8 list rt" where
  "byte_left n w = byte_array\<lparr>mem := store (mem byte_array) 65 [10, 11, 12],
     dyns := (dyns byte_array)(8 := \<lparr>dyn_data = 64, dyn_len = n, dyn_cap = 4, dyn_allocator = 16\<rparr>), world := w\<rparr>"

lemma byte_step: "dyn_drop_last 8 byte_ops byte_drop (byte_left n w) =
    (Inr (), byte_left (n - 1) (w @ [mem (byte_left n w) (64 + word_of_int (n - 1))]))"
  by (simp add: dyn_drop_last_def bind_def rt_simps set_dyn_run byte_drop_def dyn_at_def byte_ops_def byte_left_def)

lemma byte_run: "0 < n \<Longrightarrow> dyn_drop_down_to 8 byte_ops byte_drop 0 (byte_left n w) =
    dyn_drop_down_to 8 byte_ops byte_drop 0 (byte_left (n - 1) (w @ [mem (byte_left n w) (64 + word_of_int (n - 1))]))"
  unfolding dyn_drop_down_to_def by (rule while_proc_step) (simp_all add: byte_step, simp add: byte_left_def)


end
