(* ===== verification/Loke_Nested.thy ===== *)
theory Loke_Nested
  imports Loke_Chain Loke_Dyn_Ops
begin

text \<open>
  Arenas inside other providers, \<^verbatim>\<open>runtime/arena.c\<close>: opening on a parent, growing by blocks of it, giving them back on a
  reset and everything on a drop.  The locale \<open>nested\<close> is an arena over any provider that keeps its contract; it is
  itself a \<open>region_provider\<close>, so what is proved of containers holds inside it as well, and the construction can be
  repeated.  It is interpreted on an arena opened on a fixed-buffer arena.
\<close>

section \<open>An arena inside another provider\<close>

text \<open>What the arena holds of its parent: the control allocation and every block it grew.  \<open>R\<close> is what else is live
  in the parent, and none of the arena's business.\<close>

definition holdings :: "addr \<Rightarrow> addr list \<Rightarrow> 'w rt \<Rightarrow> live" where
  "holdings a bs st = insert (a, 4096) (extent (blocks st) ` set (butlast bs))"

definition child_ok :: "addr \<Rightarrow> addr \<Rightarrow> addr list \<Rightarrow> live \<Rightarrow> 'w rt \<Rightarrow> bool" where
  "child_ok h a bs L st \<longleftrightarrow> chain_ok a bs L st \<and> arena_parent (arenas st a) = h \<and> control_bytes (arenas st a) = 4096 \<and>
     unat (last bs) = unat a + 80 \<and> unat (block_usable (blocks st (last bs))) = 3984"

definition child_inv :: "(live \<Rightarrow> 'w rt \<Rightarrow> bool) \<Rightarrow> addr \<Rightarrow> addr \<Rightarrow> live \<Rightarrow> live \<Rightarrow> 'w rt \<Rightarrow> bool" where
  "child_inv I h a R L st \<longleftrightarrow> (\<exists>bs. child_ok h a bs L st \<and> I (R \<union> holdings a bs st) st \<and> R \<inter> holdings a bs st = {})"

lemma child_chain: "child_ok h a bs L st \<Longrightarrow> chain_ok a bs L st"
  by (simp add: child_ok_def)

lemma child_agree:
  assumes "child_ok h a bs L st" and "agree ({a} \<union> set bs) st st'"
  shows "child_ok h a bs L st'" and "holdings a bs st' = holdings a bs st"
proof -
  have chain: "chain_ok a bs L st" using assms(1) by (rule child_chain)
  have "arenas st' a = arenas st a" "blocks st' (last bs) = blocks st (last bs)"
    using assms(2) chain_top(5) [OF chain] by (auto simp: agree_def)
  then show "child_ok h a bs L st'" using assms chain_agree [OF chain assms(2)] by (simp add: child_ok_def)
  show "holdings a bs st' = holdings a bs st"
    unfolding holdings_def using assms(2)
    by (intro arg_cong [where f = "insert _"] image_cong) (auto simp: extent_def agree_def dest: in_set_butlastD)
qed

lemma child_used:
  assumes "child_ok h a bs L st" and "chain_ok a bs L' (set_used b u st)"
  shows "child_ok h a bs L' (set_used b u st)" and "holdings a bs (set_used b u st) = holdings a bs st"
proof -
  have "extent (blocks (set_used b u st)) = extent (blocks st)" by (auto simp: extent_def set_used_def fun_eq_iff)
  then show "holdings a bs (set_used b u st) = holdings a bs st" by (simp add: holdings_def)
  show "child_ok h a bs L' (set_used b u st)" using assms by (auto simp: child_ok_def set_used_def)
qed

lemma unspan: "unat p + n \<le> 2 ^ 64 \<Longrightarrow> x \<in> span p n \<longleftrightarrow> unat p \<le> unat x \<and> unat x < unat p + n"
  by (simp add: span_nowrap)

lemma extent_covered:
  assumes child: "child_ok h a bs L st" and b: "b \<in> set bs" and fits: "unat a + 4096 < 2 ^ 64"
  shows "span b (32 + unat (block_usable (blocks st b))) \<subseteq> spans (holdings a bs st)"
proof (cases "b = last bs")
  case True
  then have "span b (32 + unat (block_usable (blocks st b))) \<subseteq> span a 4096"
    using child fits by (auto simp: child_ok_def span_nowrap)
  then show ?thesis by (auto simp: holdings_def)
next
  case False
  then have "b \<in> set (butlast bs)" using b by (metis append_butlast_last_id empty_iff insert_iff list.set(1) rotate1.simps(2) set_ConsD set_rotate1)
  then show ?thesis by (auto simp: holdings_def extent_def spans_def)
qed

lemma holdings_cover:
  assumes child: "child_ok h a bs L st" and fits: "unat a + 4096 < 2 ^ 64"
  shows "{a} \<union> set bs \<subseteq> spans (holdings a bs st)" and "spans L \<subseteq> spans (holdings a bs st)"
proof -
  have chain: "chain_ok a bs L st" using child by (rule child_chain)
  have "b \<in> span b (32 + unat (block_usable (blocks st b)))" if "b \<in> set bs" for b
    using chain_block(4) [OF chain that] by (simp add: span_nowrap)
  moreover have "a \<in> span a 4096" using fits by (simp add: span_nowrap)
  ultimately show "{a} \<union> set bs \<subseteq> spans (holdings a bs st)"
    using extent_covered [OF child _ fits] by (auto simp: holdings_def)
  have "span p k \<subseteq> spans (holdings a bs st)" if pk: "(p, k) \<in> L" for p k
  proof -
    obtain b where b: "b \<in> set bs" "unat b + 32 \<le> unat p" "unat p + k \<le> unat b + 32 + unat (block_usable (blocks st b))"
      by (rule chain_live [OF chain pk])
    then have "span p k \<subseteq> span b (32 + unat (block_usable (blocks st b)))"
      using chain_block(4) [OF chain b(1)] by (auto simp: span_nowrap)
    with extent_covered [OF child b(1) fits] show ?thesis by blast
  qed
  then show "spans L \<subseteq> spans (holdings a bs st)" by (auto simp: spans_def)
qed

locale nested = provider P h territory inv for P :: "'w providers" and h territory inv +
  fixes PC :: "'w providers" and a :: addr and R :: live
  assumes tables: "PC Arena_ops = loke_rt_arena_ops P"
begin

lemma inv_put: "inv L st \<Longrightarrow> agree (- spans L) st st' \<Longrightarrow> inv L st'"
  by (erule stable) (auto simp: agree_def)

lemma child_facts:
  assumes "child_ok h a bs L st" and "inv (R \<union> holdings a bs st) st" and "R \<inter> holdings a bs st = {}"
  shows "unat a + 4096 < 2 ^ 64" and "{a} \<union> set bs \<subseteq> spans (holdings a bs st)" and "spans L \<subseteq> spans (holdings a bs st)"
    and "spans (holdings a bs st) \<subseteq> territory - spans R" and "a \<noteq> 0"
proof -
  have "(a, 4096) \<in> R \<union> holdings a bs st" by (simp add: holdings_def)
  from live_inside [OF assms(2) this] show fits: "unat a + 4096 < 2 ^ 64" "a \<noteq> 0" by (auto simp: block_in_def)
  show "{a} \<union> set bs \<subseteq> spans (holdings a bs st)" "spans L \<subseteq> spans (holdings a bs st)"
    by (rule holdings_cover [OF assms(1) fits(1)])+
  have "span p n \<subseteq> territory - spans R" if "(p, n) \<in> holdings a bs st" for p n
  proof -
    have "R \<subseteq> R \<union> holdings a bs st - {(p, n)}" using that assms(3) by blast
    then show ?thesis
      using live_inside [OF assms(2), of p n] that spans_mono [of R "R \<union> holdings a bs st - {(p, n)}"] by (auto simp: block_in_def)
  qed
  then show "spans (holdings a bs st) \<subseteq> territory - spans R" by (fastforce simp: spans_def)
qed

abbreviation "area \<equiv> territory - spans R"
abbreviation "cinv \<equiv> child_inv inv h a R"

lemma child_handle: "cinv L st \<Longrightarrow> a \<noteq> 0"
  by (auto simp: child_inv_def child_ok_def chain_ok_def)

lemma child_live_inside:
  assumes "cinv L st" and pn: "(p, n) \<in> L"
  shows "block_in (L - {(p, n)}) area p n"
proof -
  obtain bs where c: "child_ok h a bs L st" "inv (R \<union> holdings a bs st) st" "R \<inter> holdings a bs st = {}"
    using assms(1) by (auto simp: child_inv_def)
  have chain: "chain_ok a bs L st" using c(1) by (rule child_chain)
  obtain b where b: "b \<in> set bs" "0 < n" "unat b + 32 \<le> unat p" "unat p + n < 2 ^ 64" by (rule chain_live [OF chain pn])
  have "span p n \<inter> span q k = {}" if qk: "(q, k) \<in> L" "(q, k) \<noteq> (p, n)" for q k
  proof -
    have "unat q + k < 2 ^ 64" using chain_live [OF chain qk(1)] by metis
    with b(4) chain_pairwise [OF chain pn qk(1)] qk(2) show ?thesis by (intro apart_spans) auto
  qed
  then have "span p n \<inter> spans (L - {(p, n)}) = {}" by (auto simp: spans_def)
  moreover have "span p n \<subseteq> area" using spans_member [OF pn order_refl] child_facts(3,4) [OF c] by blast
  ultimately show ?thesis using b by (auto simp: block_in_def)
qed

lemma child_stable:
  assumes "cinv L st" and ag: "agree (area - spans L) st st'"
  shows "cinv L st'"
proof -
  obtain bs where c: "child_ok h a bs L st" "inv (R \<union> holdings a bs st) st" "R \<inter> holdings a bs st = {}"
    using assms(1) by (auto simp: child_inv_def)
  note f = child_facts [OF c]
  have "agree ({a} \<union> set bs) st st'"
    using ag f(2,4) chain_private [OF child_chain [OF c(1)]] unfolding agree_def by blast
  note k = child_agree [OF c(1) this]
  have "agree (territory - spans (R \<union> holdings a bs st)) st st'"
    using ag f(3) by (auto simp: agree_def spans_def)
  with c(2) have "inv (R \<union> holdings a bs st) st'" by (rule stable)
  then show ?thesis using k c(3) unfolding child_inv_def by (intro exI [of _ bs]) simp
qed

lemma child_subset: "cinv L st \<Longrightarrow> L' \<subseteq> L \<Longrightarrow> cinv L' st"
  unfolding child_inv_def child_ok_def using chain_subset by blast

text \<open>Moving the top of a block.\<close>

lemma child_set_used:
  assumes c: "child_ok h a bs L st" "inv (R \<union> holdings a bs st) st" "R \<inter> holdings a bs st = {}"
    and b: "b \<in> set bs" and new: "chain_ok a bs L' (set_used b u st)"
  shows "cinv L' (set_used b u st)" and "L'' \<subseteq> L \<Longrightarrow> untouched (- area \<union> spans L'') st (set_used b u st)"
proof -
  note k = child_used [OF c(1) new] and f = child_facts [OF c]
  have "b \<in> spans (R \<union> holdings a bs st)" using b f(2) by (auto simp: spans_def)
  then have "inv (R \<union> holdings a bs st) (set_used b u st)"
    by (intro inv_put [OF c(2)]) (auto simp: agree_def set_used_def)
  then show "cinv L' (set_used b u st)" using k c(3) unfolding child_inv_def by (intro exI [of _ bs]) simp
  have "b \<notin> - area \<union> spans L''" if "L'' \<subseteq> L"
    using b f(2,4) chain_private(2) [OF child_chain [OF c(1)] b] spans_mono [OF that] by blast
  then show "L'' \<subseteq> L \<Longrightarrow> untouched (- area \<union> spans L'') st (set_used b u st)" by (rule set_used_untouched)
qed

lemma child_elsewhere:
  assumes c: "child_ok h a bs L st" "inv (R \<union> holdings a bs st) st" "R \<inter> holdings a bs st = {}"
    and un: "untouched (- territory \<union> spans (R \<union> holdings a bs st)) st st'"
  shows "child_ok h a bs L st'" and "holdings a bs st' = holdings a bs st" and "untouched (- area \<union> spans L) st st'"
proof -
  note f = child_facts [OF c]
  have "agree ({a} \<union> set bs) st st'" using un f(2) by (auto simp: untouched_def agree_def spans_def)
  then show "child_ok h a bs L st'" "holdings a bs st' = holdings a bs st" by (rule child_agree [OF c(1)])+
  show "untouched (- area \<union> spans L) st st'" using un f(3) by (elim untouched_mono) (auto simp: spans_def)
qed

text \<open>What \<open>pushed\<close> does to the arena, when the parent has just granted \<open>s\<close>.\<close>

lemma child_pushed:
  assumes c: "child_ok h a bs L st" "inv (insert (s, unat want) (R \<union> holdings a bs st)) st" "R \<inter> holdings a bs st = {}"
    and s: "(s, unat want) \<notin> R \<union> holdings a bs st" and want: "32 \<le> unat want"
    and cover: "{a} \<union> set bs \<subseteq> spans (holdings a bs st)" "spans L \<subseteq> spans (holdings a bs st)" "spans (holdings a bs st) \<subseteq> area"
  shows "child_ok h a (s # bs) L (pushed a s want st)"
    and "inv (R \<union> holdings a (s # bs) (pushed a s want st)) (pushed a s want st)"
    and "R \<inter> holdings a (s # bs) (pushed a s want st) = {}" and "untouched (- area \<union> spans L) st (pushed a s want st)"
proof -
  let ?Lp = "R \<union> holdings a bs st" and ?st = "pushed a s want st"
  have chain: "chain_ok a bs L st" using c(1) by (rule child_chain)
  have "insert (s, unat want) ?Lp - {(s, unat want)} = ?Lp" using s by blast
  with live_inside [OF c(2) insertI1] have new: "block_in ?Lp territory s (unat want)" by simp
  then have sp: "s \<noteq> 0" "unat s + unat want < 2 ^ 64" "span s (unat want) \<inter> spans ?Lp = {}" "span s (unat want) \<subseteq> territory"
    by (simp_all add: block_in_def)
  have inside: "s \<in> span s (unat want)" using sp(2) want by (simp add: span_nowrap)
  have ctl: "(a, 4096) \<in> insert (s, unat want) ?Lp" by (simp add: holdings_def)
  have fits: "unat a + 4096 < 2 ^ 64" using live_inside [OF c(2) ctl] by (simp add: block_in_def)
  have spH: "span s (unat want) \<inter> spans (holdings a bs st) = {}" using sp(3) by (auto simp: spans_def)
  have sbs: "s \<notin> set bs" "a \<notin> span s (unat want)" using spH cover(1) inside by blast+
  have "span a 80 \<subseteq> spans (holdings a bs st)" using fits by (auto simp: holdings_def span_nowrap)
  then have ap1: "apart (a, 80) (s, unat want)" using spH fits sp(2) want by (intro disjoint_apart) auto
  have "apart (extent (blocks st) b) (s, unat want)" if b: "b \<in> set bs" for b
    using extent_covered [OF c(1) b fits] chain_block(4) [OF chain b] spH sp(2) want unfolding extent_def by (intro disjoint_apart) auto
  then have "\<forall>b \<in> set bs. apart (extent (blocks st) b) (s, unat want)" by blast
  note k = chain_pushed [OF chain want sp(1,2) sbs(1) ap1 this]
  have nonempty: "bs \<noteq> []" using chain by (simp add: chain_ok_def)
  have "extent (blocks ?st) ` set (butlast bs) = extent (blocks st) ` set (butlast bs)"
    by (rule image_cong) (auto simp: extent_def k(3) dest: in_set_butlastD)
  then have hold: "holdings a (s # bs) ?st = insert (s, unat want) (holdings a bs st)"
    using nonempty k(2) by (auto simp: holdings_def)
  show "child_ok h a (s # bs) L ?st"
    using k(1) c(1) k(3) [OF chain_top(5) [OF chain]] nonempty unfolding child_ok_def by (auto simp: pushed_def)
  have "agree (- spans (insert (s, unat want) ?Lp)) st ?st"
    using inside cover(1) by (auto simp: agree_def pushed_def spans_def)
  then show "inv (R \<union> holdings a (s # bs) ?st) ?st" unfolding hold using inv_put [OF c(2)] by simp
  show "R \<inter> holdings a (s # bs) ?st = {}" unfolding hold using s c(3) by blast
  have "s \<notin> spans R" "s \<in> territory" using sp(3,4) inside by (auto simp: spans_def)
  then have "a \<notin> - area \<union> spans L" "s \<notin> - area \<union> spans L"
    using spH inside cover chain_private(1) [OF chain] by blast+
  then show "untouched (- area \<union> spans L) st ?st" by (auto simp: untouched_def agree_def pushed_def)
qed

lemma child_grow:
  assumes c: "child_ok h a bs L st" "inv (R \<union> holdings a bs st) st" "R \<inter> holdings a bs st = {}" and al: "pow2 align"
  obtains (refused) st' where "arena_grow P a sz align st = (Inr False, st')" and "cinv L st'" and "untouched (- area \<union> spans L) st st'"
  | (grown) s st' where "arena_grow P a sz align st = (Inr True, st')" and "child_ok h a (s # bs) L st'"
      and "inv (R \<union> holdings a (s # bs) st') st'" and "R \<inter> holdings a (s # bs) st' = {}" and "untouched (- area \<union> spans L) st st'"
proof -
  let ?needed = "sz + align + SIZEOF_BLOCK" and ?want = "arena_want (block_bytes (arenas st a)) (sz + align + SIZEOF_BLOCK)"
  have parent: "arena_parent (arenas st a) = h" "h \<noteq> 0" using c(1) handle [OF c(2)] by (simp_all add: child_ok_def)
  have here: "cinv L st" using c by (auto simp: child_inv_def)
  show thesis
  proof (cases "?needed < sz \<or> ?want = None")
    case True
    then have "arena_grow P a sz align st = (Inr False, st)"
      using parent by (auto simp: arena_grow_def rt_simps bind_def Let_def)
    then show thesis using here by (rule refused) simp
  next
    case False
    then obtain want where want: "?want = Some want" and ok: "\<not> ?needed < sz" by auto
    have size: "32 \<le> unat want"
      using arena_want_enough [OF want] needed_exact [OF al ok] by (simp add: word_le_nat_alt)
    then have pos: "0 < want" by (simp add: word_less_nat_alt)
    obtain s st0 where got: "loke_rt_v1_alloc P h want 16 st = (Inr s, st0)" "untouched (- territory \<union> spans (R \<union> holdings a bs st)) st st0"
        "if s = 0 then inv (R \<union> holdings a bs st) st0
         else inv (insert (s, unat want) (R \<union> holdings a bs st)) st0 \<and> (s, unat want) \<notin> R \<union> holdings a bs st \<and> unat (16 :: u64) dvd unat s"
      using alloc_law [OF c(2) pos pow2_16] by blast
    note k = child_elsewhere [OF c got(2)] and f = child_facts [OF c]
    have run: "arena_grow P a sz align st = (if s = 0 then (Inr False, st0) else (Inr True, pushed a s want st0))"
      using parent ok want got(1)
      by (simp add: arena_grow_def ARENA_CONTROL_ALIGN_def bind_def rt_simps Let_def set_block_def set_arena_def pushed_def)
    show thesis
    proof (cases "s = 0")
      case True
      then have "cinv L st0" using k(1,2) got(3) c(3) unfolding child_inv_def by (intro exI [of _ bs]) simp
      then show thesis using run True k(3) by (intro refused) simp_all
    next
      case False
      note p = child_pushed [OF k(1), of s want, unfolded k(2), OF _ c(3) _ size f(2,3,4)]
      have "arena_grow P a sz align st = (Inr True, pushed a s want st0)" using run False by simp
      then show thesis using p got(3) False untouched_trans [OF k(3)] by (intro grown) auto
    qed
  qed
qed

lemma child_alloc:
  assumes inv: "cinv L st" and sz: "0 < sz" and al: "pow2 align"
  obtains p st' where "arena_alloc P a sz align st = (Inr p, st')" and "untouched (- area \<union> spans L) st st'"
    and "if p = 0 then cinv L st' else cinv (insert (p, unat sz) L) st' \<and> (p, unat sz) \<notin> L \<and> unat align dvd unat p"
proof -
  obtain bs where c: "child_ok h a bs L st" "inv (R \<union> holdings a bs st) st" "R \<inter> holdings a bs st = {}"
    using inv by (auto simp: child_inv_def)
  have nz: "a \<noteq> 0" "sz \<noteq> 0" using child_handle [OF inv] sz by auto
  have align: "arena_align align = align" using pow2_pos [OF al] by (auto simp: arena_align_def)
  have top: "arena_blocks (arenas st' a) = hd cs" if "child_ok h a cs L st'" for cs and st' :: "'w rt"
    by (rule chain_top(2) [OF child_chain [OF that]])
  from child_chain [OF c(1)] sz al show thesis
  proof (cases rule: chain_bump)
    case (placed p u)
    have "arena_alloc P a sz align st = (Inr p, set_used (hd bs) u st)"
      using placed(1,2) nz align top [OF c(1)] by (simp add: arena_alloc_def bind_def rt_simps)
    then show thesis
      using child_set_used(1) [OF c chain_top(1) [OF child_chain [OF c(1)]] placed(3)]
        child_set_used(2) [OF c chain_top(1) [OF child_chain [OF c(1)]] placed(3) order_refl] placed(2,4,5) that by auto
  next
    case full
    have run: "arena_alloc P a sz align st = bind (arena_grow P a sz align) (\<lambda>ok.
        if \<not> ok then return 0 else bind get_state (\<lambda>st. arena_bump (arena_blocks (arenas st a)) sz align)) st"
      using full nz align top [OF c(1)] by (simp add: arena_alloc_def bind_def rt_simps)
    from c al show thesis
    proof (cases rule: child_grow [where sz = sz])
      case (refused st')
      then show thesis using run by (intro that [of 0 st']) (simp_all add: bind_def rt_simps)
    next
      case (grown s st1)
      then have run1: "arena_alloc P a sz align st = arena_bump (hd (s # bs)) sz align st1"
        using run top [OF grown(2)] by (simp add: bind_def rt_simps)
      from child_chain [OF grown(2)] sz al show thesis
      proof (cases rule: chain_bump)
        case full
        then have "arena_alloc P a sz align st = (Inr 0, st1)" using run1 by simp
        moreover have "cinv L st1" using grown(2,3,4) by (auto simp: child_inv_def)
        ultimately show thesis using that grown(5) by simp
      next
        case (placed p u)
        let ?st2 = "set_used (hd (s # bs)) u st1"
        have "arena_alloc P a sz align st = (Inr p, ?st2)" using run1 placed(1) by simp
        moreover have "cinv (insert (p, unat sz) L) ?st2" "untouched (- area \<union> spans L) st1 ?st2"
          using child_set_used(1) [OF grown(2,3,4) _ placed(3)] child_set_used(2) [OF grown(2,3,4) _ placed(3) order_refl] by simp_all
        ultimately show thesis using that untouched_trans [OF grown(5)] placed(2,4,5) by simp
      qed
    qed
  qed
qed

lemma cinv_note: "cinv L st \<Longrightarrow> cinv L (st\<lparr>refused_by := x, refused_size := y\<rparr>)"
  by (erule child_stable) (simp add: agree_def)

lemma child_dispatch: "cinv L st \<Longrightarrow> with_provider PC a f st = f a (loke_rt_arena_ops P) a st"
  unfolding tables [symmetric] by (rule handle_run) (auto simp: child_inv_def child_ok_def chain_ok_def)

lemma child_alloc_law:
  assumes inv: "cinv L st" and sz: "0 < sz" and al: "pow2 align"
  shows "\<exists>p st'. loke_rt_v1_alloc PC a sz align st = (Inr p, st') \<and> untouched (- area \<union> spans L) st st' \<and>
    (if p = 0 then cinv L st' else cinv (insert (p, unat sz) L) st' \<and> (p, unat sz) \<notin> L \<and> unat align dvd unat p)"
proof -
  obtain p st' where got: "arena_alloc P a sz align st = (Inr p, st')" "untouched (- area \<union> spans L) st st'"
      "if p = 0 then cinv L st' else cinv (insert (p, unat sz) L) st' \<and> (p, unat sz) \<notin> L \<and> unat align dvd unat p"
    by (rule child_alloc [OF assms])
  have "sz \<noteq> 0" using sz by auto
  then have "loke_rt_v1_alloc PC a sz align st = bind (arena_alloc P a sz align) (note_request a sz) st"
    by (simp add: loke_rt_v1_alloc_def child_dispatch [OF inv] loke_rt_arena_ops_def)
  then show ?thesis using got cinv_note by (cases "p = 0") (simp_all add: note_run)
qed

lemma child_free_law:
  assumes inv: "cinv L st" and mem: "(p, unat sz) \<in> L"
  shows "\<exists>st'. loke_rt_v1_free PC a p sz align st = (Inr (), st') \<and> cinv (L - {(p, unat sz)}) st' \<and>
    untouched (- area \<union> spans (L - {(p, unat sz)})) st st'"
proof -
  obtain bs where c: "child_ok h a bs L st" "inv (R \<union> holdings a bs st) st" "R \<inter> holdings a bs st = {}"
    using inv by (auto simp: child_inv_def)
  note chain = child_chain [OF c(1)]
  have nz: "a \<noteq> 0" "p \<noteq> 0" "sz \<noteq> 0" using child_handle [OF inv] child_live_inside [OF inv mem] by (auto simp: block_in_def)
  have run: "loke_rt_v1_free PC a p sz align st = arena_free a p sz align st"
    using nz by (simp add: loke_rt_v1_free_def child_dispatch [OF inv] loke_rt_arena_ops_def)
  show ?thesis
  proof (cases "arena_is_top st a p sz")
    case False
    then show ?thesis
      using nz child_subset [OF inv Diff_subset] by (simp add: run arena_free_def rt_simps bind_def)
  next
    case True
    let ?b = "hd bs"
    let ?u = "block_used (blocks st ?b) - sz"
    note top = chain_is_top [OF chain mem True]
    have u: "unat ?u = unat p + 0 - (unat ?b + 32)" using top by (subst unat_minus_exact) linarith+
    have b: "?b \<in> set bs" "arena_blocks (arenas st a) = ?b" by (rule chain_top [OF chain])+
    have "unat p + 0 \<le> unat ?b + 32 + unat (block_usable (blocks st ?b))" using top chain_block(3) [OF chain b(1)] by linarith
    from chain_top_moves [OF chain mem refl top u this refl]
    have new: "chain_ok a bs (L - {(p, unat sz)}) (set_used ?b ?u st)" by simp
    moreover have "arena_free a p sz align st = (Inr (), set_used ?b ?u st)"
      using True nz b(2) by (simp add: arena_free_def rt_simps bind_def set_block_def set_used_def used_update [of "\<lambda>used. used - sz"])
    ultimately show ?thesis
      using child_set_used(1) [OF c b(1) new] child_set_used(2) [OF c b(1) new Diff_subset] by (simp add: run)
  qed
qed

text \<open>Growing in place at the top, or moving.\<close>

lemma child_resize_top:
  assumes inv: "cinv L st" and mem: "(p, unat old) \<in> L" and new: "0 < new"
  shows "(\<exists>st'. arena_resize P a p old new align st = (Inr p, st') \<and> cinv (insert (p, unat new) (L - {(p, unat old)})) st' \<and>
            untouched (- area \<union> spans (L - {(p, unat old)})) st st' \<and> Loke_State.mem st' = Loke_State.mem st) \<or>
         arena_resize P a p old new align st = arena_move P a p old new align st"
proof -
  obtain bs where c: "child_ok h a bs L st" "inv (R \<union> holdings a bs st) st" "R \<inter> holdings a bs st = {}"
    using inv by (auto simp: child_inv_def)
  note chain = child_chain [OF c(1)]
  let ?b = "hd bs"
  let ?u = "p + new - arena_block_bytes ?b"
  have b: "?b \<in> set bs" "arena_blocks (arenas st a) = ?b" by (rule chain_top [OF chain])+
  note cb = chain_block [OF chain b(1)]
  have nz: "a \<noteq> 0" "p \<noteq> 0" "new \<noteq> 0" using child_handle [OF inv] child_live_inside [OF inv mem] new by (auto simp: block_in_def)
  show ?thesis
  proof (cases "arena_is_top st a p old \<and> p + new \<ge> p \<and> p + new \<le> arena_block_bytes ?b + block_usable (blocks st ?b)")
    case True
    note top = chain_is_top [OF chain mem conjunct1 [OF True]]
    have fin: "unat (p + new) = unat p + unat new" using True plus_no_wrap [of p new] by (simp add: unat_plus_exact)
    have lim: "unat p + unat new \<le> unat ?b + 32 + unat (block_usable (blocks st ?b))"
      using True fin block_top(2) [OF cb(1)] by (simp add: word_le_nat_alt)
    have "unat ?u = unat p + unat new - (unat ?b + 32)" using fin top(1) cb(2) by (subst unat_minus_exact) simp_all
    from chain_top_moves [OF chain mem refl top this lim refl] nz(3)
    have chain': "chain_ok a bs (insert (p, unat new) (L - {(p, unat old)})) (set_used ?b ?u st)" by (simp add: unat_eq_zero)
    have "arena_resize P a p old new align st = (Inr p, set_used ?b ?u st)"
      using True nz b(2) by (simp add: arena_resize_def rt_simps bind_def Let_def set_block_def set_used_def)
    moreover have "Loke_State.mem (set_used ?b ?u st) = Loke_State.mem st" by (simp add: set_used_def)
    ultimately show ?thesis
      using child_set_used(1) [OF c b(1) chain'] child_set_used(2) [OF c b(1) chain' Diff_subset] by blast
  next
    case False
    then have "arena_resize P a p old new align st = arena_move P a p old new align st"
      using nz b(2) by (auto simp: arena_resize_def rt_simps bind_def Let_def)
    then show ?thesis ..
  qed
qed

lemma child_move:
  assumes inv: "cinv L st" and mem: "(p, unat old) \<in> L" and new: "0 < new" and al: "pow2 align"
  obtains (refused) st' where "arena_move P a p old new align st = (Inr 0, st')" and "cinv L st'" and "untouched (- area \<union> spans L) st st'"
  | (moved) q st' where "arena_move P a p old new align st = (Inr q, st')" and "q \<noteq> 0"
      and "cinv (insert (q, unat new) (L - {(p, unat old)})) st'" and "untouched (- area \<union> spans (L - {(p, unat old)})) st st'"
      and "(q, unat new) \<notin> L - {(p, unat old)}"
      and "load (Loke_State.mem st') q (min (unat old) (unat new)) = load (Loke_State.mem st) p (min (unat old) (unat new))"
proof (cases "new \<le> old")
  case True
  obtain bs where c: "child_ok h a bs L st" "inv (R \<union> holdings a bs st) st" "R \<inter> holdings a bs st = {}"
    using inv by (auto simp: child_inv_def)
  note chain = child_chain [OF c(1)]
  have "chain_ok a bs (insert (p, unat new) (L - {(p, unat old)})) st"
    using True new by (intro chain_shrunk [OF chain mem]) (simp_all add: word_le_nat_alt word_less_nat_alt)
  then have "cinv (insert (p, unat new) (L - {(p, unat old)})) st"
    using c unfolding child_inv_def by (intro exI [of _ bs]) (simp add: child_ok_def)
  moreover have "p \<noteq> 0" using child_live_inside [OF inv mem] by (simp add: block_in_def)
  moreover have "(p, unat new) \<notin> L - {(p, unat old)}" using chain_one_per_address [OF chain mem] by auto
  ultimately show thesis using True by (intro moved [of p st]) (simp_all add: arena_move_def rt_simps)
next
  case False
  then have grow: "unat old < unat new" by (simp add: word_le_nat_alt)
  obtain q st1 where got: "arena_alloc P a new align st = (Inr q, st1)" "untouched (- area \<union> spans L) st st1"
      "if q = 0 then cinv L st1 else cinv (insert (q, unat new) L) st1 \<and> (q, unat new) \<notin> L \<and> unat align dvd unat q"
    by (rule child_alloc [OF inv new al])
  show thesis
  proof (cases "q = 0")
    case True
    then show thesis using False got by (intro refused [of st1]) (simp_all add: arena_move_def rt_simps bind_def)
  next
    case nz: False
    let ?bs = "load (Loke_State.mem st1) p (unat old)" and ?L = "insert (q, unat new) (L - {(p, unat old)})"
    let ?st = "st1\<lparr>mem := store (Loke_State.mem st1) q ?bs\<rparr>"
    have inv1: "cinv (insert (q, unat new) L) st1" "(q, unat new) \<notin> L" using got(3) nz by simp_all
    have run: "arena_move P a p old new align st = (Inr q, ?st)"
      using False got(1) nz grow by (simp add: arena_move_def rt_simps bind_def memcpy_def word_less_nat_alt)
    have small: "length ?bs \<le> 2 ^ 64" using unat_u64_lt [of old] by simp
    have here: "span q (length ?bs) \<subseteq> span q (unat new)" using span_sub [of 0 "unat old" "unat new" q] grow by simp
    have "insert (q, unat new) L - {(q, unat new)} = L" using inv1(2) by blast
    with child_live_inside [OF inv1(1) insertI1] have fresh: "span q (unat new) \<subseteq> area" "span q (unat new) \<inter> spans L = {}"
      by (simp_all add: block_in_def)
    have "cinv ?L st1" by (rule child_subset [OF inv1(1)]) blast
    moreover have "agree (area - spans ?L) st1 ?st" using here small by (auto simp: agree_def intro!: store_outside)
    ultimately have "cinv ?L ?st" by (rule child_stable)
    moreover have "untouched (- area \<union> spans (L - {(p, unat old)})) st ?st"
    proof -
      have "spans (L - {(p, unat old)}) \<subseteq> spans L" by (rule spans_mono) blast
      then have "untouched (- area \<union> spans (L - {(p, unat old)})) st1 ?st" using here fresh small by (intro untouched_store) auto
      moreover have "untouched (- area \<union> spans (L - {(p, unat old)})) st st1"
        using got(2) \<open>spans (L - {(p, unat old)}) \<subseteq> spans L\<close> by (elim untouched_mono) blast
      ultimately show ?thesis by (rule untouched_trans [rotated])
    qed
    moreover have "load (Loke_State.mem ?st) q (min (unat old) (unat new)) = load (Loke_State.mem st) p (min (unat old) (unat new))"
    proof -
      have "?bs = load (Loke_State.mem st) p (unat old)"
        using got(2) spans_member [OF mem order_refl] by (intro load_cong) (auto simp: untouched_def agree_def)
      then show ?thesis using load_store_same [OF small, of "Loke_State.mem st1" q] grow by simp
    qed
    ultimately show thesis using run nz inv1(2) by (intro moved [of q ?st]) auto
  qed
qed

lemma child_resize_law:
  assumes inv: "cinv L st" and new: "0 < new" and al: "pow2 align" and old: "p = 0 \<and> old = 0 \<or> (p, unat old) \<in> L"
  shows "\<exists>q st'. loke_rt_v1_resize PC a p old new align st = (Inr q, st') \<and>
     (if q = 0 then cinv L st' \<and> untouched (- area \<union> spans L) st st'
      else cinv (insert (q, unat new) (L - {(p, unat old)})) st' \<and>
        untouched (- area \<union> spans (L - {(p, unat old)})) st st' \<and> (q, unat new) \<notin> L - {(p, unat old)} \<and>
        load (Loke_State.mem st') q (min (unat old) (unat new)) = load (Loke_State.mem st) p (min (unat old) (unat new)))"
proof -
  have run: "loke_rt_v1_resize PC a p old new align st = bind (arena_resize P a p old new align) (note_request a new) st"
    by (simp add: loke_rt_v1_resize_def child_dispatch [OF inv] loke_rt_arena_ops_def)
  have nz: "a \<noteq> 0" "new \<noteq> 0" using child_handle [OF inv] new by auto
  from old show ?thesis
  proof
    assume p: "p = 0 \<and> old = 0"
    have none: "L - {(p, unat old)} = L" using child_live_inside [OF inv, of 0 0] p by (auto simp: block_in_def)
    obtain q st1 where got: "arena_alloc P a new align st = (Inr q, st1)" "untouched (- area \<union> spans L) st st1"
        "if q = 0 then cinv L st1 else cinv (insert (q, unat new) L) st1 \<and> (q, unat new) \<notin> L \<and> unat align dvd unat q"
      by (rule child_alloc [OF inv new al])
    have "arena_resize P a p old new align st = (Inr q, st1)" using p nz got(1) by (simp add: arena_resize_def)
    then have "loke_rt_v1_resize PC a p old new align st = (Inr q, st1\<lparr>refused_by := (if q = 0 then a else 0), refused_size := new\<rparr>)"
      by (simp add: run note_run)
    then show ?thesis unfolding none using got(2,3) cinv_note p by (cases "q = 0") (simp_all only: untouched_note if_True if_False, auto)
  next
    assume mem: "(p, unat old) \<in> L"
    have p: "p \<noteq> 0" using child_live_inside [OF inv mem] by (simp add: block_in_def)
    obtain bs where chain: "chain_ok a bs L st" using inv by (auto simp: child_inv_def child_ok_def)
    have one: "(p, unat new) \<notin> L - {(p, unat old)}" using chain_one_per_address [OF chain mem] by auto
    from child_resize_top [OF inv mem new, of align] show ?thesis
    proof (elim disjE exE conjE)
      fix st' assume "arena_resize P a p old new align st = (Inr p, st')" "cinv (insert (p, unat new) (L - {(p, unat old)})) st'"
        "untouched (- area \<union> spans (L - {(p, unat old)})) st st'" "Loke_State.mem st' = Loke_State.mem st"
      then show ?thesis using p one cinv_note by (simp add: run note_run)
    next
      assume "arena_resize P a p old new align st = arena_move P a p old new align st"
      with inv mem new al show ?thesis
        by (cases rule: child_move) (simp_all add: run note_run cinv_note)
    qed
  qed
qed

end


text \<open>After a reset the chain is the embedded first block alone, empty.\<close>

definition rewound :: "addr \<Rightarrow> addr \<Rightarrow> 'w rt \<Rightarrow> 'w rt" where
  "rewound a f st = st\<lparr>arenas := (arenas st)(a := (arenas st a)\<lparr>arena_blocks := f\<rparr>),
     blocks := (blocks st)(f := (blocks st f)\<lparr>next_block := 0, block_used := 0\<rparr>)\<rparr>"

context nested
begin

text \<open>The loop that gives the grown blocks back.  \<open>K\<close> is what the arena keeps while it runs: the control allocation,
  and what is live in the parent beside the arena.\<close>

lemma release_loop:
  assumes "block_list (blocks st) x bs" and "bs \<noteq> []" and "distinct bs" and "inv (K \<union> extent (blocks st) ` set (butlast bs)) st"
    and "K \<inter> extent (blocks st) ` set (butlast bs) = {}" and "{a, last bs} \<subseteq> spans K" and "arena_parent (arenas st a) = h"
    and "\<forall>b \<in> set bs. block_ok b (blocks st b) \<and> block_owned (blocks st b) = (if b = last bs then 0 else 1)"
  shows "\<exists>st'. while_proc (\<lambda>block st. block \<noteq> 0) (release_block P a) x st = (Inr 0, st') \<and> inv K st' \<and> untouched (- territory \<union> spans K) st st'"
  using assms
proof (induction bs arbitrary: x st)
  case (Cons b bs)
  have b: "x = b" "b \<noteq> 0" "block_list (blocks st) (next_block (blocks st b)) bs" using Cons.prems(1) by simp_all
  show ?case
  proof (cases "bs = []")
    case True
    then have "release_block P a b st = (Inr 0, st)"
      using Cons.prems(8) b(3) by (simp add: release_block_def rt_simps bind_def)
    then have "while_proc (\<lambda>block st. block \<noteq> 0) (release_block P a) x st = (Inr 0, st)"
      using b(1,2) by (simp add: while_proc_step while_proc_stop)
    then show ?thesis using Cons.prems(4) True by auto
  next
    case False
    let ?E = "extent (blocks st) ` set (butlast bs)" and ?sz = "SIZEOF_BLOCK + block_usable (blocks st b)"
    have last: "last (b # bs) = last bs" "b \<noteq> last bs" "b \<notin> set bs" using False Cons.prems(3) by auto
    have ok: "block_ok b (blocks st b)" "block_owned (blocks st b) = 1" using Cons.prems(8) last by auto
    have "unat ?sz = 32 + unat (block_usable (blocks st b))"
      using ok(1) by (subst unat_plus_exact) (simp_all add: block_ok_def SIZEOF_BLOCK_def)
    then have ext: "extent (blocks st) b = (b, unat ?sz)" by (simp add: extent_def)
    have all: "K \<union> extent (blocks st) ` set (butlast (b # bs)) = insert (b, unat ?sz) (K \<union> ?E)" using False ext by auto
    have "(b, unat ?sz) \<notin> ?E" using last(3) by (auto simp: extent_def dest: in_set_butlastD)
    moreover have "(b, unat ?sz) \<notin> K" using Cons.prems(5) False ext by auto
    ultimately have rest: "insert (b, unat ?sz) (K \<union> ?E) - {(b, unat ?sz)} = K \<union> ?E" by blast
    have "(b, unat ?sz) \<in> insert (b, unat ?sz) (K \<union> ?E)" by simp
    from free_law [OF Cons.prems(4) [unfolded all] this, of 16, unfolded rest] obtain st1 where
      st1: "loke_rt_v1_free P h b ?sz 16 st = (Inr (), st1)" "inv (K \<union> ?E) st1" "untouched (- territory \<union> spans (K \<union> ?E)) st st1"
      by blast
    have "release_block P a b st = (Inr (next_block (blocks st b)), st1)"
      using ok(2) Cons.prems(7) handle [OF Cons.prems(4)] st1(1) by (simp add: release_block_def rt_simps bind_def Let_def ARENA_CONTROL_ALIGN_def)
    then have step: "while_proc (\<lambda>block st. block \<noteq> 0) (release_block P a) x st =
        while_proc (\<lambda>block st. block \<noteq> 0) (release_block P a) (next_block (blocks st b)) st1"
      using b(1,2) by (simp add: while_proc_step)
    have "c \<in> spans (K \<union> ?E)" if "c \<in> set bs" for c
    proof (cases "c = last bs")
      case False
      then have "c \<in> set (butlast bs)" using that by (induction bs) (auto split: if_splits)
      moreover have "c \<in> span c (32 + unat (block_usable (blocks st c)))"
        using Cons.prems(8) that by (auto simp: span_nowrap block_ok_def)
      ultimately show ?thesis by (auto simp: spans_def extent_def)
    qed (use Cons.prems(6) last(1) in \<open>auto simp: spans_def\<close>)
    then have same: "blocks st1 c = blocks st c" if "c \<in> set bs" for c
      using st1(3) that by (auto simp: untouched_def agree_def)
    have exts: "extent (blocks st1) ` set (butlast bs) = ?E"
      by (rule image_cong) (auto simp: extent_def same dest: in_set_butlastD)
    have "arenas st1 a = arenas st a" using st1(3) Cons.prems(6) by (auto simp: untouched_def agree_def spans_def)
    then have "\<exists>st'. while_proc (\<lambda>block st. block \<noteq> 0) (release_block P a) (next_block (blocks st b)) st1 = (Inr 0, st') \<and>
        inv K st' \<and> untouched (- territory \<union> spans K) st1 st'"
      using Cons.prems False last st1(2) b(3) same block_list_cong [of bs "blocks st1" "blocks st"]
      by (intro Cons.IH) (auto simp: exts)
    moreover have "untouched (- territory \<union> spans K) st st1" using st1(3) by (rule untouched_mono) (auto simp: spans_def)
    ultimately show ?thesis unfolding step using untouched_trans by blast
  qed
qed simp

lemma child_release:
  assumes c: "child_ok h a bs L st" "inv (R \<union> holdings a bs st) st" "R \<inter> holdings a bs st = {}"
  defines "K \<equiv> insert (a, 4096) R"
  obtains st' where "while_proc (\<lambda>block st. block \<noteq> 0) (release_block P a) (arena_blocks (arenas st a)) st = (Inr 0, st')" and "inv K st'"
    and "untouched (- area) st st'" and "arenas st' a = arenas st a" and "allocators st' a = allocators st a" and "blocks st' (last bs) = blocks st (last bs)"
    and "a \<in> span a 4096" and "last bs \<in> span a 4096" and "(a, 4096) \<notin> R" and "span a 4096 \<subseteq> area"
proof -
  note chain = child_chain [OF c(1)] and f = child_facts [OF c]
  have in_ctl: "{a, last bs} \<subseteq> span a 4096" using c(1) f(1) by (auto simp: span_nowrap child_ok_def)
  have K: "K \<union> extent (blocks st) ` set (butlast bs) = R \<union> holdings a bs st" by (auto simp: K_def holdings_def)
  have "apart (a, 80) (extent (blocks st) b)" if "b \<in> set (butlast bs)" for b
    using chain_block(5) [OF chain] that by (auto dest: in_set_butlastD)
  then have "apart (a, 80) (a, 4096)" if "(a, 4096) \<in> extent (blocks st) ` set (butlast bs)" using that by (metis imageE)
  then have "(a, 4096) \<notin> extent (blocks st) ` set (butlast bs)" by (auto simp: apart_def)
  then have dis: "K \<inter> extent (blocks st) ` set (butlast bs) = {}" using c(3) by (auto simp: K_def holdings_def)
  obtain st' where st': "while_proc (\<lambda>block st. block \<noteq> 0) (release_block P a) (arena_blocks (arenas st a)) st = (Inr 0, st')"
      "inv K st'" "untouched (- territory \<union> spans K) st st'"
    using release_loop [of st "arena_blocks (arenas st a)" bs K] c(1,2) dis in_ctl chain unfolding K
    by (auto simp: child_ok_def chain_ok_def K_def)
  have "arenas st' a = arenas st a" "allocators st' a = allocators st a" "blocks st' (last bs) = blocks st (last bs)"
    using st'(3) in_ctl by (auto simp: untouched_def agree_def K_def)
  moreover have "untouched (- area) st st'" using st'(3) by (rule untouched_mono) (auto simp: K_def)
  moreover have "(a, 4096) \<notin> R" "span a 4096 \<subseteq> area" using c(3) f(4) by (auto simp: holdings_def)
  ultimately show thesis using st'(1,2) in_ctl by (intro that [of st']) auto
qed

lemma child_reset_law:
  assumes inv: "cinv L st"
  shows "\<exists>st'. loke_rt_v1_reset PC a st = (Inr (), st') \<and> cinv {} st' \<and> untouched (- area) st st'"
proof -
  obtain bs where c: "child_ok h a bs L st" "inv (R \<union> holdings a bs st) st" "R \<inter> holdings a bs st = {}"
    using inv by (auto simp: child_inv_def)
  note chain = child_chain [OF c(1)]
  have nz: "a \<noteq> 0" by (rule child_handle [OF inv])
  obtain st1 where st1: "while_proc (\<lambda>block st. block \<noteq> 0) (release_block P a) (arena_blocks (arenas st a)) st = (Inr 0, st1)"
      "inv (insert (a, 4096) R) st1" "untouched (- area) st st1" "arenas st1 a = arenas st a" "allocators st1 a = allocators st a"
      "blocks st1 (last bs) = blocks st (last bs)" "a \<in> span a 4096" "last bs \<in> span a 4096" "(a, 4096) \<notin> R" "span a 4096 \<subseteq> area"
    by (rule child_release [OF c])
  let ?f = "last bs"
  let ?st = "rewound a ?f st1"
  have first: "arena_first (arenas st a) = ?f" using chain_top(4) [OF chain] .
  have run: "loke_rt_v1_reset PC a st = (Inr (), ?st)"
    using nz st1(1,4) first by (simp add: loke_rt_v1_reset_def child_dispatch [OF inv] loke_rt_arena_ops_def arena_reset_def
      arena_release_blocks_def rt_simps bind_def set_arena_def set_block_def rewound_def)
  have fb: "block_ok ?f (blocks st ?f)" "apart (a, 80) (extent (blocks st) ?f)" "block_owned (blocks st ?f) = 0"
    using chain chain_top(5) [OF chain] by (auto simp: chain_ok_def)
  have "chain_ok a [?f] {} ?st"
    using chain fb st1(4-6) by (simp add: chain_ok_def rewound_def handle_ok_def block_ok_def extent_def first)
  moreover have "arena_parent (arenas ?st a) = h" "control_bytes (arenas ?st a) = 4096" "unat ?f = unat a + 80" "unat (block_usable (blocks ?st ?f)) = 3984"
    using c(1) st1(4,6) by (simp_all add: child_ok_def rewound_def)
  ultimately have ok: "child_ok h a [?f] {} ?st" by (simp add: child_ok_def)
  have hold: "holdings a [?f] ?st = {(a, 4096)}" by (simp add: holdings_def)
  have "agree (- spans (insert (a, 4096) R)) st1 ?st" using st1(7,8) by (auto simp: agree_def rewound_def)
  with st1(2) have "inv (R \<union> holdings a [?f] ?st) ?st" unfolding hold by (simp add: inv_put)
  then have "cinv {} ?st" using ok st1(9) hold unfolding child_inv_def by (intro exI [of _ "[?f]"]) simp
  moreover have "untouched (- area) st1 ?st" using st1(7,8,10) by (auto simp: untouched_def agree_def rewound_def)
  ultimately show ?thesis using run untouched_trans [OF st1(3)] by blast
qed

text \<open>Dropping the arena gives everything back.\<close>

lemma child_drop:
  assumes inv: "cinv L st"
  obtains st' where "loke_rt_v1_arena_drop P a st = (Inr (), st')" and "inv R st'" and "untouched (- area) st st'"
proof -
  obtain bs where c: "child_ok h a bs L st" "inv (R \<union> holdings a bs st) st" "R \<inter> holdings a bs st = {}"
    using inv by (auto simp: child_inv_def)
  have nz: "a \<noteq> 0" by (rule child_handle [OF inv])
  obtain st1 where st1: "while_proc (\<lambda>block st. block \<noteq> 0) (release_block P a) (arena_blocks (arenas st a)) st = (Inr 0, st1)"
      "inv (insert (a, 4096) R) st1" "untouched (- area) st st1" "arenas st1 a = arenas st a" "a \<in> span a 4096" "(a, 4096) \<notin> R" "span a 4096 \<subseteq> area"
    by (rule child_release [OF c])
  let ?st = "st1\<lparr>arenas := (arenas st1)(a := (arenas st1 a)\<lparr>arena_blocks := 0\<rparr>)\<rparr>"
  have ctl: "arena_parent (arenas st a) = h" "h \<noteq> 0" "control_bytes (arenas st a) = 4096"
    using c(1) handle [OF c(2)] by (simp_all add: child_ok_def)
  have "agree (- spans (insert (a, 4096) R)) st1 ?st" using st1(5) by (auto simp: agree_def)
  with st1(2) have inv2: "inv (insert (a, 4096) R) ?st" by (rule inv_put)
  have "(a, unat (4096 :: u64)) \<in> insert (a, 4096) R" "insert (a, 4096) R - {(a, unat (4096 :: u64))} = R" using st1(6) by auto
  from free_law [OF inv2 this(1), of 16, unfolded this(2)] obtain st2 where
    st2: "loke_rt_v1_free P h a 4096 16 ?st = (Inr (), st2)" "inv R st2" "untouched (- territory \<union> spans R) ?st st2" by blast
  have "loke_rt_v1_arena_drop P a st = (Inr (), st2)"
    using nz ctl st1(1,4) st2(1) by (simp add: loke_rt_v1_arena_drop_def arena_release_blocks_def rt_simps bind_def Let_def set_arena_def ARENA_CONTROL_ALIGN_def)
  moreover have "untouched (- area) st1 ?st" using st1(5,7) by (auto simp: untouched_def agree_def)
  moreover have "untouched (- area) ?st st2" using st2(3) by (rule untouched_mono) auto
  ultimately show thesis using st2(2) untouched_trans [OF st1(3)] untouched_trans by (intro that) blast+
qed

end


sublocale nested \<subseteq> child: region_provider PC a "territory - spans R" "child_inv inv h a R"
  by unfold_locales (rule child_handle child_live_inside child_stable child_alloc_law child_resize_law child_free_law child_reset_law; assumption)+

section \<open>Opening\<close>

text \<open>The arena that \<^verbatim>\<open>open\<close> lays out over a granted control allocation.\<close>

definition opened_arena :: "addr \<Rightarrow> addr \<Rightarrow> u64 \<Rightarrow> addr \<Rightarrow> 'w rt \<Rightarrow> 'w rt" where
  "opened_arena a b n h st = (let st = placed_arena a b n 4096 h 4096 st in
     st\<lparr>allocators := (allocators st)(a := (allocators st a)\<lparr>al_ops := Arena_ops\<rparr>)\<rparr>)"

lemma opened_child:
  assumes "a \<noteq> 0" and "unat a + 4096 < 2 ^ 64" and "unat b = unat a + 80" and "unat n = 3984"
  shows "child_ok h a [b] {} (opened_arena a b n h st)" and "holdings a [b] (opened_arena a b n h st) = {(a, 4096)}"
    and "agree (- span a 4096) st (opened_arena a b n h st)" and "selected (opened_arena a b n h st) = selected st"
    and "seed_counter (opened_arena a b n h st) = seed_counter st" and "init_phase (opened_arena a b n h st) = init_phase st"
proof -
  have b: "b \<noteq> 0" "b \<in> span a 4096" "a \<in> span a 4096" using assms by (auto simp: span_nowrap)
  show "child_ok h a [b] {} (opened_arena a b n h st)"
    using assms b(1) by (simp add: child_ok_def chain_ok_def opened_arena_def placed_arena_def handle_ok_def block_ok_def apart_def extent_def Let_def)
  show "agree (- span a 4096) st (opened_arena a b n h st)"
    using b by (auto simp: agree_def opened_arena_def placed_arena_def Let_def)
qed (simp_all add: holdings_def opened_arena_def placed_arena_def Let_def)

context provider
begin

lemma arena_open_child:
  assumes inv: "inv R st"
  obtains (refused) st' where "loke_rt_v1_arena_open P h st = (Inr 0, st')" and "inv R st'" and "untouched (- territory \<union> spans R) st st'"
  | (opened) a st' where "loke_rt_v1_arena_open P h st = (Inr a, st')" and "a \<noteq> 0" and "child_inv inv h a R {} st'"
      and "untouched (- territory \<union> spans R) st st'"
proof -
  have pos: "0 < (4096 :: u64)" and h: "h \<noteq> 0" and u: "unat (4096 :: u64) = 4096" "unat (16 :: u64) = 16" using handle [OF inv] by simp_all
  obtain s st1 where got: "loke_rt_v1_alloc P h 4096 16 st = (Inr s, st1)" "untouched (- territory \<union> spans R) st st1"
      "if s = 0 then inv R st1 else inv (insert (s, 4096) R) st1 \<and> (s, 4096) \<notin> R \<and> 16 dvd unat s"
    using alloc_law [OF inv pos pow2_16] unfolding u by blast
  show thesis
  proof (cases "s = 0")
    case True
    then have "loke_rt_v1_arena_open P h st = (Inr 0, st1)"
      using got(1) h by (simp add: loke_rt_v1_arena_open_def bind_def rt_simps ARENA_DEFAULT_BLOCK_def ARENA_CONTROL_ALIGN_def)
    then show thesis using True got(2,3) by (intro refused) simp_all
  next
    case False
    then have inv1: "inv (insert (s, 4096) R) st1" "(s, 4096) \<notin> R" "16 dvd unat s" using got(3) by simp_all
    have "insert (s, 4096) R - {(s, 4096)} = R" using inv1(2) by blast
    with live_inside [OF inv1(1) insertI1] have blk: "unat s + 4096 < 2 ^ 64" "span s 4096 \<subseteq> territory" "span s 4096 \<inter> spans R = {}"
      by (simp_all add: block_in_def)
    have fits: "unat s + unat (4096 :: u64) < 2 ^ 64" "128 \<le> unat (4096 :: u64)" using blk(1) by simp_all
    obtain a b n where place: "arena_place s 4096 h 4096 st1 = (Inr a, placed_arena a b n 4096 h 4096 st1)" "16 dvd unat a" "unat s \<le> unat a"
        "unat a < unat s + 16" "unat b = unat a + 80" "unat b + 32 + unat n = unat s + unat (4096 :: u64)"
      by (rule arena_place_runs [OF False fits, of h 4096 st1]) blast
    have "unat a = unat s" using place(2-4) inv1(3) by presburger
    then have as: "a = s" by (rule unsigned_word_eqI)
    have n: "unat n = 3984" using place(5,6) as by simp
    note made = opened_child [OF False blk(1) place(5) [unfolded as] n, where h = h and st = st1]
    have "loke_rt_v1_arena_open P h st = (Inr s, opened_arena s b n h st1)"
      using got(1) h False place(1) as
      by (simp add: loke_rt_v1_arena_open_def bind_def rt_simps ARENA_DEFAULT_BLOCK_def ARENA_CONTROL_ALIGN_def opened_arena_def Let_def)
    moreover have "inv (R \<union> {(s, 4096)}) (opened_arena s b n h st1)"
      using stable [OF inv1(1), of "opened_arena s b n h st1"] made(3) by (auto simp: agree_def)
    then have "child_inv inv h s R {} (opened_arena s b n h st1)"
      using made(1,2) inv1(2) unfolding child_inv_def by (intro exI [of _ "[b]"]) simp
    moreover have "untouched (- territory \<union> spans R) st1 (opened_arena s b n h st1)"
      using made(3-6) blk(2,3) by (auto simp: untouched_def agree_def)
    ultimately show thesis using False untouched_trans [OF got(2)] by (intro opened) auto
  qed
qed

end

context region_provider
begin

lemma history_untouched:
  assumes "history P h x y" and "inv (fst x) (snd x)"
  shows "untouched (- territory) (snd x) (snd y)"
  using assms
proof (induction rule: history.induct)
  case (history_alloc L st sz align p st')
  from history_inv [OF history_alloc.hyps(1)] history_alloc.prems have "inv L st" by simp
  from alloc_law [OF this history_alloc.hyps(2,3)] history_alloc.hyps(4) have "untouched (- territory) st st'" by (auto elim!: untouched_mono)
  then show ?case using history_alloc untouched_trans by auto
next
  case (history_resize L st new align p old q st')
  from history_inv [OF history_resize.hyps(1)] history_resize.prems have "inv L st" by simp
  from resize_law [OF this history_resize.hyps(2,3), of p old] history_resize.hyps(4,5) have "untouched (- territory) st st'"
    by (auto elim!: untouched_mono split: if_splits)
  then show ?case using history_resize untouched_trans by auto
next
  case (history_free L st p sz align st')
  from history_inv [OF history_free.hyps(1)] history_free.prems have "inv L st" by simp
  from free_law [OF this history_free.hyps(2), of align] history_free.hyps(3) have "untouched (- territory) st st'" by (auto elim!: untouched_mono)
  then show ?case using history_free untouched_trans by auto
next
  case (history_reset L st st')
  from history_inv [OF history_reset.hyps(1)] history_reset.prems have "inv L st" by simp
  from reset_law [OF this] history_reset.hyps(2) have "untouched (- territory) st st'" by auto
  then show ?case using history_reset untouched_trans by auto
next
  case (history_write L st q bs)
  from history_inv [OF history_write.hyps(1)] history_write.prems have "inv L st" by simp
  then have "spans L \<subseteq> territory" using live_inside by (fastforce simp: spans_def block_in_def)
  then have "untouched (- territory) st (st\<lparr>mem := store (mem st) q bs\<rparr>)" using history_write.hyps by (intro untouched_store) auto
  then show ?case using history_write untouched_trans by auto
qed simp

end

interpretation nested_fixed: nested "providers H k" a "fixed_territory a b n" "fixed_inv a b n" "providers H (Suc k)" c R
  for H :: "'w host" and k a b n c R
  by unfold_locales simp


section \<open>Properties\<close>


text \<open>An arena over a 16 KiB buffer, and in it one that grows for a request of 5000 bytes.\<close>

definition big_arena :: "unit rt" where
  "big_arena = (let st = placed_arena 0x10000 0x10050 16272 0x4000 0 0 (initial_rt sample_host ()) in
     st\<lparr>allocators := (allocators st)(0x10000 := (allocators st 0x10000)\<lparr>al_ops := Arena_ops\<rparr>)\<rparr>)"

lemma big_inv: "fixed_inv 0x10000 0x10050 16272 {} big_arena"
  unfolding big_arena_def Let_def by (rule placed_arena_fixed) simp_all

definition inner_arena :: "unit rt" where
  "inner_arena = opened_arena 0x10070 0x100C0 3984 0x10000 ((set_used 0x10050 4096 big_arena)\<lparr>refused_by := 0, refused_size := 4096\<rparr>)"

lemma big_rounds: "arena_round_up 0x10070 16 = 0x10070" "arena_round_up 0x100C0 16 = 0x100C0"
  by code_simp+

lemma big_fields:
  "arenas big_arena 0x10000 = \<lparr>arena_parent = 0, arena_blocks = 0x10050, arena_first = 0x10050, block_bytes = 0, control_bytes = 0x4000\<rparr>"
  "blocks big_arena 0x10050 = \<lparr>next_block = 0, block_usable = 16272, block_used = 0, block_owned = 0\<rparr>"
  by (simp_all add: big_arena_def placed_arena_def)

lemma big_alloc: "loke_rt_v1_alloc (providers sample_host 0) 0x10000 4096 16 big_arena =
    (Inr 0x10070, (set_used 0x10050 4096 big_arena)\<lparr>refused_by := 0, refused_size := 4096\<rparr>)"
  by (simp add: loke_rt_v1_alloc_def fixed_dispatch [OF big_inv] loke_rt_arena_ops_def arena_alloc_def arena_align_def arena_bump_def
    arena_block_bytes_def SIZEOF_BLOCK_def big_fields big_rounds note_request_def bind_def rt_simps Let_def set_block_def set_used_def)

lemma inner_open: "loke_rt_v1_arena_open (providers sample_host 0) 0x10000 big_arena = (Inr 0x10070, inner_arena)"
  by (simp add: loke_rt_v1_arena_open_def bind_def rt_simps ARENA_DEFAULT_BLOCK_def ARENA_CONTROL_ALIGN_def big_alloc arena_place_def big_rounds
    SIZEOF_ARENA_def SIZEOF_BLOCK_def Let_def set_block_def set_arena_def inner_arena_def opened_arena_def placed_arena_def)

lemma inner_grows: "fst (loke_rt_v1_alloc (providers sample_host (Suc 0)) 0x10070 5000 8 inner_arena) = Inr 0x11090"
  by code_simp


end
