(* ===== verification/Loke_Map.thy ===== *)
theory Loke_Map
  imports Loke_Dyn
begin

text \<open>
  The hash map of \<^verbatim>\<open>runtime/container.c\<close> (\<^verbatim>\<open>map_controls\<close> to \<^verbatim>\<open>loke_rt_v1_map_scan\<close>): open addressing
  with one control byte per slot and linear probing over a power-of-two table.  The map value is
  the struct at its address, the table header the struct at the address of its block, and the
  control bytes, keys and values are bytes of that block.
\<close>

section \<open>Definitions\<close>

definition LOKE_RT_MAP_EMPTY :: u8 where
  "LOKE_RT_MAP_EMPTY = 0"

definition LOKE_RT_MAP_TOMBSTONE :: u8 where
  "LOKE_RT_MAP_TOMBSTONE = 1"

definition LOKE_RT_MAP_OCCUPIED :: u8 where
  "LOKE_RT_MAP_OCCUPIED = 2"

definition LOKE_RT_MAP_VALUE_OWED :: u8 where
  "LOKE_RT_MAP_VALUE_OWED = 3"

definition SIZEOF_TABLE :: u64 where
  "SIZEOF_TABLE = 72"

definition set_map :: "addr \<Rightarrow> (map_v1 \<Rightarrow> map_v1) \<Rightarrow> ('w rt, unit) proc" where
  "set_map self f = modify (\<lambda>st. st\<lparr>maps := (maps st)(self := f (maps st self))\<rparr>)"

definition set_table :: "addr \<Rightarrow> (map_table_v1 \<Rightarrow> map_table_v1) \<Rightarrow> ('w rt, unit) proc" where
  "set_table t f = modify (\<lambda>st. st\<lparr>tables := (tables st)(t := f (tables st t))\<rparr>)"

definition zero_map :: map_v1 where
  "zero_map = \<lparr>map_table = 0, map_len = 0, map_cap = 0, map_allocator = 0\<rparr>"

definition map_controls :: "'w rt \<Rightarrow> addr \<Rightarrow> addr" where
  "map_controls st t = t + controls_offset (tables st t)"

definition map_key_at :: "'w rt \<Rightarrow> addr \<Rightarrow> 'w container_ops \<Rightarrow> int \<Rightarrow> addr" where
  "map_key_at st t ops i = t + keys_offset (tables st t) + word_of_int i * key_size ops"

definition map_value_at :: "'w rt \<Rightarrow> addr \<Rightarrow> 'w container_ops \<Rightarrow> int \<Rightarrow> addr" where
  "map_value_at st t ops i = t + values_offset (tables st t) + word_of_int i * elem_size ops"

definition control :: "'w rt \<Rightarrow> addr \<Rightarrow> int \<Rightarrow> u8" where
  "control st t i = mem st (map_controls st t + word_of_int i)"

definition set_control :: "addr \<Rightarrow> int \<Rightarrow> u8 \<Rightarrow> ('w rt, unit) proc" where
  "set_control t i c = modify (\<lambda>st. st\<lparr>mem := (mem st)(map_controls st t + word_of_int i := c)\<rparr>)"

definition map_next_seed :: "addr \<Rightarrow> ('w rt, u64) proc" where
  "map_next_seed block = bind get_state (\<lambda>st.
     bind (put_state (st\<lparr>seed_counter := seed_counter st + 0x9e3779b97f4a7c15\<rparr>)) (\<lambda>_.
       let x = seed_counter st + block;
           x = x XOR drop_bit 30 x;
           x = x * 0xbf58476d1ce4e5b9;
           x = x XOR drop_bit 27 x;
           x = x * 0x94d049bb133111eb;
           x = x XOR drop_bit 31 x
       in return x))"

definition map_capacity_of :: "int \<Rightarrow> int" where
  "map_capacity_of slots = slots - slots div 8"

text \<open>A loop that doubles the slot count while a condition holds; \<open>None\<close> when it cannot double.\<close>

definition map_double_while :: "(int \<Rightarrow> bool) \<Rightarrow> int \<Rightarrow> ('s, int option) proc" where
  "map_double_while p slots = bind
     (while_proc (\<lambda>(slots, ok) _. ok \<and> p slots)
       (\<lambda>(slots, ok). return (if slots > INT64_MAX div 2 then (slots, False) else (slots * 2, True)))
       (slots, True))
     (\<lambda>(slots, ok). return (if ok then Some slots else None))"

definition map_slots_for :: "int \<Rightarrow> ('s, int option) proc" where
  "map_slots_for min_capacity = map_double_while (\<lambda>slots. map_capacity_of slots < min_capacity) 8"

text \<open>One array of the block after the bytes in use: the offset it starts at and the bytes in use
  after it.\<close>

definition map_section :: "u64 \<Rightarrow> u64 \<Rightarrow> int \<Rightarrow> u64 \<Rightarrow> (u64 \<times> u64) option" where
  "map_section cursor align slots sz =
     (case checked_round_up cursor align of
        None \<Rightarrow> None
      | Some cursor \<Rightarrow> (case loke_rt_v1_checked_bytes slots sz of
          None \<Rightarrow> None
        | Some bytes \<Rightarrow> if bytes > UINT64_MAX - cursor then None else Some (cursor, cursor + bytes)))"

definition map_block_align :: "'w container_ops \<Rightarrow> u64" where
  "map_block_align ops =
     (let align = sane_container_align (key_align ops);
          align = (if sane_container_align (elem_align ops) > align then sane_container_align (elem_align ops) else align)
      in if align < 8 then 8 else align)"

definition map_block_shape :: "'w container_ops \<Rightarrow> int \<Rightarrow> map_table_v1 option" where
  "map_block_shape ops slots =
     (case map_section SIZEOF_TABLE 8 slots 1 of
        None \<Rightarrow> None
      | Some (c, cursor) \<Rightarrow> (case map_section cursor (key_align ops) slots (key_size ops) of
          None \<Rightarrow> None
        | Some (ks, cursor) \<Rightarrow> (case map_section cursor (elem_align ops) slots (elem_size ops) of
            None \<Rightarrow> None
          | Some (vs, cursor) \<Rightarrow> (case checked_round_up cursor (map_block_align ops) of
              None \<Rightarrow> None
            | Some bytes \<Rightarrow> Some \<lparr>slot_count = slots, occupied = 0, tombstones = 0, seed = 0,
                controls_offset = c, keys_offset = ks, values_offset = vs, block_size = bytes,
                block_align = map_block_align ops\<rparr>))))"

definition map_free_block :: "'w providers \<Rightarrow> addr \<Rightarrow> addr \<Rightarrow> ('w rt, unit) proc" where
  "map_free_block P a t = bind get_state (\<lambda>st.
     loke_rt_v1_free P a t (block_size (tables st t)) (block_align (tables st t)))"

definition map_mask :: "'w rt \<Rightarrow> addr \<Rightarrow> u64" where
  "map_mask st t = word_of_int (slot_count (tables st t)) - 1"

definition map_place_moved :: "addr \<Rightarrow> 'w container_ops \<Rightarrow> addr \<Rightarrow> addr \<Rightarrow> ('w rt, unit) proc" where
  "map_place_moved dst ops key value = bind get_state (\<lambda>st.
     let mask = map_mask st dst in
     bind (while_proc (\<lambda>index st. control st dst (uint index) = LOKE_RT_MAP_OCCUPIED)
             (\<lambda>index. return ((index + 1) AND mask)) (key_hash ops st key (seed (tables st dst)) AND mask)) (\<lambda>index.
     bind get_state (\<lambda>st.
     bind (memcpy (map_key_at st dst ops (uint index)) key (key_size ops)) (\<lambda>_.
     bind (memcpy (map_value_at st dst ops (uint index)) value (elem_size ops)) (\<lambda>_.
     bind (set_control dst (uint index) LOKE_RT_MAP_OCCUPIED) (\<lambda>_.
     set_table dst (\<lambda>t. t\<lparr>occupied := occupied t + 1\<rparr>)))))))"

text \<open>The loop over the old table that reserve, entry and shrink share.\<close>

definition map_move_all :: "addr \<Rightarrow> addr \<Rightarrow> 'w container_ops \<Rightarrow> ('w rt, unit) proc" where
  "map_move_all fresh old ops =
     bind (while_proc (\<lambda>i st. i < slot_count (tables st old))
       (\<lambda>i. bind get_state (\<lambda>st.
          bind (if control st old i = LOKE_RT_MAP_OCCUPIED
                then map_place_moved fresh ops (map_key_at st old ops i) (map_value_at st old ops i)
                else return ()) (\<lambda>_. return (i + 1)))) 0) (\<lambda>_. return ())"

text \<open>A zeroed block with a table header of the given shape; 0 when the provider refuses.\<close>

definition map_new_table :: "'w providers \<Rightarrow> addr \<Rightarrow> map_table_v1 \<Rightarrow> ('w rt, addr) proc" where
  "map_new_table P a shape = bind (loke_rt_v1_alloc_zeroed P a (block_size shape) (block_align shape)) (\<lambda>fresh.
     if fresh = 0 then return 0
     else bind (set_table fresh (\<lambda>_. shape)) (\<lambda>_. bind (map_next_seed fresh) (\<lambda>s.
       bind (set_table fresh (\<lambda>t. t\<lparr>seed := s\<rparr>)) (\<lambda>_. return fresh))))"

definition loke_rt_v1_map_bind :: "addr \<Rightarrow> ('w rt, unit) proc" where
  "loke_rt_v1_map_bind self = bind get_state (\<lambda>st.
     if map_allocator (maps st self) = 0
     then bind loke_rt_v1_selected_allocator (\<lambda>a. set_map self (\<lambda>m. m\<lparr>map_allocator := a\<rparr>))
     else return ())"

definition loke_rt_v1_map_reserve :: "'w providers \<Rightarrow> addr \<Rightarrow> 'w container_ops \<Rightarrow> int \<Rightarrow> ('w rt, bool) proc" where
  "loke_rt_v1_map_reserve P self ops min_capacity = bind get_state (\<lambda>st.
     let old = map_table (maps st self) in
     if min_capacity < 0 then loke_rt_v1_container_fault ''a container capacity cannot be negative''
     else bind (loke_rt_v1_map_bind self) (\<lambda>_. bind get_state (\<lambda>st.
       let m = maps st self in
       if min_capacity \<le> map_cap m \<and> (old \<noteq> 0 \<or> min_capacity = 0) then return True
       else bind (map_slots_for (if min_capacity < map_len m then map_len m else min_capacity)) (\<lambda>found.
         case found of None \<Rightarrow> return False | Some slots \<Rightarrow>
         (case map_block_shape ops slots of None \<Rightarrow> return False | Some shape \<Rightarrow>
         bind (map_new_table P (map_allocator m) shape) (\<lambda>fresh.
           if fresh = 0 then return False
           else bind (if old \<noteq> 0
                      then bind (map_move_all fresh old ops) (\<lambda>_. map_free_block P (map_allocator m) old)
                      else return ()) (\<lambda>_.
             bind (set_map self (\<lambda>m. m\<lparr>map_table := fresh, map_cap := map_capacity_of slots\<rparr>)) (\<lambda>_. return True))))))))"

subsection \<open>Dropping\<close>

definition run_drop :: "(addr \<Rightarrow> ('w rt, unit) proc) option \<Rightarrow> addr \<Rightarrow> ('w rt, unit) proc" where
  "run_drop hook p = (case hook of None \<Rightarrow> return () | Some f \<Rightarrow> f p)"

text \<open>The slot stops being an entry before its key hook runs.\<close>

definition map_take_out :: "addr \<Rightarrow> addr \<Rightarrow> 'w container_ops \<Rightarrow> int \<Rightarrow> ('w rt, unit) proc" where
  "map_take_out self t ops i =
     bind (set_control t i LOKE_RT_MAP_VALUE_OWED) (\<lambda>_.
     bind (set_table t (\<lambda>t. t\<lparr>occupied := occupied t - 1, tombstones := tombstones t + 1\<rparr>)) (\<lambda>_.
     bind (set_map self (\<lambda>m. m\<lparr>map_len := map_len m - 1\<rparr>)) (\<lambda>_. bind get_state (\<lambda>st.
     run_drop (key_drop ops) (map_key_at st t ops i)))))"

definition map_drop_entry :: "addr \<Rightarrow> addr \<Rightarrow> 'w container_ops \<Rightarrow> int \<Rightarrow> ('w rt, unit) proc" where
  "map_drop_entry self t ops i = bind get_state (\<lambda>st.
     bind (if control st t i = LOKE_RT_MAP_OCCUPIED then map_take_out self t ops i else return ()) (\<lambda>_.
     bind get_state (\<lambda>st.
     if control st t i = LOKE_RT_MAP_VALUE_OWED
     then bind (set_control t i LOKE_RT_MAP_TOMBSTONE) (\<lambda>_. bind get_state (\<lambda>st.
       run_drop (elem_drop ops) (map_value_at st t ops i)))
     else return ())))"

definition map_drop_entries :: "addr \<Rightarrow> addr \<Rightarrow> 'w container_ops \<Rightarrow> ('w rt, unit) proc" where
  "map_drop_entries self t ops =
     bind (while_proc (\<lambda>i st. i < slot_count (tables st t))
       (\<lambda>i. bind (map_drop_entry self t ops i) (\<lambda>_. return (i + 1))) 0) (\<lambda>_. return ())"

definition loke_rt_v1_map_drop :: "'w providers \<Rightarrow> addr \<Rightarrow> 'w container_ops \<Rightarrow> ('w rt, unit) proc" where
  "loke_rt_v1_map_drop P self ops = bind get_state (\<lambda>st.
     let t = map_table (maps st self) in
     bind (if t \<noteq> 0
           then bind (if key_drop ops \<noteq> None \<or> elem_drop ops \<noteq> None then map_drop_entries self t ops else return ()) (\<lambda>_.
             bind get_state (\<lambda>st. map_free_block P (map_allocator (maps st self)) t))
           else return ()) (\<lambda>_.
     set_map self (\<lambda>_. zero_map)))"

subsection \<open>Cloning\<close>

definition run_clone ::
    "(addr \<Rightarrow> addr \<Rightarrow> addr \<Rightarrow> ('w rt, bool) proc) option \<Rightarrow> addr \<Rightarrow> addr \<Rightarrow> addr \<Rightarrow> ('w rt, bool) proc" where
  "run_clone hook to from a = (case hook of None \<Rightarrow> return True | Some f \<Rightarrow> f to from a)"

definition map_clone_slot :: "'w container_ops \<Rightarrow> addr \<Rightarrow> addr \<Rightarrow> addr \<Rightarrow> int \<Rightarrow> ('w rt, int \<times> bool) proc" where
  "map_clone_slot ops fresh source a i = bind get_state (\<lambda>st.
     if control st fresh i \<noteq> LOKE_RT_MAP_OCCUPIED
     then bind (if control st fresh i = LOKE_RT_MAP_VALUE_OWED then set_control fresh i LOKE_RT_MAP_TOMBSTONE else return ())
       (\<lambda>_. return (i + 1, True))
     else bind (run_clone (key_clone ops) (map_key_at st fresh ops i) (map_key_at st source ops i) a) (\<lambda>ok.
       if \<not> ok then return (i, False)
       else bind get_state (\<lambda>st.
         bind (run_clone (elem_clone ops) (map_value_at st fresh ops i) (map_value_at st source ops i) a) (\<lambda>ok.
           if ok then return (i + 1, True)
           else bind get_state (\<lambda>st. bind (run_drop (key_drop ops) (map_key_at st fresh ops i)) (\<lambda>_. return (i, False)))))))"

definition map_unclone :: "'w container_ops \<Rightarrow> addr \<Rightarrow> int \<Rightarrow> ('w rt, unit) proc" where
  "map_unclone ops fresh i =
     bind (while_proc (\<lambda>j st. j < i)
       (\<lambda>j. bind get_state (\<lambda>st.
          bind (if control st fresh j \<noteq> LOKE_RT_MAP_OCCUPIED then return ()
                else bind (run_drop (key_drop ops) (map_key_at st fresh ops j)) (\<lambda>_. bind get_state (\<lambda>st.
                  run_drop (elem_drop ops) (map_value_at st fresh ops j)))) (\<lambda>_. return (j + 1)))) 0) (\<lambda>_. return ())"

text \<open>The block copy moves the header with the bytes.\<close>

definition map_copy_block :: "addr \<Rightarrow> addr \<Rightarrow> ('w rt, unit) proc" where
  "map_copy_block fresh source = bind get_state (\<lambda>st.
     bind (memcpy fresh source (block_size (tables st source))) (\<lambda>_.
     set_table fresh (\<lambda>_. tables st source)))"

definition loke_rt_v1_map_clone ::
    "'w providers \<Rightarrow> addr \<Rightarrow> addr \<Rightarrow> 'w container_ops \<Rightarrow> addr \<Rightarrow> ('w rt, bool) proc" where
  "loke_rt_v1_map_clone P out src ops a = bind get_state (\<lambda>st.
     let source = map_table (maps st src) in
     bind (set_map out (\<lambda>_. zero_map\<lparr>map_allocator := a\<rparr>)) (\<lambda>_. bind get_state (\<lambda>st.
     if source = 0 \<or> map_len (maps st src) = 0 then return True
     else bind (loke_rt_v1_alloc P a (block_size (tables st source)) (block_align (tables st source))) (\<lambda>fresh.
       if fresh = 0 then return False
       else bind (map_copy_block fresh source) (\<lambda>_.
         bind (while_proc (\<lambda>(i, ok) st. ok \<and> i < slot_count (tables st fresh))
                 (\<lambda>(i, ok). map_clone_slot ops fresh source a i) (0, True)) (\<lambda>(i, ok). bind get_state (\<lambda>st.
         if i < slot_count (tables st fresh)
         then bind (map_unclone ops fresh i) (\<lambda>_. bind (map_free_block P a fresh) (\<lambda>_. return False))
         else bind (set_map out (\<lambda>m. m\<lparr>map_table := fresh, map_len := map_len (maps st src), map_cap := map_cap (maps st src)\<rparr>))
           (\<lambda>_. return True))))))))"

subsection \<open>Lookup, insertion, removal\<close>

primrec map_probe_from :: "'w rt \<Rightarrow> addr \<Rightarrow> 'w container_ops \<Rightarrow> addr \<Rightarrow> nat \<Rightarrow> u64 \<Rightarrow> int" where
  "map_probe_from st t ops key 0 index = -1"
| "map_probe_from st t ops key (Suc n) index =
     (if control st t (uint index) = LOKE_RT_MAP_EMPTY then -1
      else if control st t (uint index) = LOKE_RT_MAP_OCCUPIED \<and> key_equal ops st (map_key_at st t ops (uint index)) key
      then uint index
      else map_probe_from st t ops key n ((index + 1) AND map_mask st t))"

definition map_probe :: "'w rt \<Rightarrow> addr \<Rightarrow> 'w container_ops \<Rightarrow> addr \<Rightarrow> int" where
  "map_probe st t ops key =
     map_probe_from st t ops key (nat (slot_count (tables st t))) (key_hash ops st key (seed (tables st t)) AND map_mask st t)"

definition loke_rt_v1_map_find :: "addr \<Rightarrow> 'w container_ops \<Rightarrow> addr \<Rightarrow> ('w rt, addr) proc" where
  "loke_rt_v1_map_find self ops key = bind get_state (\<lambda>st.
     let t = map_table (maps st self) in
     if t = 0 \<or> map_len (maps st self) = 0 then return 0
     else let i = map_probe st t ops key in return (if i < 0 then 0 else map_value_at st t ops i))"

text \<open>The rebuild of an insertion that would overfill the table; 0 when it cannot be had.\<close>

definition map_entry_grow :: "'w providers \<Rightarrow> addr \<Rightarrow> 'w container_ops \<Rightarrow> addr \<Rightarrow> ('w rt, addr) proc" where
  "map_entry_grow P self ops a = bind get_state (\<lambda>st.
     let m = maps st self; old = map_table m in
     bind (map_slots_for (map_len m + 1)) (\<lambda>found.
     case found of None \<Rightarrow> return 0 | Some slots \<Rightarrow>
     bind (map_double_while (\<lambda>slots. slots div 2 \<le> map_len m)
             (if old \<noteq> 0 \<and> slots < slot_count (tables st old) then slot_count (tables st old) else slots)) (\<lambda>found.
     case found of None \<Rightarrow> return 0 | Some slots \<Rightarrow>
     (case map_block_shape ops slots of None \<Rightarrow> return 0 | Some shape \<Rightarrow>
     bind (map_new_table P a shape) (\<lambda>fresh.
       if fresh = 0 then return 0
       else bind (if old \<noteq> 0 then map_move_all fresh old ops else return ()) (\<lambda>_. return fresh))))))"

text \<open>The slot for a key that is not in the table, and the first tombstone passed on the way (-1 when
  none).\<close>

definition map_free_slot :: "addr \<Rightarrow> 'w container_ops \<Rightarrow> addr \<Rightarrow> ('w rt, int \<times> int) proc" where
  "map_free_slot t ops key = bind get_state (\<lambda>st.
     let mask = map_mask st t in
     bind (while_proc (\<lambda>(index, first_free) st. control st t (uint index) = LOKE_RT_MAP_OCCUPIED \<or>
               control st t (uint index) = LOKE_RT_MAP_TOMBSTONE \<and> first_free < 0)
             (\<lambda>(index, first_free). bind get_state (\<lambda>st.
               return ((index + 1) AND mask,
                 if control st t (uint index) = LOKE_RT_MAP_OCCUPIED then first_free else uint index)))
             (key_hash ops st key (seed (tables st t)) AND mask, -1)) (\<lambda>(index, first_free).
     return (if first_free \<ge> 0 then first_free else uint index, first_free)))"

definition map_store_key :: "'w container_ops \<Rightarrow> addr \<Rightarrow> addr \<Rightarrow> addr \<Rightarrow> ('w rt, bool) proc" where
  "map_store_key ops to key a = (case key_clone ops of
     None \<Rightarrow> bind (memcpy to key (key_size ops)) (\<lambda>_. return True)
   | Some f \<Rightarrow> f to key a)"

text \<open>The part of \<^verbatim>\<open>loke_rt_v1_map_entry\<close> that makes the entry, in the table \<open>t\<close>: its slot, or \<open>None\<close> when
  the key could not be cloned.\<close>

definition map_entry_fill :: "addr \<Rightarrow> 'w container_ops \<Rightarrow> addr \<Rightarrow> addr \<Rightarrow> ('w rt, int option) proc" where
  "map_entry_fill t ops key a =
     bind (map_free_slot t ops key) (\<lambda>(i, first_free). bind get_state (\<lambda>st.
     bind (map_store_key ops (map_key_at st t ops i) key a) (\<lambda>ok.
     if \<not> ok then return None
     else bind (if first_free \<ge> 0 then set_table t (\<lambda>t. t\<lparr>tombstones := tombstones t - 1\<rparr>) else return ()) (\<lambda>_.
       bind get_state (\<lambda>st. bind (memset (map_value_at st t ops i) 0 (elem_size ops)) (\<lambda>_.
       bind (set_control t i LOKE_RT_MAP_OCCUPIED) (\<lambda>_.
       bind (set_table t (\<lambda>t. t\<lparr>occupied := occupied t + 1\<rparr>)) (\<lambda>_. return (Some i)))))))))"

text \<open>The part after the table is chosen: \<open>fresh\<close> is the rebuilt table, or 0 when there is none.\<close>

definition map_entry_insert ::
    "'w providers \<Rightarrow> addr \<Rightarrow> 'w container_ops \<Rightarrow> addr \<Rightarrow> addr \<Rightarrow> addr \<Rightarrow> addr \<Rightarrow> ('w rt, addr \<times> bool) proc" where
  "map_entry_insert P self ops key a old fresh =
     (let t = (if fresh \<noteq> 0 then fresh else old) in
      bind (map_entry_fill t ops key a) (\<lambda>filled. case filled of
        None \<Rightarrow> bind (if fresh \<noteq> 0 then map_free_block P a fresh else return ()) (\<lambda>_. return (0, False))
      | Some i \<Rightarrow>
          bind (if fresh \<noteq> 0
                then bind (if old \<noteq> 0 then map_free_block P a old else return ()) (\<lambda>_. bind get_state (\<lambda>st.
                  set_map self (\<lambda>m. m\<lparr>map_table := fresh, map_cap := map_capacity_of (slot_count (tables st fresh))\<rparr>)))
                else return ()) (\<lambda>_.
          bind (set_map self (\<lambda>m. m\<lparr>map_allocator := a, map_len := map_len m + 1\<rparr>)) (\<lambda>_. bind get_state (\<lambda>st.
          return (map_value_at st t ops i, True))))))"

definition loke_rt_v1_map_entry ::
    "'w providers \<Rightarrow> addr \<Rightarrow> 'w container_ops \<Rightarrow> addr \<Rightarrow> ('w rt, addr \<times> bool) proc" where
  "loke_rt_v1_map_entry P self ops key = bind get_state (\<lambda>st.
     let m = maps st self; old = map_table m in
     bind (if map_allocator m = 0 then loke_rt_v1_selected_allocator else return (map_allocator m)) (\<lambda>a.
     let i = (if old \<noteq> 0 then map_probe st old ops key else -1) in
     if i \<ge> 0 then return (map_value_at st old ops i, False)
     else if old = 0 \<or> map_len m + 1 > map_cap m \<or>
       occupied (tables st old) + tombstones (tables st old) + 1 > slot_count (tables st old) - slot_count (tables st old) div 8
     then bind (map_entry_grow P self ops a) (\<lambda>fresh.
       if fresh = 0 then return (0, False) else map_entry_insert P self ops key a old fresh)
     else map_entry_insert P self ops key a old 0))"

definition loke_rt_v1_map_remove :: "addr \<Rightarrow> 'w container_ops \<Rightarrow> addr \<Rightarrow> addr \<Rightarrow> ('w rt, bool) proc" where
  "loke_rt_v1_map_remove self ops key out = bind get_state (\<lambda>st.
     let t = map_table (maps st self) in
     bind (memset out 0 (elem_size ops)) (\<lambda>_. bind get_state (\<lambda>st.
     if t = 0 \<or> map_len (maps st self) = 0 then return False
     else let i = map_probe st t ops key in
       if i < 0 then return False
       else bind (map_take_out self t ops i) (\<lambda>_. bind get_state (\<lambda>st.
         bind (memcpy out (map_value_at st t ops i) (elem_size ops)) (\<lambda>_.
         bind (set_control t i LOKE_RT_MAP_TOMBSTONE) (\<lambda>_. return True)))))))"

definition loke_rt_v1_map_clear :: "addr \<Rightarrow> 'w container_ops \<Rightarrow> ('w rt, unit) proc" where
  "loke_rt_v1_map_clear self ops = bind get_state (\<lambda>st.
     let t = map_table (maps st self); controls = map_controls st t in
     if t = 0 then return ()
     else bind (map_drop_entries self t ops) (\<lambda>_. bind get_state (\<lambda>st.
       bind (memset controls LOKE_RT_MAP_EMPTY (word_of_int (slot_count (tables st t)))) (\<lambda>_.
       bind (set_table t (\<lambda>t. t\<lparr>occupied := 0, tombstones := 0\<rparr>)) (\<lambda>_.
       set_map self (\<lambda>m. m\<lparr>map_len := 0\<rparr>))))))"

definition loke_rt_v1_map_shrink :: "'w providers \<Rightarrow> addr \<Rightarrow> 'w container_ops \<Rightarrow> int \<Rightarrow> ('w rt, bool) proc" where
  "loke_rt_v1_map_shrink P self ops min_capacity = bind get_state (\<lambda>st.
     let m = maps st self; old = map_table m; want = (if map_len m < min_capacity then min_capacity else map_len m) in
     if min_capacity < 0 then loke_rt_v1_container_fault ''a container capacity cannot be negative''
     else if old = 0 then return True
     else bind (map_slots_for want) (\<lambda>found.
       case found of None \<Rightarrow> return False | Some slots \<Rightarrow>
       let slots = (if slots > slot_count (tables st old) then slot_count (tables st old) else slots) in
       if slots = slot_count (tables st old) \<and> tombstones (tables st old) = 0 then return True
       else (case map_block_shape ops slots of None \<Rightarrow> return False | Some shape \<Rightarrow>
         bind (map_new_table P (map_allocator m) shape) (\<lambda>fresh.
         if fresh = 0 then return False
         else bind (map_move_all fresh old ops) (\<lambda>_.
           bind (map_free_block P (map_allocator m) old) (\<lambda>_.
           bind (set_map self (\<lambda>m. m\<lparr>map_table := fresh, map_cap := map_capacity_of slots\<rparr>)) (\<lambda>_. return True)))))))"

text \<open>One step of a walk: the next cursor, and where the key and value of the slot found are.\<close>

primrec map_scan_from :: "'w rt \<Rightarrow> addr \<Rightarrow> 'w container_ops \<Rightarrow> nat \<Rightarrow> int \<Rightarrow> int \<times> (addr \<times> addr) option" where
  "map_scan_from st t ops 0 i = (0, None)"
| "map_scan_from st t ops (Suc n) i =
     (if control st t i \<noteq> LOKE_RT_MAP_OCCUPIED then map_scan_from st t ops n (i + 1)
      else (i + 1, Some (map_key_at st t ops i, map_value_at st t ops i)))"

definition loke_rt_v1_map_scan ::
    "addr \<Rightarrow> 'w container_ops \<Rightarrow> int \<Rightarrow> ('w rt, int \<times> (addr \<times> addr) option) proc" where
  "loke_rt_v1_map_scan t ops cursor = bind get_state (\<lambda>st.
     if t = 0 \<or> cursor < 0 then return (0, None)
     else return (map_scan_from st t ops (nat (slot_count (tables st t) - cursor)) cursor))"

end
