(* ===== verification/Loke_Map_Table.thy ===== *)
theory Loke_Map_Table
  imports Loke_Map
begin

text \<open>
  The table of a hash map: the layout of its block, the choice of its size, and the table read as
  a list of cells.  Probing, insertion into the first slot without an entry and removal by
  tombstone are shown to act on the cells as lookup, update and deletion act on a finite map.
\<close>

section \<open>The block of a table\<close>

lemma map_section_Some:
  assumes "map_section cursor align slots sz = Some (off, cursor')" and "0 \<le> slots" and "slots \<le> INT64_MAX"
  shows "unat cursor \<le> unat off" and "unat (sane_container_align align) dvd unat off"
    and "unat cursor' = unat off + nat slots * unat sz"
proof -
  from assms(1) obtain bytes where off: "checked_round_up cursor align = Some off"
      and bytes: "loke_rt_v1_checked_bytes slots sz = Some bytes" "\<not> bytes > UINT64_MAX - off" "cursor' = off + bytes"
    by (auto simp: map_section_def split: option.splits if_splits)
  have "i64 slots" using assms(2,3) by (simp add: i64_def)
  from checked_bytes_Some [OF bytes(1) this] have "unat bytes = nat slots * unat sz" by simp
  moreover have "unat off + unat bytes < 2 ^ 64"
    using bytes(2) unat_u64_lt [of off] by (simp add: word_less_nat_alt unat_minus_exact)
  ultimately show "unat cursor' = unat off + nat slots * unat sz" by (simp add: bytes(3) unat_plus_exact)
  show "unat cursor \<le> unat off" "unat (sane_container_align align) dvd unat off"
    unfolding checked_round_up_Some [OF off]
    using round_up_multiple [of "unat (sane_container_align align)" "unat cursor"] by auto
qed

text \<open>Where the parts of a table's block are: apart, in order, and inside the block.\<close>

definition layout_ok :: "'w container_ops \<Rightarrow> map_table_v1 \<Rightarrow> bool" where
  "layout_ok ops t \<longleftrightarrow>
     (let n = nat (slot_count t) in
      72 \<le> unat (controls_offset t) \<and>
      unat (controls_offset t) + n \<le> unat (keys_offset t) \<and>
      unat (keys_offset t) + n * unat (key_size ops) \<le> unat (values_offset t) \<and>
      unat (values_offset t) + n * unat (elem_size ops) \<le> unat (block_size t))"

lemma map_block_shape_Some:
  assumes "map_block_shape ops slots = Some t" and "0 \<le> slots" and "slots \<le> INT64_MAX"
  shows "slot_count t = slots" and "occupied t = 0" and "tombstones t = 0" and "layout_ok ops t"
    and "unat (sane_container_align (key_align ops)) dvd unat (keys_offset t)"
    and "unat (sane_container_align (elem_align ops)) dvd unat (values_offset t)"
    and "block_align t = map_block_align ops" and "unat (map_block_align ops) dvd unat (block_size t)"
    and "8 \<le> unat (map_block_align ops)"
proof -
  from assms(1) obtain c c1 ks c2 vs c3 bytes where parts:
      "map_section SIZEOF_TABLE 8 slots 1 = Some (c, c1)" "map_section c1 (key_align ops) slots (key_size ops) = Some (ks, c2)"
      "map_section c2 (elem_align ops) slots (elem_size ops) = Some (vs, c3)" "checked_round_up c3 (map_block_align ops) = Some bytes"
    and t: "t = \<lparr>slot_count = slots, occupied = 0, tombstones = 0, seed = 0, controls_offset = c, keys_offset = ks,
      values_offset = vs, block_size = bytes, block_align = map_block_align ops\<rparr>"
    by (auto simp: map_block_shape_def split: option.splits prod.splits)
  show "8 \<le> unat (map_block_align ops)" by (simp add: map_block_align_def Let_def word_less_nat_alt not_less)
  then have al: "sane_container_align (map_block_align ops) = map_block_align ops" by (auto simp: sane_container_align_def)
  note s1 = map_section_Some [OF parts(1) assms(2,3)] and s2 = map_section_Some [OF parts(2) assms(2,3)]
    and s3 = map_section_Some [OF parts(3) assms(2,3)]
  have top: "unat c3 \<le> unat bytes" "unat (map_block_align ops) dvd unat bytes"
    unfolding checked_round_up_Some [OF parts(4)] al
    using round_up_multiple [of "unat (map_block_align ops)" "unat c3"] \<open>8 \<le> unat (map_block_align ops)\<close> by auto
  show "slot_count t = slots" "occupied t = 0" "tombstones t = 0" "block_align t = map_block_align ops"
    "unat (sane_container_align (key_align ops)) dvd unat (keys_offset t)"
    "unat (sane_container_align (elem_align ops)) dvd unat (values_offset t)"
    "unat (map_block_align ops) dvd unat (block_size t)"
    using s2 s3 top by (simp_all add: t)
  show "layout_ok ops t" using s1 s2 s3 top by (simp add: layout_ok_def Let_def t SIZEOF_TABLE_def)
qed

section \<open>Slot counts\<close>

lemma double_while_run:
  assumes "slots = 2 ^ k" and "0 < k" and "k \<le> 62"
    and stop: "\<And>j. k \<le> j \<Longrightarrow> j < m \<Longrightarrow> p (2 ^ j :: int)" "\<not> p (2 ^ m)" "k \<le> m"
  shows "map_double_while p slots st = (Inr (if m \<le> 62 then Some (2 ^ m) else None), st)"
  using assms
proof (induction "m - k" arbitrary: k slots)
  case 0
  then have "m = k" by simp
  with 0 show ?case by (simp add: map_double_while_def bind_def rt_simps)
next
  case (Suc d)
  have p: "p slots" using Suc by simp
  have max: "INT64_MAX div 2 = 2 ^ 62 - 1" by (simp add: INT64_MAX_def)
  show ?case
  proof (cases "k = 62")
    case True
    with Suc p show ?thesis
      by (simp add: map_double_while_def bind_def rt_simps max while_proc_unfold [of _ _ "(4611686018427387904, True)"]
        while_proc_unfold [of _ _ "(4611686018427387904, False)"])
  next
    case False
    then have k: "Suc k \<le> 62" using Suc.prems(3) by simp
    then have "(2 :: int) ^ k \<le> 2 ^ 61" by (intro power_increasing) auto
    then have small: "\<not> slots > INT64_MAX div 2" using Suc.prems(1) max by simp
    have "map_double_while p slots st = map_double_while p (2 ^ Suc k) st"
      using p small Suc.prems(1) by (simp add: map_double_while_def bind_def while_proc_unfold [of _ _ "(slots, True)"] rt_simps mult.commute)
    moreover have "d = m - Suc k" "Suc k \<le> m" using Suc.hyps(2) by simp_all
    ultimately show ?thesis
      using Suc.hyps(1) [OF _ refl _ k Suc.prems(4,5)] by simp
  qed
qed

lemma capacity_pow2: "3 \<le> k \<Longrightarrow> map_capacity_of (2 ^ k) = 7 * 2 ^ (k - 3)"
  using power_add [of "2 :: int" 3 "k - 3"] by (simp add: map_capacity_of_def)

lemma capacity_mono: "3 \<le> j \<Longrightarrow> j \<le> k \<Longrightarrow> map_capacity_of (2 ^ j) \<le> map_capacity_of (2 ^ k)"
  by (simp add: capacity_pow2 power_increasing)

lemma double_while_cases:
  assumes k: "slots = 2 ^ k" "0 < k" "k \<le> 62" and stops: "k \<le> j" "\<not> p (2 ^ j :: int)"
  obtains (none) "map_double_while p slots st = (Inr None, st)" and "p (2 ^ 62)"
  | (some) m where "map_double_while p slots st = (Inr (Some (2 ^ m)), st)" and "k \<le> m" and "m \<le> 62" and "\<not> p (2 ^ m)"
      and "m = k \<or> p (2 ^ (m - 1))"
proof -
  define m where "m = (LEAST j. k \<le> j \<and> \<not> p (2 ^ j))"
  have m: "k \<le> m" "\<not> p (2 ^ m)" using LeastI [of "\<lambda>j. k \<le> j \<and> \<not> p (2 ^ j)" j] stops by (auto simp: m_def)
  have least: "p (2 ^ i)" if "k \<le> i" "i < m" for i
    using that not_less_Least [of i "\<lambda>j. k \<le> j \<and> \<not> p (2 ^ j)"] by (auto simp: m_def)
  have run: "map_double_while p slots st = (Inr (if m \<le> 62 then Some (2 ^ m) else None), st)"
    using k m least by (intro double_while_run) auto
  show thesis
  proof (cases "m \<le> 62")
    case True
    have "m = k \<or> p (2 ^ (m - 1))" using least [of "m - 1"] m(1) k(2) by (cases "m = k") auto
    with True run m show thesis by (intro some [of m]) simp_all
  next
    case False
    with run least [of 62] k(3) show thesis by (intro none) simp_all
  qed
qed

lemma slots_for_cases:
  obtains (none) "map_slots_for need st = (Inr None, st)" and "map_capacity_of (2 ^ 62) < need"
  | (some) k where "map_slots_for need st = (Inr (Some (2 ^ k)), st)" and "3 \<le> k" and "k \<le> 62"
      and "need \<le> map_capacity_of (2 ^ k)" and "k = 3 \<or> map_capacity_of (2 ^ (k - 1)) < need"
proof -
  have "int (nat need) < 2 ^ nat need"
    using less_exp [of "nat need"] by (metis of_nat_less_iff of_nat_power of_nat_numeral)
  then have "\<not> map_capacity_of (2 ^ (nat need + 3)) < need"
    using capacity_pow2 [of "nat need + 3"] by (cases "0 \<le> need") simp_all
  then show thesis
    using double_while_cases [of 8 3 "nat need + 3" "\<lambda>slots. map_capacity_of slots < need" st] that
    by (auto simp: map_slots_for_def not_less)
qed

text \<open>C29. Choosing a table size always ends, with the smallest power of two from 8 up whose seven eighths
  hold the entries asked for, or with a refusal when no representable power of two does.\<close>

theorem map_slots_for_least:
  "\<exists>r. map_slots_for need st = (Inr r, st) \<and>
     (case r of
        None \<Rightarrow> map_capacity_of (2 ^ 62) < need
      | Some slots \<Rightarrow> need \<le> map_capacity_of slots \<and>
          (\<exists>k. slots = 2 ^ k \<and> 3 \<le> k \<and> k \<le> 62 \<and> (k = 3 \<or> map_capacity_of (2 ^ (k - 1)) < need)))"
proof (cases rule: slots_for_cases [of need st])
  case none
  then show ?thesis by simp
next
  case (some k)
  then show ?thesis by (intro exI [of _ "Some (2 ^ k)"]) auto
qed

section \<open>Tables as lists of cells\<close>

text \<open>
  One slot of a table as a control byte, the key's bytes and the value's bytes; a table is a list
  of them.  \<open>home\<close> is where probing for a key begins and \<open>same\<close> says which keys are equal.
\<close>

type_synonym cell = "u8 \<times> u8 list \<times> u8 list"

definition occ :: "cell \<Rightarrow> bool" where
  "occ c \<longleftrightarrow> fst c = LOKE_RT_MAP_OCCUPIED"

definition vacant :: "cell \<Rightarrow> bool" where
  "vacant c \<longleftrightarrow> fst c = LOKE_RT_MAP_EMPTY"

definition ckey :: "cell \<Rightarrow> u8 list" where
  "ckey c = fst (snd c)"

definition cval :: "cell \<Rightarrow> u8 list" where
  "cval c = snd (snd c)"

lemma cell_simps [simp]: "fst (c, k, v) = c" "ckey (c, k, v) = k" "cval (c, k, v) = v" "occ (LOKE_RT_MAP_OCCUPIED, k, v)"
  by (simp_all add: ckey_def cval_def occ_def)

lemma control_values [simp]: "LOKE_RT_MAP_EMPTY \<noteq> LOKE_RT_MAP_OCCUPIED" "LOKE_RT_MAP_TOMBSTONE \<noteq> LOKE_RT_MAP_OCCUPIED"
    "LOKE_RT_MAP_VALUE_OWED \<noteq> LOKE_RT_MAP_OCCUPIED" "LOKE_RT_MAP_TOMBSTONE \<noteq> LOKE_RT_MAP_EMPTY"
    "LOKE_RT_MAP_VALUE_OWED \<noteq> LOKE_RT_MAP_EMPTY" "LOKE_RT_MAP_OCCUPIED \<noteq> LOKE_RT_MAP_EMPTY"
    "LOKE_RT_MAP_VALUE_OWED \<noteq> LOKE_RT_MAP_TOMBSTONE" "LOKE_RT_MAP_EMPTY \<noteq> LOKE_RT_MAP_TOMBSTONE" "LOKE_RT_MAP_OCCUPIED \<noteq> LOKE_RT_MAP_TOMBSTONE"
  by (simp_all add: LOKE_RT_MAP_EMPTY_def LOKE_RT_MAP_OCCUPIED_def LOKE_RT_MAP_TOMBSTONE_def LOKE_RT_MAP_VALUE_OWED_def)

lemma occ_not_vacant: "occ c \<Longrightarrow> \<not> vacant c"
  by (auto simp: occ_def vacant_def)

text \<open>The value under a key.\<close>

definition lookup :: "(u8 list \<Rightarrow> u8 list \<Rightarrow> bool) \<Rightarrow> cell list \<Rightarrow> u8 list \<Rightarrow> u8 list option" where
  "lookup same cs k = map_option cval (find (\<lambda>c. occ c \<and> same (ckey c) k) cs)"

text \<open>Every entry is reached from its home before an empty slot, and no key is stored twice.\<close>

definition reached :: "cell list \<Rightarrow> nat \<Rightarrow> nat \<Rightarrow> bool" where
  "reached cs s i \<longleftrightarrow> (\<exists>j < length cs. (s + j) mod length cs = i \<and> (\<forall>j' < j. \<not> vacant (cs ! ((s + j') mod length cs))))"

definition table_ok :: "(u8 list \<Rightarrow> nat) \<Rightarrow> (u8 list \<Rightarrow> u8 list \<Rightarrow> bool) \<Rightarrow> cell list \<Rightarrow> bool" where
  "table_ok home same cs \<longleftrightarrow>
     (\<forall>i < length cs. occ (cs ! i) \<longrightarrow> reached cs (home (ckey (cs ! i))) i) \<and>
     (\<forall>i < length cs. \<forall>i' < length cs. occ (cs ! i) \<and> occ (cs ! i') \<and> same (ckey (cs ! i)) (ckey (cs ! i')) \<longrightarrow> i = i')"

fun probe :: "(u8 list \<Rightarrow> u8 list \<Rightarrow> bool) \<Rightarrow> cell list \<Rightarrow> u8 list \<Rightarrow> nat \<Rightarrow> nat \<Rightarrow> nat option" where
  "probe same cs k 0 i = None"
| "probe same cs k (Suc n) i =
     (if vacant (cs ! i) then None
      else if occ (cs ! i) \<and> same (ckey (cs ! i)) k then Some i
      else probe same cs k n (Suc i mod length cs))"

lemma mod_shift: "0 < (n :: nat) \<Longrightarrow> (Suc (s mod n) mod n + j) mod n = (s + Suc j) mod n"
  by (metis Suc_eq_plus1 add.assoc add.commute mod_add_left_eq mod_Suc_eq)

lemma mod_pos_inj: "(s + j) mod n = (s + j') mod n \<Longrightarrow> j < n \<Longrightarrow> j' < n \<Longrightarrow> j = j'" for n :: nat
proof (induction j j' rule: linorder_wlog)
  case (le j j')
  then have "n dvd j' - j" by (metis add_diff_cancel_left mod_eq_dvd_iff_nat nat_add_left_cancel_le)
  with le show ?case by (metis diff_is_0_eq dvd_imp_le less_imp_diff_less linorder_not_less nat_neq_iff zero_less_diff le_antisym)
qed metis

lemma probe_Some:
  assumes "probe same cs k n (s mod length cs) = Some i" and "cs \<noteq> []"
  shows "i < length cs \<and> occ (cs ! i) \<and> same (ckey (cs ! i)) k"
  using assms
proof (induction n arbitrary: s)
  case (Suc n)
  show ?case
  proof (cases "occ (cs ! (s mod length cs)) \<and> same (ckey (cs ! (s mod length cs))) k")
    case True
    with Suc.prems occ_not_vacant show ?thesis by auto
  next
    case False
    with Suc.prems have "probe same cs k n (Suc s mod length cs) = Some i" by (auto simp: mod_Suc_eq split: if_splits)
    from Suc.IH [OF this] Suc.prems(2) show ?thesis by blast
  qed
qed simp

lemma probe_reaches:
  assumes "j < n" and "\<forall>j' < j. \<not> vacant (cs ! ((s + j') mod length cs)) \<and>
      \<not> (occ (cs ! ((s + j') mod length cs)) \<and> same (ckey (cs ! ((s + j') mod length cs))) k)"
    and "occ (cs ! ((s + j) mod length cs))" and "same (ckey (cs ! ((s + j) mod length cs))) k"
  shows "probe same cs k n (s mod length cs) = Some ((s + j) mod length cs)"
  using assms
proof (induction n arbitrary: s j)
  case (Suc n)
  show ?case
  proof (cases j)
    case 0
    with Suc.prems occ_not_vacant show ?thesis by auto
  next
    case (Suc j1)
    have first: "\<not> vacant (cs ! (s mod length cs))" "\<not> (occ (cs ! (s mod length cs)) \<and> same (ckey (cs ! (s mod length cs))) k)"
      using Suc.prems(2) Suc by force+
    have "\<forall>j' < j1. \<not> vacant (cs ! ((Suc s + j') mod length cs)) \<and>
      \<not> (occ (cs ! ((Suc s + j') mod length cs)) \<and> same (ckey (cs ! ((Suc s + j') mod length cs))) k)"
      using Suc.prems(2) Suc by (metis Suc_less_eq add_Suc_shift)
    from Suc.IH [OF _ this] Suc.prems Suc have "probe same cs k n (Suc s mod length cs) = Some ((s + j) mod length cs)" by simp
    with first show ?thesis by (auto simp: mod_Suc_eq)
  qed
qed simp

text \<open>Probing finds exactly the slot of the key.\<close>

lemma probe_iff:
  assumes ok: "table_ok home same cs" and eq: "equivp same" and home: "\<And>a b. same a b \<Longrightarrow> home a = home b" and ne: "cs \<noteq> []"
  shows "probe same cs k (length cs) (home k mod length cs) = Some i \<longleftrightarrow> i < length cs \<and> occ (cs ! i) \<and> same (ckey (cs ! i)) k"
proof
  assume "i < length cs \<and> occ (cs ! i) \<and> same (ckey (cs ! i)) k"
  then have i: "i < length cs" "occ (cs ! i)" "same (ckey (cs ! i)) k" by auto
  have h: "home (ckey (cs ! i)) = home k" using i(3) by (rule home)
  from ok i(1,2) have "reached cs (home k) i" by (auto simp: table_ok_def h [symmetric])
  then obtain j where j: "j < length cs" "(home k + j) mod length cs = i" "\<forall>j' < j. \<not> vacant (cs ! ((home k + j') mod length cs))"
    by (auto simp: reached_def)
  have "\<not> (occ (cs ! ((home k + j') mod length cs)) \<and> same (ckey (cs ! ((home k + j') mod length cs))) k)" if "j' < j" for j'
  proof
    let ?i = "(home k + j') mod length cs"
    assume *: "occ (cs ! ?i) \<and> same (ckey (cs ! ?i)) k"
    then have "same (ckey (cs ! ?i)) (ckey (cs ! i))" using i(3) eq by (metis equivp_def)
    moreover have "?i < length cs" using ne by simp
    ultimately have "?i = i" using ok * i(1,2) by (auto simp: table_ok_def)
    then show False using j(1,2) that mod_pos_inj [of "home k" j' "length cs" j] by simp
  qed
  with j i show "probe same cs k (length cs) (home k mod length cs) = Some i"
    using probe_reaches [of j "length cs" cs "home k" same k] by auto
qed (use probe_Some [OF _ ne] in blast)

lemma probe_None:
  assumes "table_ok home same cs" and "equivp same" and "\<And>a b. same a b \<Longrightarrow> home a = home b" and "cs \<noteq> []"
  shows "probe same cs k (length cs) (home k mod length cs) = None \<longleftrightarrow> (\<forall>c \<in> set cs. occ c \<longrightarrow> \<not> same (ckey c) k)"
  using probe_iff [OF assms, of k] by (metis (no_types, lifting) in_set_conv_nth not_None_eq)

lemma lookup_None: "lookup same cs k = None \<longleftrightarrow> (\<forall>c \<in> set cs. occ c \<longrightarrow> \<not> same (ckey c) k)"
  by (auto simp: lookup_def find_None_iff)

lemma lookup_at:
  assumes "table_ok home same cs" and "equivp same" and "i < length cs" and "occ (cs ! i)" and "same (ckey (cs ! i)) k"
  shows "lookup same cs k = Some (cval (cs ! i))"
proof (cases "find (\<lambda>c. occ c \<and> same (ckey c) k) cs")
  case None
  then have "\<not> (\<exists>c. c \<in> set cs \<and> occ c \<and> same (ckey c) k)" unfolding find_None_iff .
  with nth_mem [OF assms(3)] assms(4,5) show ?thesis by blast
next
  case (Some c)
  then obtain i' where i': "i' < length cs" "occ (cs ! i')" "same (ckey (cs ! i')) k" "c = cs ! i'"
    by (auto simp: find_Some_iff)
  then have "same (ckey (cs ! i')) (ckey (cs ! i))" using assms(2,5) by (metis equivp_def)
  then have "i' = i" using assms(1,3,4) i' by (auto simp: table_ok_def)
  with Some i'(4) show ?thesis by (simp add: lookup_def)
qed

lemma find_update_irrelevant: "\<not> p (xs ! i) \<Longrightarrow> \<not> p c \<Longrightarrow> find p (xs[i := c]) = find p xs"
  by (induction xs arbitrary: i) (auto split: nat.split)

text \<open>The first slot that holds no entry, as insertion and rehashing choose it.\<close>

definition first_free :: "cell list \<Rightarrow> nat \<Rightarrow> nat \<Rightarrow> bool" where
  "first_free cs s i \<longleftrightarrow> (\<exists>j < length cs. (s + j) mod length cs = i \<and> \<not> occ (cs ! i) \<and>
     (\<forall>j' < j. occ (cs ! ((s + j') mod length cs))))"

lemma reached_update:
  assumes "reached cs s i" and "\<And>i. i < length cs \<Longrightarrow> \<not> vacant (cs ! i) \<Longrightarrow> \<not> vacant (cs' ! i)" and "length cs' = length cs"
  shows "reached cs' s i"
proof -
  from assms(1) obtain j where "j < length cs" "(s + j) mod length cs = i" "\<forall>j' < j. \<not> vacant (cs ! ((s + j') mod length cs))"
    by (auto simp: reached_def)
  moreover from this(1) have "x mod length cs < length cs" for x by (intro mod_less_divisor) auto
  ultimately show ?thesis using assms(2,3) by (auto simp: reached_def intro!: exI [of _ j])
qed

lemma insert_cell:
  fixes v :: "u8 list"
  assumes ok: "table_ok home same cs" and eq: "equivp same" and free: "first_free cs (home k) i"
    and new: "\<forall>c \<in> set cs. occ c \<longrightarrow> \<not> same (ckey c) k"
  defines "cs' \<equiv> cs[i := (LOKE_RT_MAP_OCCUPIED, k, v)]"
  shows "table_ok home same cs'" and "lookup same cs' q = (if same k q then Some v else lookup same cs q)"
proof -
  from free obtain j where j: "j < length cs" "(home k + j) mod length cs = i" "\<not> occ (cs ! i)"
      "\<forall>j' < j. occ (cs ! ((home k + j') mod length cs))" by (auto simp: first_free_def)
  then have i: "i < length cs" by (metis gr_implies_not0 mod_less_divisor neq0_conv)
  have keep: "\<not> vacant (cs ! x) \<Longrightarrow> \<not> vacant (cs' ! x)" if "x < length cs" for x
    using that i occ_not_vacant [of "(LOKE_RT_MAP_OCCUPIED, k, v)"] by (cases "x = i") (auto simp: cs'_def)
  have len: "length cs' = length cs" by (simp add: cs'_def)
  have here: "reached cs' (home k) i"
  proof -
    have "\<not> vacant (cs' ! ((home k + j') mod length cs))" if "j' < j" for j'
      using j(4) that keep occ_not_vacant j(1) by (metis mod_less_divisor not_less_zero neq0_conv)
    with j(1,2) show ?thesis by (auto simp: reached_def len intro!: exI [of _ j])
  qed
  have sym: "same a b \<Longrightarrow> same b a" for a b using eq by (metis equivp_symp)
  show ok': "table_ok home same cs'"
    unfolding table_ok_def len
  proof (intro conjI allI impI)
    fix x assume x: "x < length cs" "occ (cs' ! x)"
    show "reached cs' (home (ckey (cs' ! x))) x"
    proof (cases "x = i")
      case True
      with here i show ?thesis by (simp add: cs'_def)
    next
      case False
      with x ok have "reached cs (home (ckey (cs ! x))) x" by (auto simp: cs'_def table_ok_def)
      with False reached_update [OF _ keep len] show ?thesis by (simp add: cs'_def)
    qed
  next
    fix x y assume x: "x < length cs" and y: "y < length cs" and *: "occ (cs' ! x) \<and> occ (cs' ! y) \<and> same (ckey (cs' ! x)) (ckey (cs' ! y))"
    consider "x = i" "y = i" | "x = i" "y \<noteq> i" | "x \<noteq> i" "y = i" | "x \<noteq> i" "y \<noteq> i" by blast
    then show "x = y"
    proof cases
      case 2
      with * i have "occ (cs ! y)" "same (ckey (cs ! y)) k" by (auto simp: cs'_def intro: sym)
      with new y show ?thesis by auto
    next
      case 3
      with * i have "occ (cs ! x)" "same (ckey (cs ! x)) k" by (auto simp: cs'_def)
      with new x show ?thesis by auto
    next
      case 4
      with * ok x y show ?thesis by (auto simp: cs'_def table_ok_def)
    qed simp
  qed
  show "lookup same cs' q = (if same k q then Some v else lookup same cs q)"
  proof (cases "same k q")
    case True
    then show ?thesis using lookup_at [OF ok' eq, of i q] i by (simp add: cs'_def)
  next
    case False
    have "find (\<lambda>c. occ c \<and> same (ckey c) q) cs' = find (\<lambda>c. occ c \<and> same (ckey c) q) cs"
      unfolding cs'_def using False j(3) by (intro find_update_irrelevant) auto
    with False show ?thesis by (simp add: lookup_def)
  qed
qed

lemma remove_cell:
  assumes ok: "table_ok home same cs" and eq: "equivp same" and i: "i < length cs" "occ (cs ! i)"
    and c: "\<not> occ c" "\<not> vacant c"
  defines "cs' \<equiv> cs[i := c]"
  shows "table_ok home same cs'" and "lookup same cs' q = (if same (ckey (cs ! i)) q then None else lookup same cs q)"
proof -
  have len: "length cs' = length cs" by (simp add: cs'_def)
  have keep: "\<not> vacant (cs ! x) \<Longrightarrow> \<not> vacant (cs' ! x)" if "x < length cs" for x
    using that c(2) by (cases "x = i") (auto simp: cs'_def)
  have stays: "x \<noteq> i \<and> occ (cs ! x) \<and> cs' ! x = cs ! x" if "x < length cs" "occ (cs' ! x)" for x
    using that c(1) i by (cases "x = i") (auto simp: cs'_def)
  show "table_ok home same cs'"
    unfolding table_ok_def len
  proof (intro conjI allI impI)
    fix x assume x: "x < length cs" "occ (cs' ! x)"
    with ok stays have "reached cs (home (ckey (cs ! x))) x" by (auto simp: table_ok_def)
    with stays [OF x] reached_update [OF _ keep len] show "reached cs' (home (ckey (cs' ! x))) x" by simp
  next
    fix x y assume x: "x < length cs" and y: "y < length cs" and *: "occ (cs' ! x) \<and> occ (cs' ! y) \<and> same (ckey (cs' ! x)) (ckey (cs' ! y))"
    with stays ok show "x = y" unfolding table_ok_def by metis
  qed
  show "lookup same cs' q = (if same (ckey (cs ! i)) q then None else lookup same cs q)"
  proof (cases "same (ckey (cs ! i)) q")
    case True
    have "\<not> same (ckey (cs' ! x)) q" if x: "x < length cs" "occ (cs' ! x)" for x
    proof
      assume "same (ckey (cs' ! x)) q"
      then have "same (ckey (cs ! x)) (ckey (cs ! i))" using stays [OF x] True eq by (metis equivp_def)
      then have "x = i" using ok stays [OF x] x i by (auto simp: table_ok_def)
      then show False using stays [OF x] by simp
    qed
    then have "lookup same cs' q = None" unfolding lookup_None by (metis in_set_conv_nth len)
    with True show ?thesis by simp
  next
    case False
    have "find (\<lambda>c. occ c \<and> same (ckey c) q) cs' = find (\<lambda>c. occ c \<and> same (ckey c) q) cs"
      unfolding cs'_def using False c(1) by (intro find_update_irrelevant) auto
    with False show ?thesis by (simp add: lookup_def)
  qed
qed

lemma free_exists:
  assumes "c \<in> set cs" and "\<not> occ c"
  shows "\<exists>i. first_free cs s i"
proof -
  from assms obtain i where i: "i < length cs" "\<not> occ (cs ! i)" by (auto simp: in_set_conv_nth)
  have "\<exists>j. \<not> occ (cs ! ((s + j) mod length cs))"
  proof (intro exI)
    have "(s + (i + (length cs - s mod length cs))) mod length cs = i"
    proof -
      have "s mod length cs < length cs" using i(1) by (intro mod_less_divisor) auto
      then have "(s mod length cs + (i + (length cs - s mod length cs))) mod length cs = i" using i(1) by simp
      then show ?thesis by (simp add: mod_add_left_eq)
    qed
    then show "\<not> occ (cs ! ((s + (i + (length cs - s mod length cs))) mod length cs))" using i(2) by simp
  qed
  then obtain j where j: "\<not> occ (cs ! ((s + j) mod length cs))" "\<forall>j' < j. occ (cs ! ((s + j') mod length cs))"
    using exists_least_iff [of "\<lambda>j. \<not> occ (cs ! ((s + j) mod length cs))"] by auto
  have "j < length cs"
  proof (rule ccontr)
    assume "\<not> j < length cs"
    then have "(s + (j - length cs)) mod length cs = (s + j) mod length cs"
      using mod_add_self2 [of "s + (j - length cs)" "length cs"] by simp
    moreover have "j - length cs < j" using i(1) \<open>\<not> j < length cs\<close> by auto
    ultimately show False using j by metis
  qed
  with j show ?thesis by (auto simp: first_free_def)
qed

lemma lookup_take_Suc:
  assumes "table_ok home same cs" and "equivp same" and "i < length cs"
  shows "lookup same (take (Suc i) cs) q =
    (if occ (cs ! i) \<and> same (ckey (cs ! i)) q then Some (cval (cs ! i)) else lookup same (take i cs) q)"
proof -
  have split: "find p (xs @ [x]) = (case find p xs of None \<Rightarrow> if p x then Some x else None | Some y \<Rightarrow> Some y)" for p xs and x :: cell
    by (induction xs) auto
  have "find (\<lambda>c. occ c \<and> same (ckey c) q) (take i cs) = None" if here: "occ (cs ! i)" "same (ckey (cs ! i)) q"
  proof -
    have "\<not> (occ (cs ! x) \<and> same (ckey (cs ! x)) q)" if "x < i" for x
    proof
      assume *: "occ (cs ! x) \<and> same (ckey (cs ! x)) q"
      then have "same (ckey (cs ! x)) (ckey (cs ! i))" using here assms(2) by (metis equivp_def)
      with * here assms(1,3) that have "x = i" by (auto simp: table_ok_def)
      with that show False by simp
    qed
    then have "\<forall>c \<in> set (take i cs). \<not> (occ c \<and> same (ckey c) q)" unfolding all_set_conv_all_nth using assms(3) by simp
    then show ?thesis unfolding find_None_iff by blast
  qed
  then show ?thesis
    unfolding lookup_def take_Suc_conv_app_nth [OF assms(3)] split
    by (cases "occ (cs ! i) \<and> same (ckey (cs ! i)) q"; cases "find (\<lambda>c. occ c \<and> same (ckey c) q) (take i cs)") force+
qed

section \<open>The cells of a block\<close>

definition ctl_off :: "map_table_v1 \<Rightarrow> nat \<Rightarrow> nat" where
  "ctl_off h i = unat (controls_offset h) + i"

definition key_off :: "'w container_ops \<Rightarrow> map_table_v1 \<Rightarrow> nat \<Rightarrow> nat" where
  "key_off ops h i = unat (keys_offset h) + i * unat (key_size ops)"

definition val_off :: "'w container_ops \<Rightarrow> map_table_v1 \<Rightarrow> nat \<Rightarrow> nat" where
  "val_off ops h i = unat (values_offset h) + i * unat (elem_size ops)"

definition cells :: "(addr \<Rightarrow> u8) \<Rightarrow> map_table_v1 \<Rightarrow> addr \<Rightarrow> 'w container_ops \<Rightarrow> cell list" where
  "cells m h t ops = map (\<lambda>i. (m (t + of_nat (ctl_off h i)), load m (t + of_nat (key_off ops h i)) (unat (key_size ops)),
     load m (t + of_nat (val_off ops h i)) (unat (elem_size ops)))) [0..<nat (slot_count h)]"

lemma length_cells [simp]: "length (cells m h t ops) = nat (slot_count h)"
  by (simp add: cells_def)

lemma nth_cells: "i < nat (slot_count h) \<Longrightarrow> cells m h t ops ! i =
    (m (t + of_nat (ctl_off h i)), load m (t + of_nat (key_off ops h i)) (unat (key_size ops)),
     load m (t + of_nat (val_off ops h i)) (unat (elem_size ops)))"
  by (simp add: cells_def)

lemma load_store_off:
  assumes "a + c \<le> b \<or> b + length bs \<le> a" and "a + c \<le> 2 ^ 64" and "b + length bs \<le> 2 ^ 64"
  shows "load (store m (t + of_nat b) bs) (t + of_nat a) c = load m (t + of_nat a) c"
  using assms span_apart [of a c b "length bs" t] span_apart [of b "length bs" a c t]
  by (intro load_store_apart) (auto simp: Int_commute)

lemma byte_store_off:
  assumes "a + 1 \<le> b \<or> b + length bs \<le> a" and "a + 1 \<le> 2 ^ 64" and "b + length bs \<le> 2 ^ 64"
  shows "store m (t + of_nat b) bs (t + of_nat a) = m (t + of_nat a)"
  using arg_cong [OF load_store_off [OF assms, of m t], of "\<lambda>bs. bs ! 0"] by simp

lemma fun_upd_store: "m(a := c) = store m a [c]"
  by (rule ext) (auto simp: store_def Let_def unat_eq_zero)

lemma slot_order:
  assumes "layout_ok ops h" and "i < nat (slot_count h)"
  shows "72 \<le> ctl_off h i" and "ctl_off h i + 1 \<le> unat (keys_offset h)"
    and "unat (keys_offset h) \<le> key_off ops h i" and "key_off ops h i + unat (key_size ops) \<le> unat (values_offset h)"
    and "unat (values_offset h) \<le> val_off ops h i" and "val_off ops h i + unat (elem_size ops) \<le> unat (block_size h)"
    and "key_off ops h i + unat (key_size ops) \<le> unat (block_size h)" and "ctl_off h i + 1 \<le> unat (block_size h)"
proof -
  have k: "i * unat (key_size ops) + unat (key_size ops) \<le> nat (slot_count h) * unat (key_size ops)"
    and v: "i * unat (elem_size ops) + unat (elem_size ops) \<le> nat (slot_count h) * unat (elem_size ops)"
    using mult_le_mono1 [of "Suc i" "nat (slot_count h)"] assms(2) by (metis Suc_leI add.commute mult_Suc)+
  then show "72 \<le> ctl_off h i" "ctl_off h i + 1 \<le> unat (keys_offset h)"
    "unat (keys_offset h) \<le> key_off ops h i" "key_off ops h i + unat (key_size ops) \<le> unat (values_offset h)"
    "unat (values_offset h) \<le> val_off ops h i" "val_off ops h i + unat (elem_size ops) \<le> unat (block_size h)"
    "key_off ops h i + unat (key_size ops) \<le> unat (block_size h)" "ctl_off h i + 1 \<le> unat (block_size h)"
    using assms by (auto simp: layout_ok_def Let_def ctl_off_def key_off_def val_off_def)
qed

lemma slots_apart:
  assumes "i \<noteq> j"
  shows "key_off ops h i + unat (key_size ops) \<le> key_off ops h j \<or> key_off ops h j + unat (key_size ops) \<le> key_off ops h i"
    and "val_off ops h i + unat (elem_size ops) \<le> val_off ops h j \<or> val_off ops h j + unat (elem_size ops) \<le> val_off ops h i"
proof -
  have "i * s + s \<le> j * s \<or> j * s + s \<le> i * s" for s :: nat
    using assms mult_le_mono1 [of "Suc i" j s] mult_le_mono1 [of "Suc j" i s] by (cases "i < j") (auto simp: add.commute)
  then show "key_off ops h i + unat (key_size ops) \<le> key_off ops h j \<or> key_off ops h j + unat (key_size ops) \<le> key_off ops h i"
    "val_off ops h i + unat (elem_size ops) \<le> val_off ops h j \<or> val_off ops h j + unat (elem_size ops) \<le> val_off ops h i"
    by (auto simp: key_off_def val_off_def)
qed

text \<open>One write changes one part of one cell.\<close>

lemma cells_store_ctl:
  assumes lay: "layout_ok ops h" and i: "i < nat (slot_count h)"
  shows "cells (store m (t + of_nat (ctl_off h i)) [c]) h t ops = (cells m h t ops)[i := (c, snd (cells m h t ops ! i))]"
proof (rule nth_equalityI)
  fix j assume j: "j < length (cells (store m (t + of_nat (ctl_off h i)) [c]) h t ops)"
  then have j': "j < nat (slot_count h)" by simp
  note oi = slot_order [OF lay i] and oj = slot_order [OF lay j'] and top = unat_u64_lt [of "block_size h"]
  have "store m (t + of_nat (ctl_off h i)) [c] (t + of_nat (ctl_off h j)) = (if j = i then c else m (t + of_nat (ctl_off h j)))"
  proof (cases "j = i")
    case False
    then have "ctl_off h j + 1 \<le> ctl_off h i \<or> ctl_off h i + 1 \<le> ctl_off h j" by (auto simp: ctl_off_def)
    with False oi oj top show ?thesis by (simp add: byte_store_off)
  qed (use store_at [of 0 "[c]" m "t + of_nat (ctl_off h i)"] in simp)
  moreover have "load (store m (t + of_nat (ctl_off h i)) [c]) (t + of_nat (key_off ops h j)) (unat (key_size ops)) = load m (t + of_nat (key_off ops h j)) (unat (key_size ops))"
    using oi oj top by (intro load_store_off) auto
  moreover have "load (store m (t + of_nat (ctl_off h i)) [c]) (t + of_nat (val_off ops h j)) (unat (elem_size ops)) = load m (t + of_nat (val_off ops h j)) (unat (elem_size ops))"
    using oi oj top by (intro load_store_off) auto
  ultimately show "cells (store m (t + of_nat (ctl_off h i)) [c]) h t ops ! j = (cells m h t ops)[i := (c, snd (cells m h t ops ! i))] ! j"
    using i j' by (simp add: nth_cells nth_list_update)
qed simp

lemma cells_store_key:
  assumes lay: "layout_ok ops h" and i: "i < nat (slot_count h)" and k: "length k = unat (key_size ops)"
  shows "cells (store m (t + of_nat (key_off ops h i)) k) h t ops =
    (cells m h t ops)[i := (fst (cells m h t ops ! i), k, cval (cells m h t ops ! i))]"
proof (rule nth_equalityI)
  fix j assume j: "j < length (cells (store m (t + of_nat (key_off ops h i)) k) h t ops)"
  then have j': "j < nat (slot_count h)" by simp
  note oi = slot_order [OF lay i] and oj = slot_order [OF lay j'] and top = unat_u64_lt [of "block_size h"]
  have "store m (t + of_nat (key_off ops h i)) k (t + of_nat (ctl_off h j)) = m (t + of_nat (ctl_off h j))"
    using oi oj top by (intro byte_store_off) (auto simp: k)
  moreover have "load (store m (t + of_nat (key_off ops h i)) k) (t + of_nat (key_off ops h j)) (unat (key_size ops)) =
      (if j = i then k else load m (t + of_nat (key_off ops h j)) (unat (key_size ops)))"
    using oi oj top slots_apart(1) [of i j ops h] load_store_same [of k m "t + of_nat (key_off ops h i)"]
    by (auto intro!: load_store_off simp: k)
  moreover have "load (store m (t + of_nat (key_off ops h i)) k) (t + of_nat (val_off ops h j)) (unat (elem_size ops)) = load m (t + of_nat (val_off ops h j)) (unat (elem_size ops))"
    using oi oj top by (intro load_store_off) (auto simp: k)
  ultimately show "cells (store m (t + of_nat (key_off ops h i)) k) h t ops ! j =
      (cells m h t ops)[i := (fst (cells m h t ops ! i), k, cval (cells m h t ops ! i))] ! j"
    using i j' by (simp add: nth_cells nth_list_update)
qed simp

lemma cells_store_val:
  assumes lay: "layout_ok ops h" and i: "i < nat (slot_count h)" and v: "length v = unat (elem_size ops)"
  shows "cells (store m (t + of_nat (val_off ops h i)) v) h t ops =
    (cells m h t ops)[i := (fst (cells m h t ops ! i), ckey (cells m h t ops ! i), v)]"
proof (rule nth_equalityI)
  fix j assume j: "j < length (cells (store m (t + of_nat (val_off ops h i)) v) h t ops)"
  then have j': "j < nat (slot_count h)" by simp
  note oi = slot_order [OF lay i] and oj = slot_order [OF lay j'] and top = unat_u64_lt [of "block_size h"]
  have "store m (t + of_nat (val_off ops h i)) v (t + of_nat (ctl_off h j)) = m (t + of_nat (ctl_off h j))"
    using oi oj top by (intro byte_store_off) (auto simp: v)
  moreover have "load (store m (t + of_nat (val_off ops h i)) v) (t + of_nat (key_off ops h j)) (unat (key_size ops)) = load m (t + of_nat (key_off ops h j)) (unat (key_size ops))"
    using oi oj top by (intro load_store_off) (auto simp: v)
  moreover have "load (store m (t + of_nat (val_off ops h i)) v) (t + of_nat (val_off ops h j)) (unat (elem_size ops)) =
      (if j = i then v else load m (t + of_nat (val_off ops h j)) (unat (elem_size ops)))"
    using oi oj top slots_apart(2) [of i j ops h] load_store_same [of v m "t + of_nat (val_off ops h i)"]
    by (auto intro!: load_store_off simp: v)
  ultimately show "cells (store m (t + of_nat (val_off ops h i)) v) h t ops ! j =
      (cells m h t ops)[i := (fst (cells m h t ops ! i), ckey (cells m h t ops ! i), v)] ! j"
    using i j' by (simp add: nth_cells nth_list_update)
qed simp

lemma cells_cong:
  assumes "layout_ok ops h" and "\<And>a. a \<in> span t (unat (block_size h)) \<Longrightarrow> m' a = m a"
  shows "cells m' h t ops = cells m h t ops"
proof (rule nth_equalityI)
  fix i assume "i < length (cells m' h t ops)"
  then have i: "i < nat (slot_count h)" by simp
  note o = slot_order [OF assms(1) i]
  have "t + of_nat (ctl_off h i) \<in> span t (unat (block_size h))" using o by (auto simp: span_def)
  moreover have "load m' (t + of_nat (key_off ops h i)) (unat (key_size ops)) = load m (t + of_nat (key_off ops h i)) (unat (key_size ops))"
    using o span_sub [of "key_off ops h i" "unat (key_size ops)" "unat (block_size h)" t] by (intro load_cong assms(2)) auto
  moreover have "load m' (t + of_nat (val_off ops h i)) (unat (elem_size ops)) = load m (t + of_nat (val_off ops h i)) (unat (elem_size ops))"
    using o span_sub [of "val_off ops h i" "unat (elem_size ops)" "unat (block_size h)" t] by (intro load_cong assms(2)) auto
  ultimately show "cells m' h t ops ! i = cells m h t ops ! i" using i assms(2) by (simp add: nth_cells)
qed simp

lemma cells_header: "slot_count h' = slot_count h \<Longrightarrow> controls_offset h' = controls_offset h \<Longrightarrow> keys_offset h' = keys_offset h \<Longrightarrow>
    values_offset h' = values_offset h \<Longrightarrow> cells m h' t ops = cells m h t ops"
  by (simp add: cells_def ctl_off_def key_off_def val_off_def)

end
