(* ===== verification/Loke_Map_Probe.thy ===== *)
theory Loke_Map_Probe
  imports Loke_Map_Table Loke_Dyn_Ops
begin

text \<open>
  The loops of the hash map over a table in memory: probing for a key, the two searches for a slot
  without an entry, and the move of every entry into a fresh table.  The interface of the key type
  is the locale \<open>key_hooks\<close>.
\<close>

section \<open>A table in memory\<close>

definition table_at :: "'w container_ops \<Rightarrow> 'w rt \<Rightarrow> addr \<Rightarrow> bool" where
  "table_at ops st t \<longleftrightarrow> layout_ok ops (tables st t) \<and> (\<exists>k. slot_count (tables st t) = 2 ^ k \<and> 3 \<le> k \<and> k \<le> 62)"

definition view :: "'w rt \<Rightarrow> addr \<Rightarrow> 'w container_ops \<Rightarrow> cell list" where
  "view st t ops = cells (mem st) (tables st t) t ops"

lemma length_view [simp]: "length (view st t ops) = nat (slot_count (tables st t))"
  by (simp add: view_def)

lemma control_off: "map_controls st t + of_nat i = t + of_nat (ctl_off (tables st t) i)"
  by (simp add: map_controls_def ctl_off_def)

lemma key_at_off: "map_key_at st t ops (int i) = t + of_nat (key_off ops (tables st t) i)"
  by (simp add: map_key_at_def key_off_def)

lemma value_at_off: "map_value_at st t ops (int i) = t + of_nat (val_off ops (tables st t) i)"
  by (simp add: map_value_at_def val_off_def)

lemma view_nth:
  assumes "i < nat (slot_count (tables st t))"
  shows "control st t (int i) = fst (view st t ops ! i)"
    and "load (mem st) (map_key_at st t ops (int i)) (unat (key_size ops)) = ckey (view st t ops ! i)"
    and "load (mem st) (map_value_at st t ops (int i)) (unat (elem_size ops)) = cval (view st t ops ! i)"
  using assms by (simp_all add: view_def nth_cells control_def control_off key_at_off value_at_off)

lemma table_at_count:
  assumes "table_at ops st t"
  obtains k where "slot_count (tables st t) = 2 ^ k" and "nat (slot_count (tables st t)) = 2 ^ k" and "3 \<le> k" and "k \<le> 62"
    and "map_mask st t = mask k" and "0 < nat (slot_count (tables st t))"
proof -
  from assms obtain k where k: "slot_count (tables st t) = 2 ^ k" "3 \<le> k" "k \<le> 62" by (auto simp: table_at_def)
  moreover from this have "nat (slot_count (tables st t)) = 2 ^ k" by (simp add: nat_power_eq)
  moreover have "map_mask st t = mask k" by (simp add: map_mask_def k(1) mask_eq_exp_minus_1)
  ultimately show thesis using that by simp
qed

lemma and_mask_unat: "unat ((w :: u64) AND mask k) = unat w mod 2 ^ k"
  unfolding take_bit_eq_mask [symmetric] unsigned_take_bit_eq by (simp add: take_bit_eq_mod)

lemma pow_62: "k \<le> 62 \<Longrightarrow> (2 :: nat) ^ k \<le> 2 ^ 62"
  by (rule power_increasing) auto

lemma table_small: "table_at ops st t \<Longrightarrow> nat (slot_count (tables st t)) \<le> 2 ^ 62"
  by (erule table_at_count) (metis pow_62)

lemma index_step:
  assumes "table_at ops st t" and "unat w < nat (slot_count (tables st t))"
  shows "unat ((w + 1) AND map_mask st t) = Suc (unat w) mod nat (slot_count (tables st t))"
  using assms(1)
proof (rule table_at_count)
  fix k assume k: "nat (slot_count (tables st t)) = 2 ^ k" "map_mask st t = mask k" "k \<le> 62"
  have "unat w < 2 ^ 62" using assms(2) k(1) pow_62 [OF k(3)] by simp
  then have "unat (w + 1) = Suc (unat w)" by (simp add: unat_plus_exact)
  then show ?thesis using k(2) unfolding k(1) by (simp add: and_mask_unat)
qed

lemma index_start: "table_at ops st t \<Longrightarrow> unat (w AND map_mask st t) = unat w mod nat (slot_count (tables st t))"
  by (erule table_at_count) (simp add: and_mask_unat nat_power_eq)

text \<open>Words as the indexes they are.\<close>

lemma control_word: "unat w < nat (slot_count (tables st t)) \<Longrightarrow> control st t (uint w) = fst (view st t ops ! unat w)"
  using view_nth(1) [of "unat w" st t ops] by simp

section \<open>Keys that are their bytes\<close>

text \<open>The hooks of a key type whose hash and equality depend on the bytes of the key alone, equality
  an equivalence that the hash respects.\<close>

locale key_hooks =
  fixes ops :: "'w container_ops" and hash :: "u8 list \<Rightarrow> u64 \<Rightarrow> u64" and same :: "u8 list \<Rightarrow> u8 list \<Rightarrow> bool"
  assumes hash_law: "key_hash ops st p s = hash (load (mem st) p (unat (key_size ops))) s"
    and equal_law: "key_equal ops st p q = same (load (mem st) p (unat (key_size ops))) (load (mem st) q (unat (key_size ops)))"
    and same_equiv: "equivp same"
    and same_hash: "same a b \<Longrightarrow> hash a s = hash b s"

definition home_of :: "(u8 list \<Rightarrow> u64 \<Rightarrow> u64) \<Rightarrow> map_table_v1 \<Rightarrow> u8 list \<Rightarrow> nat" where
  "home_of hash h k = unat (hash k (seed h)) mod nat (slot_count h)"

abbreviation key_bytes :: "'w container_ops \<Rightarrow> 'w rt \<Rightarrow> addr \<Rightarrow> u8 list" where
  "key_bytes ops st p \<equiv> load (mem st) p (unat (key_size ops))"

abbreviation value_bytes :: "'w container_ops \<Rightarrow> 'w rt \<Rightarrow> addr \<Rightarrow> u8 list" where
  "value_bytes ops st p \<equiv> load (mem st) p (unat (elem_size ops))"

context key_hooks
begin

lemma home_same: "same a b \<Longrightarrow> home_of hash h a = home_of hash h b"
  by (simp add: home_of_def same_hash)

lemma home_mod [simp]: "home_of hash h k mod nat (slot_count h) = home_of hash h k"
  by (simp add: home_of_def)

lemma start_home:
  "table_at ops st t \<Longrightarrow> unat (key_hash ops st key (seed (tables st t)) AND map_mask st t) = home_of hash (tables st t) (key_bytes ops st key)"
  by (simp add: index_start hash_law home_of_def)

lemma probe_from_run:
  assumes t: "table_at ops st t" and "unat w < nat (slot_count (tables st t))"
  shows "map_probe_from st t ops key n w =
    (case probe same (view st t ops) (key_bytes ops st key) n (unat w) of None \<Rightarrow> -1 | Some i \<Rightarrow> int i)"
  using assms(2)
proof (induction n arbitrary: w)
  case (Suc n)
  let ?N = "nat (slot_count (tables st t))"
  have step: "unat ((w + 1) AND map_mask st t) = Suc (unat w) mod ?N" using t Suc.prems by (rule index_step)
  have "unat ((w + 1) AND map_mask st t) < ?N" unfolding step using Suc.prems by (intro mod_less_divisor) simp
  from Suc.IH [OF this] step Suc.prems view_nth(2) [of "unat w" st t ops] show ?case
    by (simp add: control_word [of _ _ _ ops] vacant_def occ_def equal_law)
qed simp

lemma probe_run:
  assumes "table_at ops st t"
  shows "map_probe st t ops key =
    (case probe same (view st t ops) (key_bytes ops st key) (nat (slot_count (tables st t))) (home_of hash (tables st t) (key_bytes ops st key)) of
       None \<Rightarrow> -1 | Some i \<Rightarrow> int i)"
  using assms
proof (rule table_at_count)
  assume "0 < nat (slot_count (tables st t))"
  then have "home_of hash (tables st t) (key_bytes ops st key) < nat (slot_count (tables st t))" by (simp add: home_of_def)
  with start_home [OF assms, of key] probe_from_run [OF assms] show ?thesis by (simp add: map_probe_def)
qed

text \<open>What a probe finds, in terms of the cells.\<close>

lemma probe_cases:
  assumes "table_at ops st t" and "table_ok (home_of hash (tables st t)) same (view st t ops)"
  obtains (absent) "map_probe st t ops key = -1" and "lookup same (view st t ops) (key_bytes ops st key) = None"
      and "\<forall>c \<in> set (view st t ops). occ c \<longrightarrow> \<not> same (ckey c) (key_bytes ops st key)"
  | (found) i where "map_probe st t ops key = int i" and "i < nat (slot_count (tables st t))" and "occ (view st t ops ! i)"
      and "same (ckey (view st t ops ! i)) (key_bytes ops st key)"
      and "lookup same (view st t ops) (key_bytes ops st key) = Some (cval (view st t ops ! i))"
proof -
  let ?cs = "view st t ops" and ?k = "key_bytes ops st key"
  from assms(1) have ne: "?cs \<noteq> []" by (rule table_at_count) (metis length_view length_0_conv less_numeral_extra(3))
  have home: "same a b \<Longrightarrow> home_of hash (tables st t) a = home_of hash (tables st t) b" for a b by (rule home_same)
  show thesis
  proof (cases "probe same ?cs ?k (length ?cs) (home_of hash (tables st t) ?k mod length ?cs)")
    case None
    then have "map_probe st t ops key = -1" by (simp add: probe_run [OF assms(1)])
    moreover from None have "\<forall>c \<in> set ?cs. occ c \<longrightarrow> \<not> same (ckey c) ?k"
      using probe_None [OF assms(2) same_equiv home ne] by simp
    ultimately show thesis by (intro absent) (simp_all add: lookup_None)
  next
    case (Some i)
    then have "map_probe st t ops key = int i" by (simp add: probe_run [OF assms(1)])
    moreover from Some have "i < length ?cs \<and> occ (?cs ! i) \<and> same (ckey (?cs ! i)) ?k"
      using probe_iff [OF assms(2) same_equiv home ne] by simp
    ultimately show thesis using lookup_at [OF assms(2) same_equiv, of i ?k] by (intro found [of i]) auto
  qed
qed

end

text \<open>The two searches for a slot without an entry.\<close>

lemma place_loop:
  assumes t: "table_at ops st t" and "unat w < nat (slot_count (tables st t))"
    and j: "\<forall>j' < j. occ (view st t ops ! ((unat w + j') mod nat (slot_count (tables st t))))"
      "\<not> occ (view st t ops ! ((unat w + j) mod nat (slot_count (tables st t))))"
  shows "while_proc (\<lambda>index st. control st t (uint index) = LOKE_RT_MAP_OCCUPIED)
      (\<lambda>index. return ((index + 1) AND map_mask st t)) w st =
    (Inr (of_nat ((unat w + j) mod nat (slot_count (tables st t)))), st)"
  using assms(2-)
proof (induction j arbitrary: w)
  case 0
  then have "control st t (uint w) \<noteq> LOKE_RT_MAP_OCCUPIED" by (simp add: control_word [of _ _ _ ops] occ_def)
  with 0 show ?case by (simp add: while_proc_stop)
next
  case (Suc j)
  let ?N = "nat (slot_count (tables st t))" and ?w = "(w + 1) AND map_mask st t"
  have step: "unat ?w = Suc (unat w) mod ?N" using t Suc.prems(1) by (rule index_step)
  have "occ (view st t ops ! ((unat w + 0) mod ?N))" using Suc.prems(2) by blast
  then have "control st t (uint w) = LOKE_RT_MAP_OCCUPIED" using Suc.prems(1) by (simp add: control_word [of _ _ _ ops] occ_def)
  moreover have shift: "(unat ?w + j') mod ?N = (unat w + Suc j') mod ?N" for j'
    unfolding step by (metis add_Suc_shift mod_add_left_eq)
  moreover have "unat ?w < ?N" unfolding step using Suc.prems(1) by (intro mod_less_divisor) simp
  moreover have "\<forall>j' < j. occ (view st t ops ! ((unat ?w + j') mod ?N))" "\<not> occ (view st t ops ! ((unat ?w + j) mod ?N))"
    unfolding shift using Suc.prems(2,3) by auto
  ultimately have "while_proc (\<lambda>index st. control st t (uint index) = LOKE_RT_MAP_OCCUPIED)
      (\<lambda>index. return ((index + 1) AND map_mask st t)) ?w st = (Inr (of_nat ((unat w + Suc j) mod ?N)), st)"
    using Suc.IH [of ?w] by simp
  with \<open>control st t (uint w) = LOKE_RT_MAP_OCCUPIED\<close> show ?case
    by (subst while_proc_step [of _ _ _ _ ?w st]) (simp_all add: return_run)
qed

lemma probe_shift:
  assumes "table_at ops st t" and "unat w < nat (slot_count (tables st t))"
  shows "(unat ((w + 1) AND map_mask st t) + j) mod nat (slot_count (tables st t)) = (unat w + Suc j) mod nat (slot_count (tables st t))"
    and "unat ((w + 1) AND map_mask st t) < nat (slot_count (tables st t))"
proof -
  show "(unat ((w + 1) AND map_mask st t) + j) mod nat (slot_count (tables st t)) = (unat w + Suc j) mod nat (slot_count (tables st t))"
    unfolding index_step [OF assms] by (metis add_Suc_shift mod_add_left_eq)
  show "unat ((w + 1) AND map_mask st t) < nat (slot_count (tables st t))"
    unfolding index_step [OF assms] using assms(2) by (intro mod_less_divisor) simp
qed

definition seek :: "addr \<Rightarrow> u64 \<Rightarrow> u64 \<times> int \<Rightarrow> ('w rt, u64 \<times> int) proc" where
  "seek t msk = while_proc (\<lambda>(index, first_free) st. control st t (uint index) = LOKE_RT_MAP_OCCUPIED \<or>
       control st t (uint index) = LOKE_RT_MAP_TOMBSTONE \<and> first_free < 0)
     (\<lambda>(index, first_free). bind get_state (\<lambda>st.
       return ((index + 1) AND msk, if control st t (uint index) = LOKE_RT_MAP_OCCUPIED then first_free else uint index)))"

lemma seek_step: "control st t (uint w) = LOKE_RT_MAP_OCCUPIED \<Longrightarrow> seek t msk (w, ff) st = seek t msk ((w + 1) AND msk, ff) st"
  unfolding seek_def by (subst while_proc_unfold) (simp add: bind_def rt_simps)

lemma seek_occupied:
  assumes t: "table_at ops st t" and "unat w < nat (slot_count (tables st t))"
    and j: "\<forall>j' < j. occ (view st t ops ! ((unat w + j') mod nat (slot_count (tables st t))))"
  shows "\<exists>w'. seek t (map_mask st t) (w, ff) st = seek t (map_mask st t) (w', ff) st \<and>
    unat w' = (unat w + j) mod nat (slot_count (tables st t))"
  using assms(2-)
proof (induction j arbitrary: w)
  case 0
  then show ?case by auto
next
  case (Suc j)
  let ?N = "nat (slot_count (tables st t))" and ?w = "(w + 1) AND map_mask st t"
  have "occ (view st t ops ! ((unat w + 0) mod ?N))" using Suc.prems(2) by blast
  then have "control st t (uint w) = LOKE_RT_MAP_OCCUPIED" using Suc.prems(1) by (simp add: control_word [of _ _ _ ops] occ_def)
  note step = seek_step [OF this] and shift = probe_shift [OF t Suc.prems(1)]
  have "\<forall>j' < j. occ (view st t ops ! ((unat ?w + j') mod ?N))" unfolding shift(1) using Suc.prems(2) by auto
  from Suc.IH [OF shift(2) this] step show ?case by (auto simp: shift(1))
qed

lemma first_free_index:
  assumes "first_free cs s i"
  shows "i < length cs" and "\<not> occ (cs ! i)"
  using assms by (auto simp: first_free_def intro!: mod_less_divisor)

lemma seek_run:
  assumes t: "table_at ops st t" and w: "unat w < nat (slot_count (tables st t))" and i: "first_free (view st t ops) (unat w) i"
  shows "\<exists>w'. seek t (map_mask st t) (w, -1) st =
    (Inr (w', if fst (view st t ops ! i) = LOKE_RT_MAP_TOMBSTONE then int i else -1), st) \<and>
    (fst (view st t ops ! i) \<noteq> LOKE_RT_MAP_TOMBSTONE \<longrightarrow> w' = of_nat i)"
proof -
  let ?N = "nat (slot_count (tables st t))" and ?cs = "view st t ops"
  from i obtain j where j: "(unat w + j) mod ?N = i" "\<not> occ (?cs ! i)" "\<forall>j' < j. occ (?cs ! ((unat w + j') mod ?N))"
    by (auto simp: first_free_def)
  have iN: "i < ?N" using first_free_index(1) [OF i] by simp
  from seek_occupied [OF t w j(3), of "-1"] j(1) obtain w1 where
    w1: "seek t (map_mask st t) (w, -1) st = seek t (map_mask st t) (w1, -1) st" "unat w1 = i" by auto
  have c: "control st t (uint w1) = fst (?cs ! i)" using w1(2) iN by (simp add: control_word [of _ _ _ ops])
  have nocc: "fst (?cs ! i) \<noteq> LOKE_RT_MAP_OCCUPIED" using j(2) by (simp add: occ_def)
  show ?thesis
  proof (cases "fst (?cs ! i) = LOKE_RT_MAP_TOMBSTONE")
    case False
    then have "seek t (map_mask st t) (w1, -1) st = (Inr (w1, -1), st)"
      unfolding seek_def using c nocc by (subst while_proc_stop) simp_all
    moreover have "w1 = of_nat i" using w1(2) by auto
    ultimately show ?thesis using w1(1) False by auto
  next
    case True
    let ?w = "(w1 + 1) AND map_mask st t"
    have ui: "uint w1 = int i" using w1(2) by auto
    have go: "seek t (map_mask st t) (w1, -1) st = seek t (map_mask st t) (?w, int i) st"
      unfolding seek_def using c nocc True ui by (subst while_proc_unfold) (simp add: bind_def rt_simps)
    have wN: "unat ?w < ?N" using probe_shift(2) [OF t] w1(2) iN by simp
    have "?cs ! i \<in> set ?cs" using iN by simp
    from free_exists [OF this j(2), of "unat ?w"] obtain i2 where i2: "first_free ?cs (unat ?w) i2" by blast
    then obtain j2 where j2: "(unat ?w + j2) mod ?N = i2" "\<not> occ (?cs ! i2)" "\<forall>j' < j2. occ (?cs ! ((unat ?w + j') mod ?N))"
      by (auto simp: first_free_def)
    from seek_occupied [OF t wN j2(3), of "int i"] j2(1) obtain w2 where
      w2: "seek t (map_mask st t) (?w, int i) st = seek t (map_mask st t) (w2, int i) st" "unat w2 = i2" by auto
    have "control st t (uint w2) \<noteq> LOKE_RT_MAP_OCCUPIED"
      using w2(2) first_free_index [OF i2] by (simp add: control_word [of _ _ _ ops] occ_def)
    then have "seek t (map_mask st t) (w2, int i) st = (Inr (w2, int i), st)"
      unfolding seek_def by (subst while_proc_stop) simp_all
    then show ?thesis using w1(1) go w2(1) True by auto
  qed
qed

context key_hooks
begin

lemma free_slot_run:
  assumes t: "table_at ops st t" and c: "c \<in> set (view st t ops)" "\<not> occ c"
  obtains i where "first_free (view st t ops) (home_of hash (tables st t) (key_bytes ops st key)) i"
    and "map_free_slot t ops key st = (Inr (int i, if fst (view st t ops ! i) = LOKE_RT_MAP_TOMBSTONE then int i else -1), st)"
proof -
  let ?w = "key_hash ops st key (seed (tables st t)) AND map_mask st t"
  have w: "unat ?w = home_of hash (tables st t) (key_bytes ops st key)" by (rule start_home [OF t])
  have "0 < nat (slot_count (tables st t))" using t by (rule table_at_count)
  then have wN: "unat ?w < nat (slot_count (tables st t))" unfolding w by (simp add: home_of_def)
  from free_exists [OF c, of "unat ?w"] obtain i where i: "first_free (view st t ops) (unat ?w) i" by blast
  have iN: "i < 2 ^ 64" "i < nat (slot_count (tables st t))"
  proof -
    show iN: "i < nat (slot_count (tables st t))" using first_free_index(1) [OF i] by simp
    then show "i < 2 ^ 64" using table_small [OF t] by simp
  qed
  from seek_run [OF t wN i] obtain w' where run: "seek t (map_mask st t) (?w, -1) st =
      (Inr (w', if fst (view st t ops ! i) = LOKE_RT_MAP_TOMBSTONE then int i else -1), st)"
      "fst (view st t ops ! i) \<noteq> LOKE_RT_MAP_TOMBSTONE \<longrightarrow> w' = of_nat i" by blast
  have "map_free_slot t ops key st = (Inr (int i, if fst (view st t ops ! i) = LOKE_RT_MAP_TOMBSTONE then int i else -1), st)"
    unfolding map_free_slot_def using run iN(1)
    by (simp add: bind_def [of get_state] rt_simps Let_def bind_def [of "while_proc _ _ _"] flip: seek_def)
      (auto simp: unat_of_nat_u64 uint_nat)
  with i show thesis unfolding w by (rule that)
qed

end

section \<open>Writing a table\<close>

text \<open>A step that writes only the block of one table and its header.\<close>

definition writes :: "addr \<Rightarrow> nat \<Rightarrow> 'w rt \<Rightarrow> 'w rt \<Rightarrow> bool" where
  "writes t n st st' \<longleftrightarrow>
     (\<exists>m h. st' = st\<lparr>mem := m, tables := (tables st)(t := h)\<rparr> \<and> (\<forall>a. a \<notin> span t n \<longrightarrow> m a = mem st a))"

lemma writes_refl [simp]: "writes t n st st"
  unfolding writes_def by (intro exI [of _ "mem st"] exI [of _ "tables st t"]) (cases st, simp)

lemma writes_trans: "writes t n st st' \<Longrightarrow> writes t n st' st'' \<Longrightarrow> writes t n st st''"
  unfolding writes_def by (elim exE conjE, simp) metis

lemma writes_mem: "writes t n st st' \<Longrightarrow> a \<notin> span t n \<Longrightarrow> mem st' a = mem st a"
  by (auto simp: writes_def)

lemma writes_load: "writes t n st st' \<Longrightarrow> span p k \<inter> span t n = {} \<Longrightarrow> load (mem st') p k = load (mem st) p k"
  by (rule load_cong) (auto intro: writes_mem)

lemma writes_tables: "writes t n st st' \<Longrightarrow> u \<noteq> t \<Longrightarrow> tables st' u = tables st u"
  by (auto simp: writes_def)

lemma writes_maps [simp]: "writes t n st st' \<Longrightarrow> maps st' = maps st"
  by (auto simp: writes_def)

lemma writes_view:
  assumes "writes t n st st'" and "u \<noteq> t" and "span u (unat (block_size (tables st u))) \<inter> span t n = {}" and "table_at ops st u"
  shows "view st' u ops = view st u ops" and "table_at ops st' u" and "tables st' u = tables st u"
proof -
  show tb: "tables st' u = tables st u" using assms(1,2) by (rule writes_tables)
  show "view st' u ops = view st u ops"
    unfolding view_def tb using assms by (intro cells_cong) (auto simp: table_at_def intro: writes_mem)
  show "table_at ops st' u" using assms(4) by (simp add: table_at_def tb)
qed

text \<open>Filling one cell: key, value, control byte.\<close>

lemma fill_cell:
  fixes c :: u8
  assumes t: "table_at ops st t" and i: "i < nat (slot_count (tables st t))"
    and k: "length k = unat (key_size ops)" and v: "length v = unat (elem_size ops)"
  defines "h \<equiv> tables st t"
  defines "m \<equiv> (store (store (mem st) (t + of_nat (key_off ops h i)) k) (t + of_nat (val_off ops h i)) v)
    (t + of_nat (ctl_off h i) := c)"
  shows "cells m h t ops = (view st t ops)[i := (c, k, v)]" and "\<And>a. a \<notin> span t (unat (block_size h)) \<Longrightarrow> m a = mem st a"
proof -
  have lay: "layout_ok ops h" using t by (simp add: table_at_def h_def)
  have i': "i < nat (slot_count h)" using i by (simp add: h_def)
  note o = slot_order [OF lay i'] and top = unat_u64_lt [of "block_size h"]
  have i'': "i < length (cells (mem st) h t ops)" using i' by simp
  show "cells m h t ops = (view st t ops)[i := (c, k, v)]"
    unfolding m_def fun_upd_store view_def h_def [symmetric] using i'' cells_store_ctl [OF lay i'] cells_store_val [OF lay i' v] cells_store_key [OF lay i' k]
    by simp
  fix a assume a: "a \<notin> span t (unat (block_size h))"
  have sub: "span (t + of_nat (ctl_off h i)) 1 \<subseteq> span t (unat (block_size h))"
    "span (t + of_nat (key_off ops h i)) (unat (key_size ops)) \<subseteq> span t (unat (block_size h))"
    "span (t + of_nat (val_off ops h i)) (unat (elem_size ops)) \<subseteq> span t (unat (block_size h))"
    using o by (auto intro!: span_sub)
  with a show "m a = mem st a"
    unfolding m_def fun_upd_store using k v less_imp_le [OF unat_u64_lt]
    by (subst store_outside; (subst store_outside)?; (subst store_outside)?) auto
qed

context key_hooks
begin

lemma place_moved_run:
  assumes t: "table_at ops st t" and c: "c \<in> set (view st t ops)" "\<not> occ c"
    and apart: "span key (unat (key_size ops)) \<inter> span t (unat (block_size (tables st t))) = {}"
      "span value (unat (elem_size ops)) \<inter> span t (unat (block_size (tables st t))) = {}"
  obtains i st' where "map_place_moved t ops key value st = (Inr (), st')"
    and "first_free (view st t ops) (home_of hash (tables st t) (key_bytes ops st key)) i"
    and "view st' t ops = (view st t ops)[i := (LOKE_RT_MAP_OCCUPIED, key_bytes ops st key, value_bytes ops st value)]"
    and "writes t (unat (block_size (tables st t))) st st'" and "table_at ops st' t"
    and "tables st' t = (tables st t)\<lparr>occupied := occupied (tables st t) + 1\<rparr>"
proof -
  let ?h = "tables st t" and ?N = "nat (slot_count (tables st t))" and ?k = "key_bytes ops st key" and ?v = "value_bytes ops st value"
  let ?w = "key_hash ops st key (seed ?h) AND map_mask st t"
  have w: "unat ?w = home_of hash ?h ?k" by (rule start_home [OF t])
  have "0 < ?N" using t by (rule table_at_count)
  then have wN: "unat ?w < ?N" unfolding w by (simp add: home_of_def)
  from free_exists [OF c, of "unat ?w"] obtain i where i: "first_free (view st t ops) (unat ?w) i" by blast
  have iN: "i < ?N" "i < 2 ^ 64" using first_free_index(1) [OF i] table_small [OF t] by simp_all
  from i obtain j where j: "(unat ?w + j) mod ?N = i" "\<forall>j' < j. occ (view st t ops ! ((unat ?w + j') mod ?N))"
    "\<not> occ (view st t ops ! i)" by (auto simp: first_free_def)
  have loop: "while_proc (\<lambda>index st. control st t (uint index) = LOKE_RT_MAP_OCCUPIED)
      (\<lambda>index. return ((index + 1) AND map_mask st t)) ?w st = (Inr (of_nat i), st)"
    using place_loop [OF t wN j(2)] j(1,3) by simp
  define m where "m = (store (store (mem st) (t + of_nat (key_off ops ?h i)) ?k) (t + of_nat (val_off ops ?h i)) ?v)
    (t + of_nat (ctl_off ?h i) := LOKE_RT_MAP_OCCUPIED)"
  note fill = fill_cell [where c = LOKE_RT_MAP_OCCUPIED and k = ?k and v = ?v, OF t iN(1) length_load length_load, folded m_def]
  let ?st = "st\<lparr>mem := m, tables := (tables st)(t := ?h\<lparr>occupied := occupied ?h + 1\<rparr>)\<rparr>"
  have ui: "uint (of_nat i :: u64) = int i" using iN(2) unat_of_nat_u64 by (metis uint_nat)
  have kv: "load (store (mem st) (t + of_nat (key_off ops ?h i)) ?k) value (unat (elem_size ops)) = ?v"
  proof (rule load_cong)
    fix a assume "a \<in> span value (unat (elem_size ops))"
    then have "a \<notin> span t (unat (block_size ?h))" using apart(2) by blast
    moreover have "span (t + of_nat (key_off ops ?h i)) (unat (key_size ops)) \<subseteq> span t (unat (block_size ?h))"
      using slot_order(7) [OF _ iN(1), of ops] t by (intro span_sub) (simp add: table_at_def)
    ultimately show "store (mem st) (t + of_nat (key_off ops ?h i)) ?k a = mem st a"
      using less_imp_le [OF unat_u64_lt] by (intro store_outside) auto
  qed
  have "map_place_moved t ops key value st = (Inr (), ?st)"
    unfolding map_place_moved_def using loop kv
    by (simp add: bind_def rt_simps Let_def ui key_at_off value_at_off memcpy_def set_control_def set_table_def m_def)
      (simp add: map_value_at_def map_controls_def val_off_def ctl_off_def key_off_def add.assoc)
  moreover have "view ?st t ops = (view st t ops)[i := (LOKE_RT_MAP_OCCUPIED, ?k, ?v)]"
  proof -
    have "view ?st t ops = cells m (?h\<lparr>occupied := occupied ?h + 1\<rparr>) t ops" by (simp add: view_def)
    also have "\<dots> = cells m ?h t ops" by (rule cells_header) simp_all
    finally show ?thesis by (simp only: fill(1))
  qed
  moreover have "writes t (unat (block_size ?h)) st ?st" using fill(2) by (auto simp: writes_def)
  moreover have "table_at ops ?st t" using t by (simp add: table_at_def layout_ok_def Let_def)
  ultimately show thesis using i unfolding w by (intro that [of ?st i]) simp_all
qed

end

section \<open>Rehashing\<close>

definition n_occ :: "cell list \<Rightarrow> nat" where
  "n_occ cs = length (filter occ cs)"

lemma n_occ_le: "n_occ cs \<le> length cs"
  by (simp add: n_occ_def)

lemma n_occ_fill: "i < length cs \<Longrightarrow> \<not> occ (cs ! i) \<Longrightarrow> occ c \<Longrightarrow> n_occ (cs[i := c]) = Suc (n_occ cs)"
  by (induction cs arbitrary: i) (auto simp: n_occ_def nth_Cons split: nat.splits)

lemma n_occ_clear: "i < length cs \<Longrightarrow> occ (cs ! i) \<Longrightarrow> \<not> occ c \<Longrightarrow> Suc (n_occ (cs[i := c])) = n_occ cs"
  by (induction cs arbitrary: i) (auto simp: n_occ_def nth_Cons split: nat.splits)

lemma n_occ_room: "n_occ cs < length cs \<Longrightarrow> \<exists>c \<in> set cs. \<not> occ c"
  unfolding n_occ_def by (metis filter_True less_irrefl)

lemma n_occ_take_Suc: "i < length cs \<Longrightarrow> n_occ (take (Suc i) cs) = n_occ (take i cs) + (if occ (cs ! i) then 1 else 0)"
  by (simp add: n_occ_def take_Suc_conv_app_nth)

lemma n_occ_take: "n_occ (take i cs) \<le> n_occ cs"
proof -
  have "n_occ cs = n_occ (take i cs) + n_occ (drop i cs)"
    by (metis append_take_drop_id filter_append length_append n_occ_def)
  then show ?thesis by simp
qed

lemma lookup_take_None:
  assumes "table_ok home same cs" and "i < length cs" and "occ (cs ! i)"
  shows "lookup same (take i cs) (ckey (cs ! i)) = None"
proof -
  have "\<not> same (ckey (cs ! x)) (ckey (cs ! i))" if "x < i" "occ (cs ! x)" for x
  proof
    assume "same (ckey (cs ! x)) (ckey (cs ! i))"
    moreover have "x < length cs" using that(1) assms(2) by simp
    ultimately have "x = i" using assms that(2) unfolding table_ok_def by blast
    with that(1) show False by simp
  qed
  then have "\<forall>c \<in> set (take i cs). occ c \<longrightarrow> \<not> same (ckey c) (ckey (cs ! i))"
    unfolding all_set_conv_all_nth using assms(2) by simp
  then show ?thesis by (simp add: lookup_None)
qed

text \<open>What the fresh table has become when the slots of the old one below \<open>i\<close> have been moved.\<close>

definition moved_to :: "(u8 list \<Rightarrow> u64 \<Rightarrow> u64) \<Rightarrow> (u8 list \<Rightarrow> u8 list \<Rightarrow> bool) \<Rightarrow> 'w container_ops \<Rightarrow> addr \<Rightarrow> 'w rt \<Rightarrow>
    cell list \<Rightarrow> 'w rt \<Rightarrow> bool" where
  "moved_to hash same ops fresh st cs st' \<longleftrightarrow>
     writes fresh (unat (block_size (tables st fresh))) st st' \<and> table_at ops st' fresh \<and>
     tables st' fresh = (tables st fresh)\<lparr>occupied := occupied (tables st fresh) + int (n_occ cs)\<rparr> \<and>
     table_ok (home_of hash (tables st fresh)) same (view st' fresh ops) \<and>
     (\<forall>q. lookup same (view st' fresh ops) q = lookup same cs q) \<and> n_occ (view st' fresh ops) = n_occ cs \<and>
     (\<forall>c \<in> set (view st' fresh ops). occ c \<or> vacant c)"

lemma home_of_occupied [simp]: "home_of hash (h\<lparr>occupied := n\<rparr>) = home_of hash h"
  by (simp add: home_of_def fun_eq_iff)

lemma view_key_span:
  assumes "table_at ops st t" and "i < nat (slot_count (tables st t))"
  shows "span (map_key_at st t ops (int i)) (unat (key_size ops)) \<subseteq> span t (unat (block_size (tables st t)))"
    and "span (map_value_at st t ops (int i)) (unat (elem_size ops)) \<subseteq> span t (unat (block_size (tables st t)))"
  unfolding key_at_off value_at_off using assms slot_order(6,7) [of ops "tables st t" i] by (auto simp: table_at_def intro!: span_sub)

context key_hooks
begin

lemma moved_step:
  assumes old: "table_at ops st old" "table_ok (home_of hash (tables st old)) same (view st old ops)"
    and apart: "old \<noteq> fresh" "span old (unat (block_size (tables st old))) \<inter> span fresh (unat (block_size (tables st fresh))) = {}"
    and room: "n_occ (view st old ops) < nat (slot_count (tables st fresh))"
    and i: "i < nat (slot_count (tables st old))" and moved: "moved_to hash same ops fresh st (take i (view st old ops)) x"
  obtains y where "(if control x old (int i) = LOKE_RT_MAP_OCCUPIED
      then map_place_moved fresh ops (map_key_at x old ops (int i)) (map_value_at x old ops (int i)) else return ()) x = (Inr (), y)"
    and "moved_to hash same ops fresh st (take (Suc i) (view st old ops)) y"
proof -
  let ?cs = "view st old ops" and ?bs = "unat (block_size (tables st fresh))"
  have w: "writes fresh ?bs st x" and tx: "table_at ops x fresh" and hx: "tables x fresh = (tables st fresh)\<lparr>occupied := occupied (tables st fresh) + int (n_occ (take i ?cs))\<rparr>"
    and okx: "table_ok (home_of hash (tables st fresh)) same (view x fresh ops)"
    and lx: "\<And>q. lookup same (view x fresh ops) q = lookup same (take i ?cs) q"
    and nx: "n_occ (view x fresh ops) = n_occ (take i ?cs)" and cx: "\<forall>c \<in> set (view x fresh ops). occ c \<or> vacant c"
    using moved by (auto simp: moved_to_def)
  note same_old = writes_view [OF w apart old(1)]
  have iN: "i < length ?cs" using i by simp
  have ctl: "control x old (int i) = LOKE_RT_MAP_OCCUPIED \<longleftrightarrow> occ (?cs ! i)"
    using i view_nth(1) [of i x old ops] by (simp add: same_old occ_def)
  show thesis
  proof (cases "occ (?cs ! i)")
    case False
    then show thesis
      using ctl moved iN by (intro that [of x])
        (simp_all add: rt_simps moved_to_def n_occ_take_Suc lookup_take_Suc [OF old(2) same_equiv])
  next
    case True
    let ?k = "map_key_at x old ops (int i)" and ?v = "map_value_at x old ops (int i)"
    have kb: "key_bytes ops x ?k = ckey (?cs ! i)" and vb: "value_bytes ops x ?v = cval (?cs ! i)"
      using view_nth [of i x old ops] i by (simp_all add: same_old)
    have kv_apart: "span ?k (unat (key_size ops)) \<inter> span fresh (unat (block_size (tables x fresh))) = {}"
      "span ?v (unat (elem_size ops)) \<inter> span fresh (unat (block_size (tables x fresh))) = {}"
      using view_key_span [OF same_old(2), of i] i apart(2) by (auto simp: same_old(3) hx)
    have "n_occ (view x fresh ops) < length (view x fresh ops)"
      using room n_occ_take [of i ?cs] nx by (simp add: hx)
    then obtain c where c: "c \<in> set (view x fresh ops)" "\<not> occ c" using n_occ_room by blast
    from tx c kv_apart show thesis
    proof (rule place_moved_run)
      fix p y assume run: "map_place_moved fresh ops ?k ?v x = (Inr (), y)"
        and p: "first_free (view x fresh ops) (home_of hash (tables x fresh) (key_bytes ops x ?k)) p"
        and vy: "view y fresh ops = (view x fresh ops)[p := (LOKE_RT_MAP_OCCUPIED, key_bytes ops x ?k, value_bytes ops x ?v)]"
        and wy: "writes fresh (unat (block_size (tables x fresh))) x y" and ty: "table_at ops y fresh"
        and hy: "tables y fresh = (tables x fresh)\<lparr>occupied := occupied (tables x fresh) + 1\<rparr>"
      have new: "\<forall>c \<in> set (view x fresh ops). occ c \<longrightarrow> \<not> same (ckey c) (ckey (?cs ! i))"
        using lx [of "ckey (?cs ! i)"] lookup_take_None [OF old(2) iN True] by (simp add: lookup_None)
      have p': "first_free (view x fresh ops) (home_of hash (tables st fresh) (ckey (?cs ! i))) p" using p by (simp add: hx kb)
      note ins = insert_cell [OF okx same_equiv p' new, of "cval (?cs ! i)"]
      have "moved_to hash same ops fresh st (take (Suc i) ?cs) y"
        unfolding moved_to_def
      proof (intro conjI allI)
        show "writes fresh ?bs st y" using w wy by (simp add: hx writes_trans)
        show "tables y fresh = (tables st fresh)\<lparr>occupied := occupied (tables st fresh) + int (n_occ (take (Suc i) ?cs))\<rparr>"
          using iN True by (simp add: hy hx n_occ_take_Suc)
        show "table_ok (home_of hash (tables st fresh)) same (view y fresh ops)" using ins(1) by (simp add: vy kb vb)
        show "lookup same (view y fresh ops) q = lookup same (take (Suc i) ?cs) q" for q
          using ins(2) [of q] True by (simp add: vy kb vb lx lookup_take_Suc [OF old(2) same_equiv iN])
        show "n_occ (view y fresh ops) = n_occ (take (Suc i) ?cs)"
          using first_free_index [OF p] iN True nx by (simp add: vy n_occ_fill n_occ_take_Suc)
        show "\<forall>c \<in> set (view y fresh ops). occ c \<or> vacant c" unfolding vy using cx by (auto dest!: set_update_subset_insert [THEN subsetD])
      qed (rule ty)
      with run ctl True show thesis by (intro that [of y]) simp_all
    qed
  qed
qed

lemma move_all_run:
  assumes old: "table_at ops st old" "table_ok (home_of hash (tables st old)) same (view st old ops)"
    and apart: "old \<noteq> fresh" "span old (unat (block_size (tables st old))) \<inter> span fresh (unat (block_size (tables st fresh))) = {}"
    and room: "n_occ (view st old ops) < nat (slot_count (tables st fresh))"
    and fresh: "table_at ops st fresh" and clean: "\<forall>c \<in> set (view st fresh ops). vacant c"
  obtains st' where "map_move_all fresh old ops st = (Inr (), st')" and "moved_to hash same ops fresh st (view st old ops) st'"
proof -
  let ?cs = "view st old ops" and ?N = "nat (slot_count (tables st old))"
  let ?loop = "while_proc (\<lambda>i st. i < slot_count (tables st old))
       (\<lambda>i. bind get_state (\<lambda>st.
          bind (if control st old i = LOKE_RT_MAP_OCCUPIED
                then map_place_moved fresh ops (map_key_at st old ops i) (map_value_at st old ops i)
                else return ()) (\<lambda>_. return (i + 1))))"
  have run: "\<exists>y. ?loop (int i) x = (Inr (slot_count (tables st old)), y) \<and> moved_to hash same ops fresh st ?cs y"
    if "moved_to hash same ops fresh st (take i ?cs) x" "i \<le> ?N" for i x
    using that
  proof (induction "?N - i" arbitrary: i x)
    case 0
    have N: "int ?N = slot_count (tables st old)" using old(1) by (rule table_at_count) simp
    have "tables x old = tables st old"
      using 0(2) writes_tables [of fresh _ st x old] apart(1) by (auto simp: moved_to_def)
    moreover have "i = ?N" using 0 by simp
    ultimately show ?case using 0(2) N by (auto simp: while_proc_stop)
  next
    case (Suc d)
    then have i: "i < ?N" by simp
    have tb: "tables x old = tables st old"
      using Suc(3) writes_tables [of fresh _ st x old] apart(1) by (auto simp: moved_to_def)
    from old apart room i Suc(3) obtain y where y: "(if control x old (int i) = LOKE_RT_MAP_OCCUPIED
      then map_place_moved fresh ops (map_key_at x old ops (int i)) (map_value_at x old ops (int i)) else return ()) x = (Inr (), y)"
      "moved_to hash same ops fresh st (take (Suc i) ?cs) y" by (rule moved_step)
    have "?loop (int i) x = ?loop (int (Suc i)) y"
      using i y(1) by (subst while_proc_step [of _ _ _ _ "int (Suc i)" y]) (simp_all add: tb bind_def rt_simps)
    with Suc(1) [of "Suc i" y] Suc(2) y(2) i show ?case by simp
  qed
  have "moved_to hash same ops fresh st (take 0 ?cs) st"
  proof -
    have none: "\<not> occ c" if "c \<in> set (view st fresh ops)" for c using clean that occ_not_vacant by blast
    then have "table_ok (home_of hash (tables st fresh)) same (view st fresh ops)"
      by (auto simp: table_ok_def simp del: length_view)
    moreover have "lookup same (view st fresh ops) q = None" for q using none by (auto simp: lookup_None)
    moreover have "n_occ (view st fresh ops) = 0" using none by (auto simp: n_occ_def filter_empty_conv)
    ultimately show ?thesis using fresh clean by (simp add: moved_to_def n_occ_def lookup_def)
  qed
  from run [OF this] obtain y where "?loop 0 st = (Inr (slot_count (tables st old)), y)" "moved_to hash same ops fresh st ?cs y" by auto
  then show thesis by (intro that [of y]) (simp_all add: map_move_all_def bind_def rt_simps)
qed

end

end
