(* ===== verification/Loke_Map_Correct.thy ===== *)
theory Loke_Map_Correct
  imports Loke_Map_Probe
begin

text \<open>
  A well-formed map, the finite map it stands for, and the pieces its operations are made of: a new
  table, the move of all entries into it, and the filling of one slot.  Everything is proved in the
  locale \<open>map_provider\<close>, for any provider of memory and any key type that keep their contracts.
\<close>

section \<open>A well-formed map\<close>

definition own_table :: "'w rt \<Rightarrow> addr \<Rightarrow> live" where
  "own_table st self = (let t = map_table (maps st self) in if t = 0 then {} else {(t, unat (block_size (tables st t)))})"

definition n_dead :: "cell list \<Rightarrow> nat" where
  "n_dead cs = length (filter (\<lambda>c. fst c = LOKE_RT_MAP_TOMBSTONE) cs)"

lemma n_dead_fill: "i < length cs \<Longrightarrow> fst c \<noteq> LOKE_RT_MAP_TOMBSTONE \<Longrightarrow>
    n_dead cs = n_dead (cs[i := c]) + (if fst (cs ! i) = LOKE_RT_MAP_TOMBSTONE then 1 else 0)"
  by (induction cs arbitrary: i) (auto simp: n_dead_def nth_Cons split: nat.splits)

lemma n_dead_kill: "i < length cs \<Longrightarrow> fst c = LOKE_RT_MAP_TOMBSTONE \<Longrightarrow> fst (cs ! i) \<noteq> LOKE_RT_MAP_TOMBSTONE \<Longrightarrow>
    n_dead (cs[i := c]) = Suc (n_dead cs)"
  by (induction cs arbitrary: i) (auto simp: n_dead_def nth_Cons split: nat.splits)

definition tidy :: "cell list \<Rightarrow> bool" where
  "tidy cs \<longleftrightarrow> list_all (\<lambda>c. fst c \<in> {LOKE_RT_MAP_EMPTY, LOKE_RT_MAP_TOMBSTONE, LOKE_RT_MAP_OCCUPIED}) cs"

definition counted :: "(u8 list \<Rightarrow> u64 \<Rightarrow> u64) \<Rightarrow> (u8 list \<Rightarrow> u8 list \<Rightarrow> bool) \<Rightarrow> 'w container_ops \<Rightarrow> 'w rt \<Rightarrow> addr \<Rightarrow> bool" where
  "counted hash same ops st t \<longleftrightarrow>
     (let tb = tables st t; cs = view st t ops in
      table_at ops st t \<and> block_align tb = map_block_align ops \<and> table_ok (home_of hash tb) same cs \<and> tidy cs \<and>
      occupied tb = int (n_occ cs) \<and> tombstones tb = int (n_dead cs) \<and>
      occupied tb + tombstones tb \<le> map_capacity_of (slot_count tb))"

definition map_ok :: "(u8 list \<Rightarrow> u64 \<Rightarrow> u64) \<Rightarrow> (u8 list \<Rightarrow> u8 list \<Rightarrow> bool) \<Rightarrow> addr \<Rightarrow> addr set \<Rightarrow> live \<Rightarrow> 'w rt \<Rightarrow> addr \<Rightarrow>
    'w container_ops \<Rightarrow> bool" where
  "map_ok hash same h territory L st self ops \<longleftrightarrow>
     (let m = maps st self; t = map_table m in
      map_allocator m = h \<and> own_table st self \<subseteq> L \<and> self \<in> - territory \<union> spans (L - own_table st self) \<and>
      (if t = 0 then map_len m = 0 \<and> map_cap m = 0
       else counted hash same ops st t \<and> map_len m = occupied (tables st t) \<and>
         map_cap m = map_capacity_of (slot_count (tables st t))))"

text \<open>The finite map it stands for: the value bytes under each key.\<close>

definition entries :: "(u8 list \<Rightarrow> u8 list \<Rightarrow> bool) \<Rightarrow> 'w rt \<Rightarrow> addr \<Rightarrow> 'w container_ops \<Rightarrow> u8 list \<Rightarrow> u8 list option" where
  "entries same st self ops k =
     (let t = map_table (maps st self) in if t = 0 then None else lookup same (view st t ops) k)"

text \<open>\<open>p\<close> is where the value under \<open>k\<close> is stored.\<close>

definition slot_of :: "(u8 list \<Rightarrow> u8 list \<Rightarrow> bool) \<Rightarrow> 'w container_ops \<Rightarrow> 'w rt \<Rightarrow> addr \<Rightarrow> u8 list \<Rightarrow> addr \<Rightarrow> bool" where
  "slot_of same ops st self k p \<longleftrightarrow>
     (let t = map_table (maps st self) in t \<noteq> 0 \<and> (\<exists>i < nat (slot_count (tables st t)).
        p = map_value_at st t ops (int i) \<and> occ (view st t ops ! i) \<and> same (ckey (view st t ops ! i)) k))"

definition map_leaves :: "addr set \<Rightarrow> addr \<Rightarrow> 'w rt \<Rightarrow> 'w rt \<Rightarrow> bool" where
  "map_leaves A self st st' \<longleftrightarrow>
     (\<forall>x \<in> A. mem st' x = mem st x \<and> allocators st' x = allocators st x \<and> arenas st' x = arenas st x \<and>
        blocks st' x = blocks st x \<and> dyns st' x = dyns st x \<and> (x \<noteq> self \<longrightarrow> maps st' x = maps st x) \<and> tables st' x = tables st x) \<and>
     selected st' = selected st \<and> init_phase st' = init_phase st"

lemma map_leaves_refl [simp]: "map_leaves A self st st"
  by (simp add: map_leaves_def)

lemma map_leaves_trans: "map_leaves A self st st' \<Longrightarrow> map_leaves A self st' st'' \<Longrightarrow> map_leaves A self st st''"
  by (simp add: map_leaves_def)

lemma map_leaves_mono: "map_leaves B self st st' \<Longrightarrow> A \<subseteq> B \<Longrightarrow> map_leaves A self st st'"
  by (auto simp: map_leaves_def)

lemma map_leaves_untouched: "untouched A st st' \<Longrightarrow> map_leaves A self st st'"
  by (auto simp: map_leaves_def untouched_def agree_def)

lemma map_leaves_set_map: "map_leaves A self st (st\<lparr>maps := (maps st)(self := m)\<rparr>)"
  by (simp add: map_leaves_def)

lemma map_leaves_writes: "writes t n st st' \<Longrightarrow> A \<inter> span t n = {} \<Longrightarrow> 0 < n \<Longrightarrow> map_leaves A self st st'"
proof -
  assume w: "writes t n st st'" and A: "A \<inter> span t n = {}" and "0 < n"
  have "t \<in> span t n" using \<open>0 < n\<close> by (auto simp: span_def image_iff intro!: bexI [of _ 0])
  with A have "x \<noteq> t" if "x \<in> A" for x using that by blast
  with w A show ?thesis by (auto simp: map_leaves_def writes_def)
qed

lemma map_leaves_load: "map_leaves A self st st' \<Longrightarrow> span p n \<subseteq> A \<Longrightarrow> load (mem st') p n = load (mem st) p n"
  by (rule load_cong) (auto simp: map_leaves_def)

lemma map_leaves_view:
  assumes "map_leaves A self st st'" and "table_at ops st t" and "span t (unat (block_size (tables st t))) \<subseteq> A"
    and "0 < unat (block_size (tables st t))"
  shows "tables st' t = tables st t" and "view st' t ops = view st t ops" and "table_at ops st' t"
proof -
  have "t \<in> span t (unat (block_size (tables st t)))" using assms(4) by (auto simp: span_def image_iff intro!: bexI [of _ 0])
  then show tb: "tables st' t = tables st t" using assms(1,3) by (auto simp: map_leaves_def)
  show "view st' t ops = view st t ops"
    unfolding view_def tb using assms by (intro cells_cong) (auto simp: table_at_def map_leaves_def)
  show "table_at ops st' t" using assms(2) by (simp add: table_at_def tb)
qed

lemma counted_cong: "counted hash same ops st t \<Longrightarrow> tables st' t = tables st t \<Longrightarrow> view st' t ops = view st t ops \<Longrightarrow> counted hash same ops st' t"
  by (simp add: counted_def Let_def table_at_def)

lemma shape_positive: "layout_ok ops h \<Longrightarrow> 0 < unat (block_size h)"
  by (auto simp: layout_ok_def Let_def)

section \<open>The client of a provider\<close>

locale map_provider = provider P h territory inv + key_hooks ops hash same
  for P :: "'w providers" and h :: addr and territory :: "addr set" and inv :: "live \<Rightarrow> 'w rt \<Rightarrow> bool"
    and ops :: "'w container_ops" and hash :: "u8 list \<Rightarrow> u64 \<Rightarrow> u64" and same :: "u8 list \<Rightarrow> u8 list \<Rightarrow> bool" +
  assumes block_pow2: "pow2 (map_block_align ops)"
begin

lemma inv_writes:
  assumes "inv L st" and "(t, n) \<in> L" and "writes t n st st'"
  shows "inv L st'"
  using assms(1)
proof (rule stable)
  have "0 < n" using live_inside [OF assms(1,2)] by (simp add: block_in_def)
  then have t: "t \<in> span t n" by (auto simp: span_def image_iff intro!: bexI [of _ 0])
  have "span t n \<subseteq> spans L" using assms(2) by (rule spans_member) simp
  with t assms(3) show "agree (territory - spans L) st st'" by (auto simp: agree_def writes_def)
qed

lemma inv_set_map:
  assumes "inv L st" and "self \<in> - territory \<union> spans L"
  shows "inv L (st\<lparr>maps := (maps st)(self := m)\<rparr>)"
  using assms(1) by (rule stable) (use assms(2) in \<open>auto simp: agree_def\<close>)

lemma new_table_cases:
  assumes inv: "inv L st" and shape: "map_block_shape ops slots = Some shape" and k: "slots = 2 ^ k" "3 \<le> k" "k \<le> 62"
  obtains (refused) st' where "map_new_table P h shape st = (Inr 0, st')" and "inv L st'" and "untouched (- territory \<union> spans L) st st'"
  | (made) fresh s st' where "map_new_table P h shape st = (Inr fresh, st')" and "fresh \<noteq> 0"
      and "inv (insert (fresh, unat (block_size shape)) L) st'" and "(fresh, unat (block_size shape)) \<notin> L"
      and "tables st' fresh = shape\<lparr>seed := s\<rparr>" and "table_at ops st' fresh" and "\<forall>c \<in> set (view st' fresh ops). vacant c"
      and "map_leaves (- territory \<union> spans L) self st st'" and "\<forall>x \<in> - territory \<union> spans L. maps st' x = maps st x"
proof -
  have slots: "0 \<le> slots" "slots \<le> INT64_MAX"
    using k(3) power_increasing [of k 62 "2 :: int"] by (auto simp: k(1) INT64_MAX_def)
  note sh = map_block_shape_Some [OF shape slots]
  have pos: "0 < unat (block_size shape)" using sh(4) by (rule shape_positive)
  then have "0 < block_size shape" by (simp add: word_less_nat_alt)
  from alloc_law [OF inv this block_pow2] obtain p st1 where p: "loke_rt_v1_alloc P h (block_size shape) (map_block_align ops) st = (Inr p, st1)"
      "untouched (- territory \<union> spans L) st st1"
      "if p = 0 then inv L st1 else inv (insert (p, unat (block_size shape)) L) st1 \<and> (p, unat (block_size shape)) \<notin> L \<and> unat (map_block_align ops) dvd unat p"
    by blast
  show thesis
  proof (cases "p = 0")
    case True
    with p sh(7) show thesis by (intro refused [of st1]) (simp_all add: map_new_table_def loke_rt_v1_alloc_zeroed_def bind_def rt_simps)
  next
    case False
    let ?n = "unat (block_size shape)" and ?L = "insert (p, unat (block_size shape)) L"
    have inv1: "inv ?L st1" and new: "(p, ?n) \<notin> L" using p(3) False by auto
    obtain s st2 where seed: "map_next_seed p (st1\<lparr>mem := store (mem st1) p (replicate ?n 0), tables := (tables st1)(p := shape)\<rparr>) =
        (Inr s, st1\<lparr>mem := store (mem st1) p (replicate ?n 0), tables := (tables st1)(p := shape), seed_counter := st2\<rparr>)"
      by (simp add: map_next_seed_def bind_def rt_simps Let_def)
    let ?st = "st1\<lparr>mem := store (mem st1) p (replicate ?n 0), tables := (tables st1)(p := shape\<lparr>seed := s\<rparr>), seed_counter := st2\<rparr>"
    have run: "map_new_table P h shape st = (Inr p, ?st)"
      using p(1) False seed by (simp add: map_new_table_def loke_rt_v1_alloc_zeroed_def sh(7) bind_def rt_simps memset_def set_table_def)
    have self: "p \<in> span p ?n" using pos by (auto simp: span_def image_iff intro!: bexI [of _ 0])
    have blk: "block_in L territory p ?n" using live_inside [OF inv1 insertI1] new by simp
    have here: "store (mem st1) p (replicate ?n 0) a = mem st1 a" if "a \<notin> span p ?n" for a
      using that less_imp_le [OF unat_u64_lt] by (intro store_outside) simp_all
    have inv': "inv ?L ?st"
      using inv1 by (rule stable) (use self here in \<open>auto simp: agree_def\<close>)
    have "table_at ops ?st p" using sh(1,4) k by (auto simp: table_at_def layout_ok_def Let_def)
    moreover have "\<forall>c \<in> set (view ?st p ops). vacant c"
    proof
      fix c assume "c \<in> set (view ?st p ops)"
      then obtain i where i: "i < nat slots" "c = view ?st p ops ! i" by (auto simp: in_set_conv_nth sh(1))
      have "ctl_off shape i + 1 \<le> ?n" using slot_order(8) [OF sh(4), of i] i(1) sh(1) by simp
      then have "store (mem st1) p (replicate ?n 0) (p + of_nat (ctl_off shape i)) = 0"
        using store_at [of "ctl_off shape i" "replicate ?n 0" "mem st1" p] less_imp_le [OF unat_u64_lt] by simp
      moreover have "ctl_off (shape\<lparr>seed := s\<rparr>) i = ctl_off shape i" by (simp add: ctl_off_def)
      ultimately show "vacant c" using i by (simp add: vacant_def view_def nth_cells sh(1) LOKE_RT_MAP_EMPTY_def)
    qed
    moreover have "map_leaves (- territory \<union> spans L) self st ?st"
    proof -
      have apart: "span p ?n \<inter> (- territory \<union> spans L) = {}" using blk by (auto simp: block_in_def)
      then have "map_leaves (- territory \<union> spans L) self st1 ?st"
        using self here by (fastforce simp: map_leaves_def)
      then show ?thesis by (rule map_leaves_trans [OF map_leaves_untouched [OF p(2)]])
    qed
    moreover have "\<forall>x \<in> - territory \<union> spans L. maps ?st x = maps st x" using p(2) by (simp add: untouched_def agree_def)
    ultimately show thesis using run False inv' new by (intro made [of p ?st s]) simp_all
  qed
qed

lemma fill_run:
  assumes ct: "counted hash same ops st t" and room: "n_occ (view st t ops) < nat (slot_count (tables st t))"
    and cap: "occupied (tables st t) + tombstones (tables st t) + 1 \<le> map_capacity_of (slot_count (tables st t))"
    and plain: "key_clone ops = None"
    and apart: "span key (unat (key_size ops)) \<inter> span t (unat (block_size (tables st t))) = {}"
    and absent: "lookup same (view st t ops) (key_bytes ops st key) = None"
  obtains i st' where "map_entry_fill t ops key a st = (Inr (Some (int i)), st')" and "i < nat (slot_count (tables st t))"
    and "writes t (unat (block_size (tables st t))) st st'" and "counted hash same ops st' t"
    and "\<And>q. lookup same (view st' t ops) q =
      (if same (key_bytes ops st key) q then Some (replicate (unat (elem_size ops)) 0) else lookup same (view st t ops) q)"
    and "occupied (tables st' t) = occupied (tables st t) + 1" and "slot_count (tables st' t) = slot_count (tables st t)"
    and "block_size (tables st' t) = block_size (tables st t)"
    and "ckey (view st' t ops ! i) = key_bytes ops st key" and "occ (view st' t ops ! i)"
proof -
  let ?h = "tables st t" and ?cs = "view st t ops" and ?k = "key_bytes ops st key" and ?z = "replicate (unat (elem_size ops)) (0 :: u8)"
  have t: "table_at ops st t" and ok: "table_ok (home_of hash ?h) same ?cs" and tdy: "tidy ?cs"
    and cnt: "occupied ?h = int (n_occ ?cs)" "tombstones ?h = int (n_dead ?cs)" and al: "block_align ?h = map_block_align ops"
    using ct by (auto simp: counted_def Let_def)
  obtain c where c: "c \<in> set ?cs" "\<not> occ c" using n_occ_room [of ?cs] room by auto
  from t c obtain i where i: "first_free ?cs (home_of hash ?h ?k) i"
      and slot: "map_free_slot t ops key st = (Inr (int i, if fst (?cs ! i) = LOKE_RT_MAP_TOMBSTONE then int i else -1), st)"
    by (rule free_slot_run)
  have iN: "i < nat (slot_count ?h)" "\<not> occ (?cs ! i)" using first_free_index [OF i] by simp_all
  let ?dead = "fst (?cs ! i) = LOKE_RT_MAP_TOMBSTONE"
  define m where "m = (store (store (mem st) (t + of_nat (key_off ops ?h i)) ?k) (t + of_nat (val_off ops ?h i)) ?z)
    (t + of_nat (ctl_off ?h i) := LOKE_RT_MAP_OCCUPIED)"
  let ?h' = "?h\<lparr>tombstones := tombstones ?h - (if ?dead then 1 else 0), occupied := occupied ?h + 1\<rparr>"
  let ?st = "st\<lparr>mem := m, tables := (tables st)(t := ?h')\<rparr>"
  note fill = fill_cell [where c = LOKE_RT_MAP_OCCUPIED and k = ?k and v = ?z, OF t iN(1) length_load length_replicate, folded m_def]
  have "map_entry_fill t ops key a st = (Inr (Some (int i)), ?st)"
    unfolding map_entry_fill_def using slot plain
    by (cases "?dead")
      (simp_all add: bind_def rt_simps map_store_key_def memcpy_def memset_def set_table_def set_control_def m_def
        map_value_at_def map_key_at_def map_controls_def val_off_def ctl_off_def key_off_def add.assoc)
  moreover have vw: "view ?st t ops = ?cs[i := (LOKE_RT_MAP_OCCUPIED, ?k, ?z)]"
  proof -
    have "view ?st t ops = cells m ?h' t ops" by (simp add: view_def)
    also have "\<dots> = cells m ?h t ops" by (rule cells_header) simp_all
    finally show ?thesis by (simp only: fill(1))
  qed
  moreover have "writes t (unat (block_size ?h)) st ?st" using fill(2) by (auto simp: writes_def)
  moreover have new: "\<forall>c \<in> set ?cs. occ c \<longrightarrow> \<not> same (ckey c) ?k" using absent by (simp add: lookup_None)
  note ins = insert_cell [OF ok same_equiv i new, of ?z]
  moreover have "counted hash same ops ?st t"
  proof -
    have "home_of hash ?h' = home_of hash ?h" by (simp add: home_of_def fun_eq_iff)
    moreover have "n_occ (?cs[i := (LOKE_RT_MAP_OCCUPIED, ?k, ?z)]) = Suc (n_occ ?cs)" using iN by (simp add: n_occ_fill)
    moreover have "int (n_dead (?cs[i := (LOKE_RT_MAP_OCCUPIED, ?k, ?z)])) = int (n_dead ?cs) - (if ?dead then 1 else 0)"
      using iN n_dead_fill [of i ?cs "(LOKE_RT_MAP_OCCUPIED, ?k, ?z)"] by simp
    moreover have "tidy (?cs[i := (LOKE_RT_MAP_OCCUPIED, ?k, ?z)])"
      using tdy by (auto simp: tidy_def list_all_iff dest!: set_update_subset_insert [THEN subsetD])
    moreover have "table_at ops ?st t" using t by (simp add: table_at_def layout_ok_def Let_def)
    ultimately show ?thesis
      unfolding counted_def vw Let_def using ins(1) cnt al cap by simp
  qed
  ultimately show thesis using iN by (intro that [of i ?st]) simp_all
qed

lemma map_okD:
  assumes "map_ok hash same h territory L st self ops"
  shows "map_allocator (maps st self) = h" and "self \<in> - territory \<union> spans (L - own_table st self)" and "self \<in> - territory \<union> spans L"
    and "map_table (maps st self) = 0 \<Longrightarrow> map_len (maps st self) = 0 \<and> map_cap (maps st self) = 0"
    and "map_table (maps st self) \<noteq> 0 \<Longrightarrow> counted hash same ops st (map_table (maps st self)) \<and>
      map_len (maps st self) = occupied (tables st (map_table (maps st self))) \<and>
      map_cap (maps st self) = map_capacity_of (slot_count (tables st (map_table (maps st self)))) \<and>
      (map_table (maps st self), unat (block_size (tables st (map_table (maps st self))))) \<in> L"
  using assms spans_mono [of "L - own_table st self" L] by (auto simp: map_ok_def Let_def own_table_def split: if_splits)

lemma countedD:
  assumes "counted hash same ops st t"
  shows "table_at ops st t" and "table_ok (home_of hash (tables st t)) same (view st t ops)" and "tidy (view st t ops)"
    and "occupied (tables st t) = int (n_occ (view st t ops))" and "tombstones (tables st t) = int (n_dead (view st t ops))"
    and "occupied (tables st t) + tombstones (tables st t) \<le> map_capacity_of (slot_count (tables st t))"
    and "block_align (tables st t) = map_block_align ops" and "0 < unat (block_size (tables st t))"
  using assms shape_positive [of ops "tables st t"] by (auto simp: counted_def Let_def table_at_def)

lemma capacity_room:
  assumes "3 \<le> k" and "n \<le> map_capacity_of (2 ^ k)"
  shows "n < 2 ^ k"
proof -
  have "(2 :: int) ^ k = 8 * 2 ^ (k - 3)" using power_add [of "2 :: int" 3 "k - 3"] assms(1) by simp
  moreover have "0 < (2 :: int) ^ (k - 3)" by simp
  ultimately show ?thesis using assms(2) capacity_pow2 [OF assms(1)] by linarith
qed

lemma rebuild_cases:
  assumes inv: "inv L st" and ok: "map_ok hash same h territory L st self ops"
    and shape: "map_block_shape ops slots = Some shape" and k: "slots = 2 ^ k" "3 \<le> k" "k \<le> 62"
    and room: "map_len (maps st self) \<le> map_capacity_of slots"
  defines "old \<equiv> map_table (maps st self)"
  obtains (refused) st' where "map_new_table P h shape st = (Inr 0, st')" and "inv L st'" and "untouched (- territory \<union> spans L) st st'"
  | (rebuilt) fresh st1 st2 where "map_new_table P h shape st = (Inr fresh, st1)" and "fresh \<noteq> 0"
      and "(if old \<noteq> 0 then map_move_all fresh old ops else return ()) st1 = (Inr (), st2)"
      and "inv (insert (fresh, unat (block_size (tables st2 fresh))) L) st2" and "(fresh, unat (block_size (tables st2 fresh))) \<notin> L"
      and "counted hash same ops st2 fresh" and "\<And>q. lookup same (view st2 fresh ops) q = entries same st self ops q"
      and "occupied (tables st2 fresh) = map_len (maps st self)" and "tombstones (tables st2 fresh) = 0"
      and "slot_count (tables st2 fresh) = slots"
      and "map_leaves (- territory \<union> spans L) self st st2" and "maps st2 self = maps st self"
  using inv shape k
proof (cases rule: new_table_cases [where self = self])
  case refused
  then show thesis by (rule that(1))
next
  case (made fresh s st1)
  let ?n = "unat (block_size shape)"
  note sh = map_block_shape_Some [OF shape]
  have slots: "0 \<le> slots" "slots \<le> INT64_MAX"
    using k(3) power_increasing [of k 62 "2 :: int"] by (auto simp: k(1) INT64_MAX_def)
  note sh = map_block_shape_Some [OF shape slots]
  have self: "self \<in> - territory \<union> spans L" by (rule map_okD(3) [OF ok])
  have maps1: "maps st1 self = maps st self" using made(9) self by blast
  have blk: "block_in L territory fresh ?n" using live_inside [OF made(3) insertI1] made(4) by simp
  have vac: "\<not> occ c" if "c \<in> set (view st1 fresh ops)" for c using made(7) that occ_not_vacant by blast
  have tidy_vac: "fst c = LOKE_RT_MAP_EMPTY" if "c \<in> set (view st1 fresh ops)" for c using made(7) that by (simp add: vacant_def)
  show thesis
  proof (cases "old = 0")
    case True
    have "lookup same (view st1 fresh ops) q = None" for q using vac by (auto simp: lookup_None)
    moreover have "entries same st self ops q = None" for q using True by (simp add: entries_def old_def)
    moreover have "map_len (maps st self) = 0" using map_okD(4) [OF ok] True by (simp add: old_def)
    moreover have "counted hash same ops st1 fresh"
    proof -
      have "n_occ (view st1 fresh ops) = 0" using vac by (auto simp: n_occ_def filter_empty_conv)
      moreover have "n_dead (view st1 fresh ops) = 0" using tidy_vac control_values(4) by (fastforce simp: n_dead_def filter_empty_conv)
      moreover have "table_ok hm same (view st1 fresh ops)" for hm using vac by (auto simp: table_ok_def simp del: length_view)
      moreover have "tidy (view st1 fresh ops)" using tidy_vac by (auto simp: tidy_def list_all_iff)
      moreover have "0 \<le> map_capacity_of slots" using room \<open>map_len (maps st self) = 0\<close> by simp
      ultimately show ?thesis using made(5,6) sh by (simp add: counted_def Let_def)
    qed
    ultimately show thesis
      using True made(1-4,8) made(5) sh maps1 by (intro that(2) [of fresh st1 st1]) (simp_all add: rt_simps)
  next
    case False
    note o = map_okD(5) [OF ok] False
    then have ct: "counted hash same ops st old" and len: "map_len (maps st self) = occupied (tables st old)"
      and inL: "(old, unat (block_size (tables st old))) \<in> L" by (auto simp: old_def)
    note c = countedD [OF ct]
    have sub: "span old (unat (block_size (tables st old))) \<subseteq> spans L" using inL by (rule spans_member) simp
    note v1 = map_leaves_view [OF made(8) c(1) _ c(8)]
    have v1: "tables st1 old = tables st old" "view st1 old ops = view st old ops" "table_at ops st1 old" using v1 sub by auto
    have apart: "span old (unat (block_size (tables st1 old))) \<inter> span fresh (unat (block_size (tables st1 fresh))) = {}"
      using blk sub v1(1) made(5) by (auto simp: block_in_def)
    have "old \<in> span old (unat (block_size (tables st old)))" using c(8) by (auto simp: span_def image_iff intro!: bexI [of _ 0])
    moreover have "fresh \<in> span fresh ?n" using blk by (auto simp: block_in_def span_def image_iff intro!: bexI [of _ 0])
    ultimately have ne: "old \<noteq> fresh" using apart v1(1) made(5) by auto
    have "n_occ (view st1 old ops) < nat (slot_count (tables st1 fresh))"
      using capacity_room [OF k(2), of "map_len (maps st self)"] room len c(4) made(5) sh(1) k(1) by (simp add: v1(2) nat_power_eq zless_nat_eq_int_zless)
    from v1(3) _ ne apart this made(6,7) obtain st2 where
        mv: "map_move_all fresh old ops st1 = (Inr (), st2)" "moved_to hash same ops fresh st1 (view st1 old ops) st2"
      by (rule move_all_run) (use c(2) v1 in simp)
    have w: "writes fresh ?n st1 st2" and t2: "table_at ops st2 fresh"
      and h2: "tables st2 fresh = shape\<lparr>seed := s, occupied := int (n_occ (view st old ops))\<rparr>"
      and ok2: "table_ok (home_of hash (tables st1 fresh)) same (view st2 fresh ops)"
      and l2: "\<And>q. lookup same (view st2 fresh ops) q = lookup same (view st old ops) q"
      and n2: "n_occ (view st2 fresh ops) = n_occ (view st old ops)" and c2: "\<And>c. c \<in> set (view st2 fresh ops) \<Longrightarrow> occ c \<or> vacant c"
      using mv(2) made(5) sh(2) by (auto simp: moved_to_def v1(2))
    have "counted hash same ops st2 fresh"
    proof -
      have "home_of hash (tables st2 fresh) = home_of hash (tables st1 fresh)" by (simp add: h2 made(5) home_of_def fun_eq_iff)
      moreover have "n_dead (view st2 fresh ops) = 0" using c2 by (fastforce simp: n_dead_def filter_empty_conv occ_def vacant_def)
      moreover have "tidy (view st2 fresh ops)" using c2 by (fastforce simp: tidy_def list_all_iff occ_def vacant_def)
      moreover have "int (n_occ (view st old ops)) \<le> map_capacity_of slots" using room len c(4) by simp
      ultimately show ?thesis using t2 ok2 n2 sh(1,3,7) by (simp add: counted_def Let_def h2)
    qed
    moreover have "inv (insert (fresh, ?n) L) st2" using made(3) _ w by (rule inv_writes) simp
    moreover have "map_leaves (- territory \<union> spans L) self st st2"
    proof (rule map_leaves_trans [OF made(8) map_leaves_writes [OF w]])
      show "(- territory \<union> spans L) \<inter> span fresh ?n = {}" "0 < ?n" using blk by (auto simp: block_in_def)
    qed
    moreover have "maps st2 self = maps st self" using w maps1 by simp
    moreover have "entries same st self ops q = lookup same (view st old ops) q" for q using False by (simp add: entries_def old_def)
    ultimately show thesis
      using False made(1,2,4) mv(1) h2 l2 len c(4) sh(1,3)
      by (intro that(2) [of fresh st1 st2]) simp_all
  qed
qed

lemma slot_value:
  assumes inv: "inv L st" and ok: "map_ok hash same h territory L st self ops" and p: "slot_of same ops st self k p"
  shows "p \<noteq> 0" and "entries same st self ops k = Some (value_bytes ops st p)"
proof -
  let ?t = "map_table (maps st self)"
  from p obtain i where t: "?t \<noteq> 0" and i: "i < nat (slot_count (tables st ?t))" "p = map_value_at st ?t ops (int i)"
      "occ (view st ?t ops ! i)" "same (ckey (view st ?t ops ! i)) k" by (auto simp: slot_of_def Let_def)
  have ct: "counted hash same ops st ?t" and inL: "(?t, unat (block_size (tables st ?t))) \<in> L" using map_okD(5) [OF ok] t by auto
  note c = countedD [OF ct]
  show "entries same st self ops k = Some (value_bytes ops st p)"
    using lookup_at [OF c(2) same_equiv _ i(3,4)] i(1) view_nth(3) [OF i(1), of ops] t by (simp add: entries_def i(2))
  have "unat ?t + unat (block_size (tables st ?t)) < 2 ^ 64" using live_inside [OF inv inL] by (simp add: block_in_def)
  moreover have "val_off ops (tables st ?t) i \<le> unat (block_size (tables st ?t))"
    using slot_order(6) [OF _ i(1), of ops] c(1) by (simp add: table_at_def)
  ultimately have "unat (?t + of_nat (val_off ops (tables st ?t) i)) = unat ?t + val_off ops (tables st ?t) i"
    using unat_u64_lt [of "block_size (tables st ?t)"] by (subst unat_plus_exact) (auto simp: unat_of_nat_u64)
  moreover have "0 < unat ?t" using t by (simp add: unat_gt_0)
  ultimately show "p \<noteq> 0" by (auto simp: i(2) value_at_off)
qed

lemma probe_entry:
  assumes ok: "map_ok hash same h territory L st self ops" and t: "map_table (maps st self) \<noteq> 0"
  obtains (absent) "map_probe st (map_table (maps st self)) ops key = -1" and "entries same st self ops (key_bytes ops st key) = None"
  | (found) i where "map_probe st (map_table (maps st self)) ops key = int i" and "i < nat (slot_count (tables st (map_table (maps st self))))"
      and "occ (view st (map_table (maps st self)) ops ! i)" and "same (ckey (view st (map_table (maps st self)) ops ! i)) (key_bytes ops st key)"
      and "slot_of same ops st self (key_bytes ops st key) (map_value_at st (map_table (maps st self)) ops (int i))"
proof -
  have ct: "counted hash same ops st (map_table (maps st self))" using map_okD(5) [OF ok] t by auto
  from countedD(1,2) [OF ct] show thesis
  proof (cases rule: probe_cases [where key = key])
    case absent
    with t show thesis by (intro that(1)) (simp_all add: entries_def)
  next
    case (found i)
    with t show thesis by (intro that(2) [of i]) (auto simp: slot_of_def Let_def)
  qed
qed

lemma find_run:
  assumes inv: "inv L st" and ok: "map_ok hash same h territory L st self ops"
  shows "\<exists>p. loke_rt_v1_map_find self ops key st = (Inr p, st) \<and>
    (if p = 0 then entries same st self ops (key_bytes ops st key) = None else slot_of same ops st self (key_bytes ops st key) p)"
proof (cases "map_table (maps st self) = 0 \<or> map_len (maps st self) = 0")
  case True
  have "entries same st self ops (key_bytes ops st key) = None"
  proof (cases "map_table (maps st self) = 0")
    case False
    with True map_okD(5) [OF ok] have ct: "counted hash same ops st (map_table (maps st self))"
      and "occupied (tables st (map_table (maps st self))) = 0" by auto
    with countedD(4) [OF ct] have "\<forall>c \<in> set (view st (map_table (maps st self)) ops). \<not> occ c" by (simp add: n_occ_def filter_empty_conv)
    with False show ?thesis by (auto simp: entries_def lookup_None)
  qed (simp add: entries_def)
  with True show ?thesis by (auto simp: loke_rt_v1_map_find_def bind_def rt_simps Let_def)
next
  case False
  then have t: "map_table (maps st self) \<noteq> 0" by simp
  from ok t show ?thesis
  proof (cases rule: probe_entry [where key = key])
    case absent
    with False show ?thesis by (auto simp: loke_rt_v1_map_find_def bind_def rt_simps Let_def)
  next
    case (found i)
    with False slot_value(1) [OF inv ok found(5)] show ?thesis by (auto simp: loke_rt_v1_map_find_def bind_def rt_simps Let_def)
  qed
qed

text \<open>Releasing a table that is no longer the map's.\<close>

lemma free_table:
  assumes inv: "inv L st" and t: "(t, unat (block_size (tables st t))) \<in> L"
  obtains st' where "map_free_block P h t st = (Inr (), st')" and "inv (L - {(t, unat (block_size (tables st t)))}) st'"
    and "untouched (- territory \<union> spans (L - {(t, unat (block_size (tables st t)))})) st st'"
  using free_law [OF inv t, of "block_align (tables st t)"] that
  by (auto simp: map_free_block_def bind_def rt_simps)

end

end
