(* ===== verification/Loke_Map_Ops.thy ===== *)
theory Loke_Map_Ops
  imports Loke_Map_Correct
begin

text \<open>
  The operations of the map against the finite map it stands for: insertion in place and through a
  rebuilt table, removal, reserve and shrink, clear, drop and the walk over the entries.
\<close>

section \<open>Insertion\<close>


context map_provider
begin

lemma own_apart:
  assumes inv: "inv L st" and ok: "map_ok hash same h territory L st self ops" and t: "map_table (maps st self) \<noteq> 0"
    and p: "span p n \<subseteq> - territory \<union> spans (L - own_table st self)"
  shows "span p n \<inter> span (map_table (maps st self)) (unat (block_size (tables st (map_table (maps st self))))) = {}"
proof -
  let ?t = "map_table (maps st self)"
  have inL: "(?t, unat (block_size (tables st ?t))) \<in> L" using map_okD(5) [OF ok] t by auto
  have own: "own_table st self = {(?t, unat (block_size (tables st ?t)))}" using t by (simp add: own_table_def Let_def)
  from live_inside [OF inv inL] p show ?thesis by (auto simp: block_in_def own)
qed

lemma counted_room:
  assumes "counted hash same ops st t" and "occupied (tables st t) \<le> map_capacity_of (slot_count (tables st t))"
  shows "n_occ (view st t ops) < nat (slot_count (tables st t))"
  using countedD(1) [OF assms(1)]
proof (rule table_at_count)
  fix k assume k: "slot_count (tables st t) = 2 ^ k" "3 \<le> k"
  have "int (n_occ (view st t ops)) < 2 ^ k"
    using capacity_room [OF k(2), of "int (n_occ (view st t ops))"] assms(2) countedD(4) [OF assms(1)] k(1) by simp
  then show ?thesis by (simp add: k(1) zless_nat_eq_int_zless)
qed

lemma map_ok_moved:
  assumes d: "map_table (maps st' self) = t" "t \<noteq> 0" "map_allocator (maps st' self) = h"
      "map_len (maps st' self) = occupied (tables st' t)" "map_cap (maps st' self) = map_capacity_of (slot_count (tables st' t))"
    and ct: "counted hash same ops st' t" and L: "L' = insert (t, unat (block_size (tables st' t))) K" and new: "(t, unat (block_size (tables st' t))) \<notin> K"
    and self: "self \<in> - territory \<union> spans K"
  shows "map_ok hash same h territory L' st' self ops" and "L' - own_table st' self = K"
proof -
  have own: "own_table st' self = {(t, unat (block_size (tables st' t)))}" using d by (simp add: own_table_def Let_def)
  show cut: "L' - own_table st' self = K" using L new by (auto simp: own)
  show "map_ok hash same h territory L' st' self ops"
    unfolding map_ok_def Let_def cut using d ct self L by (auto simp: own)
qed

lemma entry_in_place:
  assumes inv: "inv L st" and ok: "map_ok hash same h territory L st self ops" and t: "map_table (maps st self) = t" "t \<noteq> 0"
    and plain: "key_clone ops = None" and key: "span key (unat (key_size ops)) \<subseteq> - territory \<union> spans (L - own_table st self)"
    and absent: "entries same st self ops (key_bytes ops st key) = None"
    and cap: "occupied (tables st t) + tombstones (tables st t) + 1 \<le> map_capacity_of (slot_count (tables st t))"
  obtains p st' where "map_entry_insert P self ops key h t 0 st = (Inr (p, True), st')" and "inv L st'"
    and "map_ok hash same h territory L st' self ops" and "L - own_table st' self = L - own_table st self"
    and "\<And>q. entries same st' self ops q =
      (if same (key_bytes ops st key) q then Some (replicate (unat (elem_size ops)) 0) else entries same st self ops q)"
    and "slot_of same ops st' self (key_bytes ops st key) p"
    and "map_leaves (- territory \<union> spans (L - own_table st self)) self st st'"
proof -
  let ?k = "key_bytes ops st key"
  have ct: "counted hash same ops st t" and len: "map_len (maps st self) = occupied (tables st t)"
    and mcap: "map_cap (maps st self) = map_capacity_of (slot_count (tables st t))" and inL: "(t, unat (block_size (tables st t))) \<in> L"
    using map_okD(5) [OF ok] t by auto
  note c = countedD [OF ct]
  have own: "own_table st self = {(t, unat (block_size (tables st t)))}" using t by (simp add: own_table_def Let_def)
  have "n_occ (view st t ops) < nat (slot_count (tables st t))"
    using cap c(5) by (intro counted_room [OF ct]) simp
  moreover have "span key (unat (key_size ops)) \<inter> span t (unat (block_size (tables st t))) = {}" using own_apart [OF inv ok _ key] t by simp
  moreover have "lookup same (view st t ops) ?k = None" using absent t by (simp add: entries_def)
  ultimately obtain i st1 where f: "map_entry_fill t ops key h st = (Inr (Some (int i)), st1)" "i < nat (slot_count (tables st t))"
      "writes t (unat (block_size (tables st t))) st st1" "counted hash same ops st1 t"
      "\<And>q. lookup same (view st1 t ops) q = (if same ?k q then Some (replicate (unat (elem_size ops)) 0) else lookup same (view st t ops) q)"
      "occupied (tables st1 t) = occupied (tables st t) + 1" "slot_count (tables st1 t) = slot_count (tables st t)"
      "block_size (tables st1 t) = block_size (tables st t)" "ckey (view st1 t ops ! i) = ?k" "occ (view st1 t ops ! i)"
    using fill_run [OF ct _ cap plain, of key h] by metis
  let ?m = "(maps st self)\<lparr>map_allocator := h, map_len := map_len (maps st self) + 1\<rparr>"
  let ?st = "st1\<lparr>maps := (maps st1)(self := ?m)\<rparr>"
  have maps1: "maps st1 = maps st" using f(3) by simp
  have view': "view ?st t ops = view st1 t ops" by (simp add: view_def)
  have ct': "counted hash same ops ?st t" using f(4) by (rule counted_cong) (simp_all add: view')
  have run: "map_entry_insert P self ops key h t 0 st = (Inr (map_value_at ?st t ops (int i), True), ?st)"
    using f(1) by (simp add: map_entry_insert_def bind_def rt_simps set_map_def maps1)
  have inv1: "inv L st1" using inv inL f(3) by (rule inv_writes)
  have inv': "inv L ?st" using inv1 map_okD(3) [OF ok] by (rule inv_set_map)
  have K: "L = insert (t, unat (block_size (tables ?st t))) (L - own_table st self)" using inL by (auto simp: own f(8))
  have tab: "map_table (maps ?st self) = t" using t by simp
  note mk = map_ok_moved [OF tab t(2) _ _ _ ct' K _ map_okD(2) [OF ok]]
  have ok': "map_ok hash same h territory L ?st self ops" and cut: "L - own_table ?st self = L - own_table st self"
    using mk len mcap f(6-8) by (simp_all add: own)
  have "map_leaves (- territory \<union> spans (L - own_table st self)) self st ?st"
  proof (rule map_leaves_trans [OF map_leaves_writes [OF f(3)] map_leaves_set_map])
    show "(- territory \<union> spans (L - own_table st self)) \<inter> span t (unat (block_size (tables st t))) = {}"
      using live_inside [OF inv inL] by (auto simp: block_in_def own)
  qed (rule c(8))
  moreover have "entries same ?st self ops q = (if same ?k q then Some (replicate (unat (elem_size ops)) 0) else entries same st self ops q)" for q
    using f(5) [of q] t by (simp add: entries_def view')
  moreover have "slot_of same ops ?st self ?k (map_value_at ?st t ops (int i))"
    unfolding slot_of_def Let_def tab using t(2) f(2,7,9,10) same_equiv
    by (intro conjI exI [of _ i]) (simp_all add: view' equivp_reflp)
  ultimately show thesis using run inv' ok' cut by (intro that)
qed

text \<open>The new table takes the place of the old one.\<close>

lemma adopt_table:
  assumes inv: "inv (insert (fresh, unat (block_size (tables st2 fresh))) L) st2" and new: "(fresh, unat (block_size (tables st2 fresh))) \<notin> L"
    and ok: "map_ok hash same h territory L st self ops" and ct: "counted hash same ops st2 fresh" and ne: "fresh \<noteq> 0"
    and leaves: "map_leaves (- territory \<union> spans L) self st st2" and maps2: "maps st2 self = maps st self"
  defines "old \<equiv> map_table (maps st self)" and "L' \<equiv> insert (fresh, unat (block_size (tables st2 fresh))) (L - own_table st self)"
  obtains st3 where "(if old \<noteq> 0 then map_free_block P h old else return ()) st2 = (Inr (), st3)" and "inv L' st3"
    and "counted hash same ops st3 fresh" and "tables st3 fresh = tables st2 fresh" and "view st3 fresh ops = view st2 fresh ops"
    and "maps st3 self = maps st self" and "(fresh, unat (block_size (tables st2 fresh))) \<notin> L - own_table st self"
    and "map_leaves (- territory \<union> spans (L - own_table st self)) self st st3"
proof -
  let ?n = "unat (block_size (tables st2 fresh))"
  have "\<exists>st3. (if old \<noteq> 0 then map_free_block P h old else return ()) st2 = (Inr (), st3) \<and> inv L' st3 \<and>
    untouched (- territory \<union> spans L') st2 st3"
  proof (cases "old = 0")
    case True
    then have "own_table st self = {}" by (simp add: own_table_def old_def)
    with True inv show ?thesis by (auto simp: L'_def rt_simps)
  next
    case False
    then have ct0: "counted hash same ops st old" and inL: "(old, unat (block_size (tables st old))) \<in> L"
      using map_okD(5) [OF ok] by (auto simp: old_def)
    note c0 = countedD [OF ct0]
    have "span old (unat (block_size (tables st old))) \<subseteq> - territory \<union> spans L" using spans_member [OF inL order_refl] by blast
    from map_leaves_view(1) [OF leaves c0(1) this c0(8)] have tb: "tables st2 old = tables st old" .
    have own: "own_table st self = {(old, unat (block_size (tables st old)))}" using False by (simp add: own_table_def Let_def old_def)
    have "(old, unat (block_size (tables st2 old))) \<in> insert (fresh, ?n) L" using inL tb by simp
    from inv this obtain st3 where "map_free_block P h old st2 = (Inr (), st3)"
        "inv (insert (fresh, ?n) L - {(old, unat (block_size (tables st2 old)))}) st3"
        "untouched (- territory \<union> spans (insert (fresh, ?n) L - {(old, unat (block_size (tables st2 old)))})) st2 st3"
      by (rule free_table)
    moreover have "insert (fresh, ?n) L - {(old, unat (block_size (tables st2 old)))} = L'"
      using new inL tb by (auto simp: L'_def own)
    ultimately show ?thesis using False by auto
  qed
  then obtain st3 where st3: "(if old \<noteq> 0 then map_free_block P h old else return ()) st2 = (Inr (), st3)" "inv L' st3"
    "untouched (- territory \<union> spans L') st2 st3" by blast
  note c = countedD [OF ct]
  have "span fresh ?n \<subseteq> - territory \<union> spans L'" by (auto simp: L'_def)
  from map_leaves_view [OF map_leaves_untouched [OF st3(3)] c(1) this c(8)]
  have v: "tables st3 fresh = tables st2 fresh" "view st3 fresh ops = view st2 fresh ops" by auto
  have "maps st3 self = maps st2 self"
    using st3(3) map_okD(2) [OF ok] by (auto simp: untouched_def agree_def L'_def)
  moreover have "map_leaves (- territory \<union> spans (L - own_table st self)) self st st3"
    by (rule map_leaves_trans [OF map_leaves_mono [OF leaves] map_leaves_mono [OF map_leaves_untouched [OF st3(3)]]])
      (use spans_mono [of "L - own_table st self" L] in \<open>auto simp: L'_def\<close>)
  ultimately show thesis
    using st3(1,2) v counted_cong [OF ct v] new maps2 by (intro that [of st3]) auto
qed

lemma entry_rebuilt:
  assumes inv: "inv (insert (fresh, unat (block_size (tables st2 fresh))) L) st2" and new: "(fresh, unat (block_size (tables st2 fresh))) \<notin> L"
    and ok: "map_ok hash same h territory L st self ops" and ct: "counted hash same ops st2 fresh" and ne: "fresh \<noteq> 0"
    and leaves: "map_leaves (- territory \<union> spans L) self st st2" and maps2: "maps st2 self = maps st self"
    and entries2: "\<And>q. lookup same (view st2 fresh ops) q = entries same st self ops q"
    and occ2: "occupied (tables st2 fresh) = map_len (maps st self)" "tombstones (tables st2 fresh) = 0"
      "map_len (maps st self) + 1 \<le> map_capacity_of (slot_count (tables st2 fresh))"
    and plain: "key_clone ops = None" and key: "span key (unat (key_size ops)) \<subseteq> - territory \<union> spans (L - own_table st self)"
    and absent: "entries same st self ops (key_bytes ops st key) = None"
  obtains p st' L' where "map_entry_insert P self ops key h (map_table (maps st self)) fresh st2 = (Inr (p, True), st')" and "inv L' st'"
    and "map_ok hash same h territory L' st' self ops" and "L' - own_table st' self = L - own_table st self"
    and "\<And>q. entries same st' self ops q =
      (if same (key_bytes ops st key) q then Some (replicate (unat (elem_size ops)) 0) else entries same st self ops q)"
    and "slot_of same ops st' self (key_bytes ops st key) p"
    and "map_leaves (- territory \<union> spans (L - own_table st self)) self st st'"
proof -
  let ?k = "key_bytes ops st key" and ?n = "unat (block_size (tables st2 fresh))" and ?old = "map_table (maps st self)"
  note c = countedD [OF ct]
  have blk: "block_in L territory fresh ?n" using live_inside [OF inv insertI1] new by simp
  have keyL: "span key (unat (key_size ops)) \<subseteq> - territory \<union> spans L" using key spans_mono [of "L - own_table st self" L] by blast
  have k2: "key_bytes ops st2 key = ?k" using leaves keyL by (rule map_leaves_load)
  have "n_occ (view st2 fresh ops) < nat (slot_count (tables st2 fresh))"
    using occ2 by (intro counted_room [OF ct]) simp
  moreover have "span key (unat (key_size ops)) \<inter> span fresh ?n = {}" using keyL blk by (auto simp: block_in_def)
  moreover have "lookup same (view st2 fresh ops) (key_bytes ops st2 key) = None" using absent by (simp add: entries2 k2)
  moreover have "occupied (tables st2 fresh) + tombstones (tables st2 fresh) + 1 \<le> map_capacity_of (slot_count (tables st2 fresh))"
    using occ2 by simp
  ultimately obtain i st1 where f: "map_entry_fill fresh ops key h st2 = (Inr (Some (int i)), st1)" "i < nat (slot_count (tables st2 fresh))"
      "writes fresh ?n st2 st1" "counted hash same ops st1 fresh"
      "\<And>q. lookup same (view st1 fresh ops) q = (if same ?k q then Some (replicate (unat (elem_size ops)) 0) else entries same st self ops q)"
      "occupied (tables st1 fresh) = map_len (maps st self) + 1" "slot_count (tables st1 fresh) = slot_count (tables st2 fresh)"
      "block_size (tables st1 fresh) = block_size (tables st2 fresh)" "ckey (view st1 fresh ops ! i) = ?k" "occ (view st1 fresh ops ! i)"
    using fill_run [OF ct _ _ plain, of key h] unfolding k2 entries2 occ2(1) by metis
  have inv1: "inv (insert (fresh, unat (block_size (tables st1 fresh))) L) st1" using inv_writes [OF inv insertI1 f(3)] by (simp add: f(8))
  have leaves1: "map_leaves (- territory \<union> spans L) self st st1"
    by (rule map_leaves_trans [OF leaves map_leaves_writes [OF f(3)]]) (use blk in \<open>auto simp: block_in_def\<close>)
  have maps1: "maps st1 self = maps st self" using f(3) maps2 by simp
  have new1: "(fresh, unat (block_size (tables st1 fresh))) \<notin> L" using new by (simp add: f(8))
  from inv1 new1 ok f(4) ne leaves1 maps1 obtain st3 where st3: "(if ?old \<noteq> 0 then map_free_block P h ?old else return ()) st1 = (Inr (), st3)"
      "inv (insert (fresh, unat (block_size (tables st1 fresh))) (L - own_table st self)) st3"
      "counted hash same ops st3 fresh" "tables st3 fresh = tables st1 fresh" "view st3 fresh ops = view st1 fresh ops"
      "maps st3 self = maps st self" "(fresh, unat (block_size (tables st1 fresh))) \<notin> L - own_table st self"
      "map_leaves (- territory \<union> spans (L - own_table st self)) self st st3" by (rule adopt_table)
  let ?m = "(maps st self)\<lparr>map_table := fresh, map_cap := map_capacity_of (slot_count (tables st1 fresh)), map_allocator := h, map_len := map_len (maps st self) + 1\<rparr>"
  let ?st = "st3\<lparr>maps := (maps st3)(self := ?m)\<rparr>" and ?L = "insert (fresh, unat (block_size (tables st1 fresh))) (L - own_table st self)"
  have view': "view ?st fresh ops = view st1 fresh ops" using st3(5) by (simp add: view_def)
  have ct': "counted hash same ops ?st fresh" using st3(3) by (rule counted_cong) (simp_all add: view' st3(5))
  have run: "map_entry_insert P self ops key h ?old fresh st2 = (Inr (map_value_at ?st fresh ops (int i), True), ?st)"
    using f(1) ne st3(1,4,6) by (simp add: map_entry_insert_def bind_def rt_simps set_map_def)
  have "self \<in> - territory \<union> spans ?L" using map_okD(2) [OF ok] by auto
  with st3(2) have inv': "inv ?L ?st" by (rule inv_set_map)
  have tab: "map_table (maps ?st self) = fresh" by simp
  have L': "?L = insert (fresh, unat (block_size (tables ?st fresh))) (L - own_table st self)" by (simp add: st3(4))
  note mk = map_ok_moved [OF tab ne _ _ _ ct' L' _ map_okD(2) [OF ok]]
  have ok': "map_ok hash same h territory ?L ?st self ops" and cut: "?L - own_table ?st self = L - own_table st self"
    using mk f(6) st3(4,7) by simp_all
  have "map_leaves (- territory \<union> spans (L - own_table st self)) self st ?st"
    by (rule map_leaves_trans [OF st3(8) map_leaves_set_map])
  moreover have "entries same ?st self ops q = (if same ?k q then Some (replicate (unat (elem_size ops)) 0) else entries same st self ops q)" for q
    using f(5) [of q] ne by (simp add: entries_def view')
  moreover have "slot_of same ops ?st self ?k (map_value_at ?st fresh ops (int i))"
    unfolding slot_of_def Let_def tab view' using ne f(2,7,9,10) same_equiv st3(4)
    by (intro conjI exI [of _ i]) (simp_all add: equivp_reflp)
  ultimately show thesis using run inv' ok' cut by (intro that)
qed

text \<open>The size of the table an insertion rebuilds into.\<close>

lemma grow_slots_cases:
  assumes n: "0 \<le> n" and o: "\<exists>k. old_slots = 2 ^ k \<and> 3 \<le> k \<and> k \<le> 62"
  obtains (none) "map_slots_for (n + 1) st = (Inr None, st)"
  | (stuck) slots where "map_slots_for (n + 1) st = (Inr (Some slots), st)"
      and "map_double_while (\<lambda>slots. slots div 2 \<le> n) (if big \<and> slots < old_slots then old_slots else slots) st = (Inr None, st)"
  | (some) slots k where "map_slots_for (n + 1) st = (Inr (Some slots), st)"
      and "map_double_while (\<lambda>slots. slots div 2 \<le> n) (if big \<and> slots < old_slots then old_slots else slots) st = (Inr (Some (2 ^ k)), st)"
      and "3 \<le> k" and "k \<le> 62" and "n + 1 \<le> map_capacity_of (2 ^ k)"
proof (cases rule: slots_for_cases [of "n + 1" st])
  case none
  then show thesis using that(1) by simp
next
  case (some k)
  from o obtain ko where ko: "old_slots = 2 ^ ko" "3 \<le> ko" "ko \<le> 62" by blast
  define k1 where "k1 = (if big \<and> (2 :: int) ^ k < old_slots then ko else k)"
  have k1: "(if big \<and> 2 ^ k < old_slots then old_slots else 2 ^ k) = 2 ^ k1" "3 \<le> k1" "k1 \<le> 62" "k \<le> k1"
    using ko some power_less_imp_less_exp [of "2 :: int" k ko] by (auto simp: k1_def)
  have "int (nat n) < 2 ^ nat n" using less_exp [of "nat n"] by (metis of_nat_less_iff of_nat_power of_nat_numeral)
  also have "(2 :: int) ^ nat n \<le> 2 ^ (nat n + k1)" by (intro power_increasing) auto
  finally have stops: "\<not> (2 ^ (nat n + k1 + 1) :: int) div 2 \<le> n" using n by simp
  have k1pos: "0 < k1" and le: "k1 \<le> nat n + k1 + 1" using k1(2) by simp_all
  from k1(1) k1pos k1(3) le stops show thesis
  proof (cases rule: double_while_cases [where st = st and p = "\<lambda>slots. slots div 2 \<le> n"])
    case none
    then show thesis using some(1) that(2) by simp
  next
    case (some m)
    note slots = \<open>map_slots_for (n + 1) st = (Inr (Some (2 ^ k)), st)\<close>
    have "n + 1 \<le> map_capacity_of (2 ^ m)"
      using \<open>n + 1 \<le> map_capacity_of (2 ^ k)\<close> capacity_mono [of k m] \<open>3 \<le> k\<close> k1(4) some(2) by linarith
    then show thesis using that(3) [OF slots some(1) _ some(3)] some(2) k1(2) by simp
  qed
qed

lemma entry_grow_cases:
  assumes inv: "inv L st" and ok: "map_ok hash same h territory L st self ops"
  obtains (refused) st' where "map_entry_grow P self ops h st = (Inr 0, st')" and "inv L st'" and "untouched (- territory \<union> spans L) st st'"
  | (rebuilt) fresh st' where "map_entry_grow P self ops h st = (Inr fresh, st')"
      and "inv (insert (fresh, unat (block_size (tables st' fresh))) L) st'" and "(fresh, unat (block_size (tables st' fresh))) \<notin> L"
      and "counted hash same ops st' fresh" and "fresh \<noteq> 0"
      and "map_leaves (- territory \<union> spans L) self st st'" and "maps st' self = maps st self"
      and "\<And>q. lookup same (view st' fresh ops) q = entries same st self ops q"
      and "occupied (tables st' fresh) = map_len (maps st self)" and "tombstones (tables st' fresh) = 0"
      and "map_len (maps st self) + 1 \<le> map_capacity_of (slot_count (tables st' fresh))"
proof -
  let ?m = "maps st self" and ?old = "map_table (maps st self)"
  have len0: "0 \<le> map_len ?m"
    using map_okD(4,5) [OF ok] countedD(4) [of st ?old] by (cases "?old = 0") auto
  define os where "os = (if ?old = 0 then 8 else slot_count (tables st ?old))"
  have os: "\<exists>k. os = 2 ^ k \<and> 3 \<le> k \<and> k \<le> 62"
  proof (cases "?old = 0")
    case True
    then show ?thesis by (intro exI [of _ 3]) (simp add: os_def)
  next
    case False
    then show ?thesis using map_okD(5) [OF ok] countedD(1) [of st ?old] by (auto simp: os_def table_at_def)
  qed
  have start: "(if ?old \<noteq> 0 \<and> x < slot_count (tables st ?old) then slot_count (tables st ?old) else x) =
      (if ?old \<noteq> 0 \<and> x < os then os else x)" for x by (simp add: os_def)
  note grow_def = map_entry_grow_def bind_def [of get_state] bind_def [of "map_slots_for _"] bind_def [of "map_double_while _ _"]
    rt_simps Let_def start
  from len0 os show thesis
  proof (cases rule: grow_slots_cases [where st = st and big = "?old \<noteq> 0"])
    case none
    with inv show thesis by (intro that(1) [of st]) (simp_all add: grow_def)
  next
    case (stuck slots)
    with inv show thesis by (intro that(1) [of st]) (simp_all add: grow_def)
  next
    case (some slots k)
    show thesis
    proof (cases "map_block_shape ops (2 ^ k)")
      case None
      with some inv show thesis by (intro that(1) [of st]) (simp_all add: grow_def)
    next
      case (Some shape)
      have grow: "map_entry_grow P self ops h st = bind (map_new_table P h shape) (\<lambda>fresh.
          if fresh = 0 then return 0
          else bind (if ?old \<noteq> 0 then map_move_all fresh ?old ops else return ()) (\<lambda>_. return fresh)) st"
        using some(1,2) Some by (simp add: grow_def)
      have room: "map_len ?m \<le> map_capacity_of (2 ^ k)" using some(5) by simp
      from inv ok Some refl some(3,4) room show thesis
      proof (cases rule: rebuild_cases)
        case (refused st')
        then show thesis by (intro that(1) [of st']) (simp_all add: grow bind_def rt_simps)
      next
        case (rebuilt fresh st1 st2)
        then show thesis using some(5) by (intro that(2) [of fresh st2]) (simp_all add: grow bind_def rt_simps)
      qed
    qed
  qed
qed

lemma entry_cases:
  assumes inv: "inv L st" and ok: "map_ok hash same h territory L st self ops"
    and plain: "key_clone ops = None" and key: "span key (unat (key_size ops)) \<subseteq> - territory \<union> spans (L - own_table st self)"
  obtains (refused) st' where "loke_rt_v1_map_entry P self ops key st = (Inr (0, False), st')" and "inv L st'"
      and "untouched (- territory \<union> spans L) st st'"
  | (found) p where "loke_rt_v1_map_entry P self ops key st = (Inr (p, False), st)" and "slot_of same ops st self (key_bytes ops st key) p"
  | (inserted) p st' L' where "loke_rt_v1_map_entry P self ops key st = (Inr (p, True), st')" and "inv L' st'"
      and "entries same st self ops (key_bytes ops st key) = None"
      and "map_ok hash same h territory L' st' self ops" and "L' - own_table st' self = L - own_table st self"
      and "\<And>q. entries same st' self ops q =
        (if same (key_bytes ops st key) q then Some (replicate (unat (elem_size ops)) 0) else entries same st self ops q)"
      and "slot_of same ops st' self (key_bytes ops st key) p"
      and "map_leaves (- territory \<union> spans (L - own_table st self)) self st st'"
proof -
  let ?m = "maps st self" and ?old = "map_table (maps st self)" and ?k = "key_bytes ops st key"
  have alloc: "map_allocator ?m = h" "h \<noteq> 0" using map_okD(1) [OF ok] handle [OF inv] by auto
  define i where "i = (if ?old \<noteq> 0 then map_probe st ?old ops key else -1)"
  define full where "full \<longleftrightarrow> ?old = 0 \<or> map_len ?m + 1 > map_cap ?m \<or>
       occupied (tables st ?old) + tombstones (tables st ?old) + 1 > slot_count (tables st ?old) - slot_count (tables st ?old) div 8"
  have entry: "loke_rt_v1_map_entry P self ops key st =
      (if i \<ge> 0 then return (map_value_at st ?old ops i, False)
       else if full then bind (map_entry_grow P self ops h) (\<lambda>fresh.
         if fresh = 0 then return (0, False) else map_entry_insert P self ops key h ?old fresh)
       else map_entry_insert P self ops key h ?old 0) st"
    unfolding loke_rt_v1_map_entry_def Let_def i_def full_def alloc(1)
    by (simp only: bind_def [of get_state] bind_def [of "return _"] rt_simps get_state_def return_def alloc prod.case sum.case if_False)
  show thesis
  proof (cases "0 \<le> i")
    case True
    then have t: "?old \<noteq> 0" unfolding i_def by (cases "?old = 0") simp_all
    from ok t show thesis
    proof (cases rule: probe_entry [where key = key])
      case absent
      with True t show thesis by (simp add: i_def)
    next
      case (found j)
      with True t entry show thesis by (intro that(2) [of "map_value_at st ?old ops (int j)"]) (simp_all add: i_def rt_simps)
    qed
  next
    case neg: False
    have absent: "entries same st self ops ?k = None"
    proof (cases "?old = 0")
      case False
      from ok False show ?thesis by (cases rule: probe_entry [where key = key]) (use neg False in \<open>auto simp: i_def\<close>)
    qed (simp add: entries_def)
    show thesis
    proof (cases full)
      case notfull: False
      then have t: "?old \<noteq> 0" by (simp add: full_def)
      have "occupied (tables st ?old) + tombstones (tables st ?old) + 1 \<le> map_capacity_of (slot_count (tables st ?old))"
        using notfull by (simp add: full_def map_capacity_of_def)
      with inv ok refl t plain key absent show thesis
        by (rule entry_in_place) (use neg notfull entry absent that(3) in auto)
    next
      case isfull: True
      from inv ok show thesis
      proof (cases rule: entry_grow_cases)
        case (refused st')
        with neg isfull entry show thesis by (intro that(1) [of st']) (simp_all add: bind_def rt_simps)
      next
        case (rebuilt fresh st')
        from rebuilt(2,3) ok rebuilt(4-11) plain key absent show thesis
          by (rule entry_rebuilt) (use neg isfull entry rebuilt(1,5) absent that(3) in \<open>auto simp: bind_def\<close>)
      qed
    qed
  qed
qed

end

context map_provider
begin

section \<open>Writes by the client\<close>

text \<open>A write outside the provider's territory and the map's own table is invisible to the map.\<close>

lemma client_write:
  assumes inv: "inv L st" and ok: "map_ok hash same h territory L st self ops"
    and p: "span p (length bs) \<subseteq> - territory \<union> spans (L - own_table st self)" and len: "length bs \<le> 2 ^ 64"
  defines "st' \<equiv> st\<lparr>mem := store (mem st) p bs\<rparr>"
  shows "inv L st'" and "map_ok hash same h territory L st' self ops" and "own_table st' self = own_table st self"
    and "map_table (maps st self) \<noteq> 0 \<Longrightarrow> view st' (map_table (maps st self)) ops = view st (map_table (maps st self)) ops"
    and "entries same st' self ops = entries same st self ops"
    and "map_leaves (- territory \<union> spans (L - own_table st self) - span p (length bs)) self st st'"
proof -
  let ?t = "map_table (maps st self)"
  have "agree (territory - spans L) st st'"
    using p spans_mono [of "L - own_table st self" L] len by (auto simp: agree_def st'_def intro!: store_outside)
  with inv show "inv L st'" by (rule stable)
  have fields: "maps st' = maps st" "tables st' = tables st" by (simp_all add: st'_def)
  show own: "own_table st' self = own_table st self" by (simp add: own_table_def st'_def Let_def)
  have view: "view st' ?t ops = view st ?t ops" if "?t \<noteq> 0"
  proof -
    have ct: "counted hash same ops st ?t" using map_okD(5) [OF ok] that by simp
    from own_apart [OF inv ok that p] show ?thesis
      unfolding view_def st'_def using countedD(1) [OF ct] len by (auto simp: table_at_def intro!: cells_cong store_outside)
  qed
  then show "?t \<noteq> 0 \<Longrightarrow> view st' ?t ops = view st ?t ops" .
  show "entries same st' self ops = entries same st self ops"
    using view fields by (cases "?t = 0") (simp_all add: entries_def fun_eq_iff)
  have ct': "counted hash same ops st' ?t" if "?t \<noteq> 0"
    using map_okD(5) [OF ok] that view by (intro counted_cong [where st = st and st' = st']) (simp_all add: fields)
  show "map_ok hash same h territory L st' self ops"
    using ok ct' unfolding map_ok_def Let_def own fields by simp
  show "map_leaves (- territory \<union> spans (L - own_table st self) - span p (length bs)) self st st'"
    using len by (auto simp: map_leaves_def st'_def intro!: store_outside)
qed

section \<open>Removal\<close>

lemma entries_same: "same a b \<Longrightarrow> entries same st self ops a = entries same st self ops b"
proof -
  assume "same a b"
  then have "same k a = same k b" for k using same_equiv unfolding equivp_def by metis
  then show ?thesis by (simp add: entries_def lookup_def Let_def)
qed

text \<open>Taking the entry of a slot out of the table.\<close>

lemma counted_remove:
  assumes ct: "counted hash same ops st t" and i: "i < nat (slot_count (tables st t))" "occ (view st t ops ! i)"
    and vw: "view st' t ops = (view st t ops)[i := (LOKE_RT_MAP_TOMBSTONE, snd (view st t ops ! i))]"
    and hd: "tables st' t = (tables st t)\<lparr>occupied := occupied (tables st t) - 1, tombstones := tombstones (tables st t) + 1\<rparr>"
  shows "counted hash same ops st' t"
    and "lookup same (view st' t ops) q = (if same (ckey (view st t ops ! i)) q then None else lookup same (view st t ops) q)"
proof -
  let ?cs = "view st t ops" and ?c = "(LOKE_RT_MAP_TOMBSTONE, snd (view st t ops ! i))"
  note c = countedD [OF ct]
  have i': "i < length ?cs" using i(1) by simp
  have dead: "\<not> occ ?c" "\<not> vacant ?c" by (simp_all add: occ_def vacant_def)
  note rm = remove_cell [OF c(2) same_equiv i' i(2) dead]
  show "lookup same (view st' t ops) q = (if same (ckey (?cs ! i)) q then None else lookup same ?cs q)"
    unfolding vw by (rule rm(2))
  have "int (n_occ (?cs[i := ?c])) = int (n_occ ?cs) - 1" using n_occ_clear [OF i' i(2) dead(1)] by simp
  moreover have "n_dead (?cs[i := ?c]) = Suc (n_dead ?cs)" using i' i(2) by (intro n_dead_kill) (auto simp: occ_def)
  moreover have "tidy (?cs[i := ?c])"
    using c(3) by (auto simp: tidy_def list_all_iff dest!: set_update_subset_insert [THEN subsetD])
  moreover have "table_at ops st' t" using c(1) by (simp add: table_at_def layout_ok_def Let_def hd)
  moreover have "home_of hash (tables st' t) = home_of hash (tables st t)" by (simp add: home_of_def fun_eq_iff hd)
  ultimately show "counted hash same ops st' t"
    unfolding counted_def vw Let_def using rm(1) c(4-7) by (simp add: hd)
qed

lemma removed_bytes:
  assumes lay: "layout_ok ops tb" and i: "i < nat (slot_count tb)"
    and oa: "span out (unat (elem_size ops)) \<inter> span t (unat (block_size tb)) = {}"
    and a: "a = t + of_nat (ctl_off tb i)" and m2: "m2 = store m a [LOKE_RT_MAP_VALUE_OWED]"
    and v: "v = load m2 (t + of_nat (val_off ops tb i)) (unat (elem_size ops))"
    and m': "m' = store (store m2 out v) a [LOKE_RT_MAP_TOMBSTONE]"
  shows "v = cval (cells m tb t ops ! i)"
    and "cells m' tb t ops = (cells m tb t ops)[i := (LOKE_RT_MAP_TOMBSTONE, snd (cells m tb t ops ! i))]"
    and "load m' out (unat (elem_size ops)) = v"
    and "x \<notin> span t (unat (block_size tb)) \<Longrightarrow> x \<notin> span out (unat (elem_size ops)) \<Longrightarrow> m' x = m x"
proof -
  let ?n = "unat (elem_size ops)" and ?cs = "cells m tb t ops"
  have lenv: "length v = ?n" by (simp add: v)
  have c2: "cells m2 tb t ops = ?cs[i := (LOKE_RT_MAP_VALUE_OWED, snd (?cs ! i))]"
    unfolding m2 a cells_store_ctl [OF lay i] ..
  have c3: "cells (store m2 out v) tb t ops = cells m2 tb t ops"
    using oa lenv less_imp_le [OF unat_u64_lt] by (intro cells_cong [OF lay] store_outside) auto
  show "cells m' tb t ops = ?cs[i := (LOKE_RT_MAP_TOMBSTONE, snd (?cs ! i))]"
    unfolding m' a cells_store_ctl [OF lay i] unfolding a [symmetric] c3 c2 using i by simp
  show "v = cval (?cs ! i)"
    using arg_cong [OF c2, of "\<lambda>cs. cval (cs ! i)"] i by (simp add: nth_cells v cval_def)
  have ain: "span a 1 \<subseteq> span t (unat (block_size tb))" unfolding a using slot_order(8) [OF lay i] by (rule span_sub)
  have "load m' out ?n = load (store m2 out v) out ?n" unfolding m' using ain oa by (intro load_store_apart) auto
  then show "load m' out ?n = v" using load_store_same [of v m2 out] less_imp_le [OF unat_u64_lt] by (simp add: lenv)
  show "m' x = m x" if "x \<notin> span t (unat (block_size tb))" "x \<notin> span out ?n"
  proof -
    have "x \<notin> span a 1" using ain that(1) by blast
    then show ?thesis using that(2) lenv less_imp_le [OF unat_u64_lt, of "elem_size ops"] by (simp add: m' m2 store_outside)
  qed
qed

lemma removed_state:
  assumes inv: "inv L st" and ok: "map_ok hash same h territory L st self ops" and t: "t = map_table (maps st self)" "t \<noteq> 0"
    and out: "span out (unat (elem_size ops)) \<subseteq> - territory \<union> spans (L - own_table st self)"
    and i: "i < nat (slot_count (tables st t))" "occ (view st t ops ! i)" "same (ckey (view st t ops ! i)) k"
    and vw: "cells m' (tables st t) t ops = (view st t ops)[i := (LOKE_RT_MAP_TOMBSTONE, snd (view st t ops ! i))]"
    and m': "\<And>x. x \<notin> span t (unat (block_size (tables st t))) \<Longrightarrow> x \<notin> span out (unat (elem_size ops)) \<Longrightarrow> m' x = mem st x"
    and hd': "hd' = (tables st t)\<lparr>occupied := occupied (tables st t) - 1, tombstones := tombstones (tables st t) + 1\<rparr>"
    and st': "st' = st\<lparr>mem := m', tables := (tables st)(t := hd'), maps := (maps st)(self := (maps st self)\<lparr>map_len := map_len (maps st self) - 1\<rparr>)\<rparr>"
  shows "inv L st'" and "map_ok hash same h territory L st' self ops" and "own_table st' self = own_table st self"
    and "entries same st' self ops q = (if same k q then None else entries same st self ops q)"
    and "map_leaves (- territory \<union> spans (L - own_table st self) - span out (unat (elem_size ops))) self st st'"
proof -
  let ?h = "tables st t" and ?n = "unat (elem_size ops)" and ?A = "- territory \<union> spans (L - own_table st self)"
  let ?T = "span t (unat (block_size (tables st t)))"
  have ct: "counted hash same ops st t" and inL: "(t, unat (block_size ?h)) \<in> L" and len: "map_len (maps st self) = occupied ?h"
    and mcap: "map_cap (maps st self) = map_capacity_of (slot_count ?h)"
    using map_okD(5) [OF ok] t by auto
  have tab: "map_table (maps st' self) = t" and hd: "tables st' t = hd'" by (simp_all add: st' t(1))
  have "view st' t ops = cells m' hd' t ops" by (simp add: view_def st')
  also have "\<dots> = cells m' ?h t ops" by (rule cells_header) (simp_all add: hd')
  finally have "view st' t ops = (view st t ops)[i := (LOKE_RT_MAP_TOMBSTONE, snd (view st t ops ! i))]" unfolding vw .
  note cr = counted_remove [OF ct i(1,2) this hd [unfolded hd']]
  show own: "own_table st' self = own_table st self"
    unfolding own_table_def tab Let_def hd t(1) [symmetric] by (simp add: hd')
  show "map_ok hash same h territory L st' self ops"
    using ok cr(1) t len mcap unfolding map_ok_def Let_def own tab hd by (simp add: st' hd')
  have "same (ckey (view st t ops ! i)) q = same k q" using i(3) same_equiv by (auto simp: equivp_def)
  then show "entries same st' self ops q = (if same k q then None else entries same st self ops q)"
    using cr(2) [of q] t by (simp add: entries_def tab)
  have th: "t \<in> ?T" using countedD(8) [OF ct] by (auto simp: span_def image_iff intro!: bexI [of _ 0])
  have tL: "?T \<subseteq> spans L" using inL by (rule spans_member) simp
  have sL: "?A \<subseteq> - territory \<union> spans L" using spans_mono [of "L - own_table st self" L] by blast
  have blk: "?A \<inter> ?T = {}"
    using live_inside [OF inv inL] t by (auto simp: block_in_def own_table_def Let_def)
  have out_mem: "mem st' x = mem st x" if "x \<notin> ?T" "x \<notin> span out ?n" for x using m' [OF that] by (simp add: st')
  have same_at: "allocators st' x = allocators st x" "arenas st' x = arenas st x" "blocks st' x = blocks st x" "dyns st' x = dyns st x"
      "x \<noteq> self \<Longrightarrow> maps st' x = maps st x" "x \<noteq> t \<Longrightarrow> tables st' x = tables st x" for x by (simp_all add: st')
  show "inv L st'" using inv
  proof (rule stable)
    have "x \<notin> ?T \<and> x \<notin> span out ?n \<and> x \<noteq> t \<and> x \<noteq> self" if "x \<in> territory - spans L" for x
      using that tL th out sL map_okD(3) [OF ok] by blast
    then show "agree (territory - spans L) st st'" unfolding agree_def using out_mem same_at by metis
  qed
  have "x \<notin> ?T \<and> x \<notin> span out ?n \<and> x \<noteq> t" if "x \<in> ?A - span out ?n" for x
    using that blk th by blast
  moreover have "selected st' = selected st" "init_phase st' = init_phase st" by (simp_all add: st')
  ultimately show "map_leaves (?A - span out ?n) self st st'" unfolding map_leaves_def using out_mem same_at by metis
qed

lemma remove_run:
  assumes inv: "inv L st" and ok: "map_ok hash same h territory L st self ops" and plain: "key_drop ops = None"
    and key: "span key (unat (key_size ops)) \<subseteq> - territory \<union> spans (L - own_table st self)"
    and out: "span out (unat (elem_size ops)) \<subseteq> - territory \<union> spans (L - own_table st self)"
    and apart: "span key (unat (key_size ops)) \<inter> span out (unat (elem_size ops)) = {}"
  obtains st' where "loke_rt_v1_map_remove self ops key out st = (Inr (entries same st self ops (key_bytes ops st key) \<noteq> None), st')"
    and "inv L st'" and "map_ok hash same h territory L st' self ops" and "own_table st' self = own_table st self"
    and "value_bytes ops st' out = (case entries same st self ops (key_bytes ops st key) of
      None \<Rightarrow> replicate (unat (elem_size ops)) 0 | Some v \<Rightarrow> v)"
    and "\<And>q. entries same st' self ops q = (if same (key_bytes ops st key) q then None else entries same st self ops q)"
    and "map_leaves (- territory \<union> spans (L - own_table st self) - span out (unat (elem_size ops))) self st st'"
proof -
  let ?t = "map_table (maps st self)" and ?k = "key_bytes ops st key" and ?z = "replicate (unat (elem_size ops)) (0 :: u8)"
  let ?n = "unat (elem_size ops)" and ?A = "- territory \<union> spans (L - own_table st self)"
  define st1 where "st1 = st\<lparr>mem := store (mem st) out ?z\<rparr>"
  have out': "span out (length ?z) \<subseteq> ?A" using out by simp
  have lenz: "length ?z \<le> 2 ^ 64" using less_imp_le [OF unat_u64_lt] by simp
  note w = client_write [OF inv ok out' lenz, folded st1_def]
  have k1: "key_bytes ops st1 key = ?k" unfolding st1_def using apart lenz by (simp add: load_store_apart)
  have z1: "value_bytes ops st1 out = ?z" unfolding st1_def using load_store_same [OF lenz, of "mem st" out] by simp
  have fields: "maps st1 = maps st" "tables st1 = tables st" by (simp_all add: st1_def)
  have start: "loke_rt_v1_map_remove self ops key out st =
      (if ?t = 0 \<or> map_len (maps st self) = 0 then return False
       else let i = map_probe st1 ?t ops key in
         if i < 0 then return False
         else bind (map_take_out self ?t ops i) (\<lambda>_. bind get_state (\<lambda>st.
           bind (memcpy out (map_value_at st ?t ops i) (elem_size ops)) (\<lambda>_.
           bind (set_control ?t i LOKE_RT_MAP_TOMBSTONE) (\<lambda>_. return True))))) st1"
    by (simp add: loke_rt_v1_map_remove_def bind_return [OF get_state_run] Let_def memset_def bind_return [OF modify_run]
      st1_def [symmetric] fields)
  note result = that
  have missing: thesis if none: "entries same st self ops ?k = None" and r: "loke_rt_v1_map_remove self ops key out st = (Inr False, st1)"
  proof (rule result [of st1])
    show "entries same st1 self ops q = (if same ?k q then None else entries same st self ops q)" for q
      using none entries_same [of ?k q st self] by (auto simp: w(5))
  qed (use none r w z1 in simp_all)
  show thesis
  proof (cases "?t = 0 \<or> map_len (maps st self) = 0")
    case True
    have "entries same st self ops ?k = None"
      using find_run [OF w(1,2), of key] True by (auto simp: loke_rt_v1_map_find_def bind_def rt_simps Let_def fields k1 w(5))
    with missing True start show thesis by (simp add: rt_simps)
  next
    case False
    then have t: "map_table (maps st1 self) \<noteq> 0" by (simp add: fields)
    from w(2) t show thesis
    proof (cases rule: probe_entry [where key = key])
      case absent
      with missing False start show thesis by (simp add: rt_simps fields k1 w(5))
    next
      case (found i)
      let ?h = "tables st ?t" and ?cs = "view st ?t ops"
      have ct: "counted hash same ops st ?t" using map_okD(5) [OF ok] False by auto
      have lay: "layout_ok ops ?h" using countedD(1) [OF ct] by (simp add: table_at_def)
      have v1: "view st1 ?t ops = ?cs" using w(4) False by simp
      then have c1: "cells (mem st1) ?h ?t ops = ?cs" by (simp add: view_def fields)
      have i: "i < nat (slot_count ?h)" "occ (?cs ! i)" "same (ckey (?cs ! i)) ?k" using found(2-4) by (simp_all add: fields v1 k1)
      have oa: "span out ?n \<inter> span ?t (unat (block_size ?h)) = {}" using own_apart [OF inv ok _ out] False by simp
      define a where "a = ?t + of_nat (ctl_off ?h i)"
      define m2 where "m2 = store (mem st1) a [LOKE_RT_MAP_VALUE_OWED]"
      define v where "v = load m2 (?t + of_nat (val_off ops ?h i)) ?n"
      define m' where "m' = store (store m2 out v) a [LOKE_RT_MAP_TOMBSTONE]"
      define hd' where "hd' = ?h\<lparr>occupied := occupied ?h - 1, tombstones := tombstones ?h + 1\<rparr>"
      define st' where "st' = st\<lparr>mem := m', tables := (tables st)(?t := hd'),
        maps := (maps st)(self := (maps st self)\<lparr>map_len := map_len (maps st self) - 1\<rparr>)\<rparr>"
      have run: "loke_rt_v1_map_remove self ops key out st = (Inr True, st')"
        unfolding start using False found(1) plain
        by (simp add: fields Let_def map_take_out_def bind_def rt_simps set_control_def set_table_def set_map_def run_drop_def memcpy_def
          map_controls_def map_value_at_def fun_upd_store)
          (simp add: st'_def st1_def m'_def hd'_def v_def m2_def a_def ctl_off_def val_off_def add.assoc)
      note eff = removed_bytes [OF lay i(1) oa a_def m2_def v_def m'_def, unfolded c1]
      have frame: "m' x = mem st x" if "x \<notin> span ?t (unat (block_size ?h))" "x \<notin> span out ?n" for x
        using eff(4) [OF that] that(2) lenz by (simp add: st1_def store_outside)
      have "?t \<noteq> 0" using False by simp
      note rs = removed_state [OF inv ok refl this out i eff(2) frame hd'_def st'_def]
      have "entries same st self ops ?k = Some v"
        using lookup_at [OF countedD(2) [OF ct] same_equiv _ i(2,3)] i(1) False eff(1) by (simp add: entries_def)
      moreover have "value_bytes ops st' out = v" using eff(3) by (simp add: st'_def)
      ultimately show thesis using run rs by (intro that [of st']) simp_all
    qed
  qed
qed

end

end
