(* ===== verification/Loke_Map_Resize.thy ===== *)
theory Loke_Map_Resize
  imports Loke_Map_Ops
begin

text \<open>
  The operations of the map on its whole table: reserve and shrink (a table of another size), stores
  through the slot of an entry, and clear.
\<close>

section \<open>Pieces of the operations\<close>

text \<open>What is left of the map while its entries are taken out one by one.\<close>

definition emptying :: "addr \<Rightarrow> addr \<Rightarrow> 'w rt \<Rightarrow> 'w rt \<Rightarrow> bool" where
  "emptying self t st x \<longleftrightarrow> (\<exists>m o' d l. x = st\<lparr>mem := m, tables := (tables st)(t := (tables st t)\<lparr>occupied := o', tombstones := d\<rparr>),
       maps := (maps st)(self := (maps st self)\<lparr>map_len := l\<rparr>)\<rparr> \<and>
     (\<forall>a. a \<notin> span t (unat (block_size (tables st t))) \<longrightarrow> m a = mem st a))"

lemma emptying_byte:
  assumes "emptying self t st x" and "a \<in> span t (unat (block_size (tables st t)))"
  shows "emptying self t st (x\<lparr>mem := (mem x)(a := c)\<rparr>)"
proof -
  from assms(1) obtain m o' d l where "x = st\<lparr>mem := m, tables := (tables st)(t := (tables st t)\<lparr>occupied := o', tombstones := d\<rparr>),
       maps := (maps st)(self := (maps st self)\<lparr>map_len := l\<rparr>)\<rparr>" "\<forall>a. a \<notin> span t (unat (block_size (tables st t))) \<longrightarrow> m a = mem st a"
    by (auto simp: emptying_def)
  with assms(2) show ?thesis unfolding emptying_def
    by (intro exI [of _ "m(a := c)"] exI [of _ o'] exI [of _ d] exI [of _ l]) auto
qed

lemma emptying_counts:
  assumes "emptying self t st x"
  shows "emptying self t st (x\<lparr>tables := (tables x)(t := (tables x t)\<lparr>occupied := o', tombstones := d\<rparr>)\<rparr>)"
proof -
  from assms obtain m o1 d1 l where "x = st\<lparr>mem := m, tables := (tables st)(t := (tables st t)\<lparr>occupied := o1, tombstones := d1\<rparr>),
       maps := (maps st)(self := (maps st self)\<lparr>map_len := l\<rparr>)\<rparr>" "\<forall>a. a \<notin> span t (unat (block_size (tables st t))) \<longrightarrow> m a = mem st a"
    by (auto simp: emptying_def)
  then show ?thesis unfolding emptying_def
    by (intro exI [of _ m] exI [of _ o'] exI [of _ d] exI [of _ l]) auto
qed

lemma emptying_len:
  assumes "emptying self t st x"
  shows "emptying self t st (x\<lparr>maps := (maps x)(self := (maps x self)\<lparr>map_len := l\<rparr>)\<rparr>)"
proof -
  from assms obtain m o' d l1 where "x = st\<lparr>mem := m, tables := (tables st)(t := (tables st t)\<lparr>occupied := o', tombstones := d\<rparr>),
       maps := (maps st)(self := (maps st self)\<lparr>map_len := l1\<rparr>)\<rparr>" "\<forall>a. a \<notin> span t (unat (block_size (tables st t))) \<longrightarrow> m a = mem st a"
    by (auto simp: emptying_def)
  then show ?thesis unfolding emptying_def
    by (intro exI [of _ m] exI [of _ o'] exI [of _ d] exI [of _ l]) auto
qed

text \<open>A new value in an occupied cell.\<close>

lemma write_cell:
  fixes v :: "u8 list"
  assumes ok: "table_ok home same cs" and eq: "equivp same" and i: "i < length cs" "occ (cs ! i)"
  defines "cs' \<equiv> cs[i := (fst (cs ! i), ckey (cs ! i), v)]"
  shows "table_ok home same cs'" and "lookup same cs' q = (if same (ckey (cs ! i)) q then Some v else lookup same cs q)"
    and "n_occ cs' = n_occ cs" and "n_dead cs' = n_dead cs" and "tidy cs' = tidy cs"
proof -
  have len: "length cs' = length cs" by (simp add: cs'_def)
  have at: "fst (cs' ! x) = fst (cs ! x)" "ckey (cs' ! x) = ckey (cs ! x)" for x
    using i(1) by (cases "x = i"; simp add: cs'_def ckey_def)+
  have fsts: "map fst cs' = map fst cs" using i(1) by (simp add: cs'_def map_update list_update_same_conv)
  have "occ = (\<lambda>c. fst c = LOKE_RT_MAP_OCCUPIED)" by (simp add: fun_eq_iff occ_def)
  then have "n_occ xs = length (filter (\<lambda>b. b = LOKE_RT_MAP_OCCUPIED) (map fst xs))"
    "n_dead xs = length (filter (\<lambda>b. b = LOKE_RT_MAP_TOMBSTONE) (map fst xs))"
    "tidy xs = list_all (\<lambda>b. b \<in> {LOKE_RT_MAP_EMPTY, LOKE_RT_MAP_TOMBSTONE, LOKE_RT_MAP_OCCUPIED}) (map fst xs)" for xs
    by (simp_all add: n_occ_def n_dead_def tidy_def filter_map o_def list.pred_map)
  then show "n_occ cs' = n_occ cs" "n_dead cs' = n_dead cs" "tidy cs' = tidy cs" by (simp_all only: fsts)
  have reach: "reached cs' = reached cs" by (simp add: fun_eq_iff reached_def len vacant_def at)
  show ok': "table_ok home same cs'" using ok by (simp add: table_ok_def len occ_def at reach)
  show "lookup same cs' q = (if same (ckey (cs ! i)) q then Some v else lookup same cs q)"
  proof (cases "same (ckey (cs ! i)) q")
    case True
    then have "lookup same cs' q = Some (cval (cs' ! i))"
      using ok' eq i by (intro lookup_at) (simp_all add: len occ_def at)
    with True i(1) show ?thesis by (simp add: cs'_def cval_def)
  next
    case False
    have "find (\<lambda>c. occ c \<and> same (ckey c) q) cs' = find (\<lambda>c. occ c \<and> same (ckey c) q) cs"
      unfolding cs'_def using False by (intro find_update_irrelevant) (simp_all add: ckey_def)
    with False show ?thesis by (simp add: lookup_def)
  qed
qed

context map_provider
begin

section \<open>Changing the size of the table\<close>

text \<open>A table of another size, the entries moved into it, the old one released: all of it, or a
  refusal with the map as it was.\<close>

lemma resize_table:
  assumes inv: "inv L st" and ok: "map_ok hash same h territory L st self ops"
    and shape: "map_block_shape ops slots = Some shape" and k: "slots = 2 ^ k" "3 \<le> k" "k \<le> 62"
    and room: "map_len (maps st self) \<le> map_capacity_of slots"
  defines "old \<equiv> map_table (maps st self)"
  obtains (refused) st' where "map_new_table P h shape st = (Inr 0, st')" and "inv L st'" and "untouched (- territory \<union> spans L) st st'"
  | (changed) fresh st1 st2 st3 st' L' where "map_new_table P h shape st = (Inr fresh, st1)" and "fresh \<noteq> 0"
      and "(if old \<noteq> 0 then map_move_all fresh old ops else return ()) st1 = (Inr (), st2)"
      and "(if old \<noteq> 0 then map_free_block P h old else return ()) st2 = (Inr (), st3)"
      and "st' = st3\<lparr>maps := (maps st3)(self := (maps st3 self)\<lparr>map_table := fresh, map_cap := map_capacity_of slots\<rparr>)\<rparr>"
      and "inv L' st'" and "map_ok hash same h territory L' st' self ops" and "L' - own_table st' self = L - own_table st self"
      and "entries same st' self ops = entries same st self ops"
      and "map_len (maps st' self) = map_len (maps st self)" and "map_cap (maps st' self) = map_capacity_of slots"
      and "tombstones (tables st' (map_table (maps st' self))) = 0"
      and "map_leaves (- territory \<union> spans (L - own_table st self)) self st st'"
  using inv ok shape k room
proof (cases rule: rebuild_cases)
  case refused
  then show thesis by (rule that(1))
next
  case (rebuilt fresh st1 st2)
  from rebuilt(4,5) ok rebuilt(6,2,11,12) obtain st3 where st3: "(if old \<noteq> 0 then map_free_block P h old else return ()) st2 = (Inr (), st3)"
      "inv (insert (fresh, unat (block_size (tables st2 fresh))) (L - own_table st self)) st3"
      "counted hash same ops st3 fresh" "tables st3 fresh = tables st2 fresh" "view st3 fresh ops = view st2 fresh ops"
      "maps st3 self = maps st self" "(fresh, unat (block_size (tables st2 fresh))) \<notin> L - own_table st self"
      "map_leaves (- territory \<union> spans (L - own_table st self)) self st st3"
    unfolding old_def by (rule adopt_table)
  let ?m = "(maps st3 self)\<lparr>map_table := fresh, map_cap := map_capacity_of slots\<rparr>"
  let ?st = "st3\<lparr>maps := (maps st3)(self := ?m)\<rparr>" and ?L = "insert (fresh, unat (block_size (tables st2 fresh))) (L - own_table st self)"
  have view': "view ?st fresh ops = view st3 fresh ops" by (simp add: view_def)
  have ct': "counted hash same ops ?st fresh" using st3(3) by (rule counted_cong) (simp_all add: view')
  have "self \<in> - territory \<union> spans ?L" using map_okD(2) [OF ok] by auto
  with st3(2) have inv': "inv ?L ?st" by (rule inv_set_map)
  have tab: "map_table (maps ?st self) = fresh" by simp
  have L': "?L = insert (fresh, unat (block_size (tables ?st fresh))) (L - own_table st self)" by (simp add: st3(4))
  note mk = map_ok_moved [OF tab rebuilt(2) _ _ _ ct' L' _ map_okD(2) [OF ok]]
  have ok': "map_ok hash same h territory ?L ?st self ops" and cut: "?L - own_table ?st self = L - own_table st self"
    using mk st3(4,6,7) rebuilt(8,10) map_okD(1) [OF ok] by simp_all
  have "map_leaves (- territory \<union> spans (L - own_table st self)) self st ?st"
    by (rule map_leaves_trans [OF st3(8) map_leaves_set_map])
  moreover have "entries same ?st self ops = entries same st self ops"
    using rebuilt(2,7) by (simp add: entries_def [of _ ?st] view' st3(5) fun_eq_iff)
  ultimately show thesis
    using rebuilt(1-3,9) st3(1,4,6) inv' ok' cut unfolding old_def [symmetric]
    by (intro that(2) [of fresh st1 st2 st3 ?st ?L]) simp_all
qed

lemma bound_map: "map_ok hash same h territory L st self ops \<Longrightarrow> inv L st \<Longrightarrow> loke_rt_v1_map_bind self st = (Inr (), st)"
  using map_okD(1) handle by (fastforce simp: loke_rt_v1_map_bind_def bind_def rt_simps)

lemma len_room: "map_ok hash same h territory L st self ops \<Longrightarrow> 0 \<le> map_len (maps st self) \<and> map_len (maps st self) \<le> map_cap (maps st self)"
proof (cases "map_table (maps st self) = 0")
  case False
  assume ok: "map_ok hash same h territory L st self ops"
  then have ct: "counted hash same ops st (map_table (maps st self))" using map_okD(5) [OF ok] False by simp
  then show ?thesis using map_okD(5) [OF ok] False countedD(4-6) [OF ct] by auto
qed (use map_okD(4) in fastforce)

lemma reserve_run:
  assumes inv: "inv L st" and ok: "map_ok hash same h territory L st self ops" and n: "0 \<le> n"
  obtains (refused) st' where "loke_rt_v1_map_reserve P self ops n st = (Inr False, st')" and "inv L st'"
      and "untouched (- territory \<union> spans L) st st'"
  | (reserved) st' L' where "loke_rt_v1_map_reserve P self ops n st = (Inr True, st')" and "inv L' st'"
      and "map_ok hash same h territory L' st' self ops" and "L' - own_table st' self = L - own_table st self"
      and "entries same st' self ops = entries same st self ops" and "n \<le> map_cap (maps st' self)"
      and "map_leaves (- territory \<union> spans (L - own_table st self)) self st st'"
proof -
  let ?m = "maps st self" and ?old = "map_table (maps st self)"
  let ?need = "if n < map_len ?m then map_len ?m else n"
  note reserve_def = loke_rt_v1_map_reserve_def bind_def rt_simps Let_def bound_map [OF ok inv] map_okD(1) [OF ok] set_map_def
  show thesis
  proof (cases "n \<le> map_cap ?m \<and> (?old \<noteq> 0 \<or> n = 0)")
    case True
    then have "loke_rt_v1_map_reserve P self ops n st = (Inr True, st)" using n by (simp add: reserve_def)
    with True inv ok show thesis by (intro that(2) [of st L]) auto
  next
    case False
    show thesis
    proof (cases rule: slots_for_cases [of ?need st])
      case none
      then have "loke_rt_v1_map_reserve P self ops n st = (Inr False, st)" using n False by (simp add: reserve_def)
      with inv show thesis by (intro that(1) [of st]) auto
    next
      case (some k)
      show thesis
      proof (cases "map_block_shape ops (2 ^ k)")
        case None
        then have "loke_rt_v1_map_reserve P self ops n st = (Inr False, st)" using n False some by (simp add: reserve_def)
        with inv show thesis by (intro that(1) [of st]) auto
      next
        case (Some shape)
        have room: "map_len ?m \<le> map_capacity_of (2 ^ k)" "n \<le> map_capacity_of (2 ^ k)"
          using \<open>?need \<le> map_capacity_of (2 ^ k)\<close> by (auto split: if_splits)
        from inv ok Some refl some(2,3) room(1) show thesis
        proof (cases rule: resize_table)
          case (refused st')
          then have "loke_rt_v1_map_reserve P self ops n st = (Inr False, st')" using n False some(1) Some by (simp add: reserve_def)
          with refused show thesis by (intro that(1)) auto
        next
          case (changed fresh st1 st2 st3 st' L')
          have "loke_rt_v1_map_reserve P self ops n st = (Inr True, st')"
            using n False some(1) Some changed(1-5) by (cases "?old = 0") (auto simp add: reserve_def)
          with changed room(2) show thesis by (intro that(2)) auto
        qed
      qed
    qed
  qed
qed

lemma shrink_run:
  assumes inv: "inv L st" and ok: "map_ok hash same h territory L st self ops" and n: "0 \<le> n"
  obtains (refused) st' where "loke_rt_v1_map_shrink P self ops n st = (Inr False, st')" and "inv L st'"
      and "untouched (- territory \<union> spans L) st st'"
  | (shrunk) st' L' where "loke_rt_v1_map_shrink P self ops n st = (Inr True, st')" and "inv L' st'"
      and "map_ok hash same h territory L' st' self ops" and "L' - own_table st' self = L - own_table st self"
      and "entries same st' self ops = entries same st self ops" and "map_cap (maps st' self) \<le> map_cap (maps st self)"
      and "map_leaves (- territory \<union> spans (L - own_table st self)) self st st'"
proof -
  let ?m = "maps st self" and ?old = "map_table (maps st self)"
  let ?want = "if map_len ?m < n then n else map_len ?m" and ?now = "slot_count (tables st (map_table (maps st self)))"
  note shrink_def = loke_rt_v1_map_shrink_def bind_def rt_simps Let_def map_okD(1) [OF ok] set_map_def
  note result = that
  have same_state: thesis if "loke_rt_v1_map_shrink P self ops n st = (Inr True, st)"
    using that inv ok result(2) [of st L] by simp
  show thesis
  proof (cases "?old = 0")
    case True
    then show thesis using n by (intro same_state) (simp add: shrink_def)
  next
    case False
    then have ct: "counted hash same ops st ?old" and cap: "map_cap ?m = map_capacity_of ?now" using map_okD(5) [OF ok] by auto
    from countedD(1) [OF ct] obtain ko where ko: "?now = 2 ^ ko" "3 \<le> ko" "ko \<le> 62" by (rule table_at_count)
    show thesis
    proof (cases rule: slots_for_cases [of ?want st])
      case none
      then have "loke_rt_v1_map_shrink P self ops n st = (Inr False, st)" using n False by (simp add: shrink_def)
      with inv show thesis by (intro that(1) [of st]) auto
    next
      case (some k)
      define k1 where "k1 = (if (2 :: int) ^ k > ?now then ko else k)"
      have k1: "(if 2 ^ k > ?now then ?now else 2 ^ k) = 2 ^ k1" "3 \<le> k1" "k1 \<le> 62" "k1 \<le> ko"
        using ko some power_increasing_iff [of "2 :: int" k ko] by (auto simp: k1_def not_less)
      have room: "map_len ?m \<le> map_capacity_of (2 ^ k1)"
        using some(4) len_room [OF ok] cap ko(1) by (auto simp: k1_def split: if_splits)
      have less: "map_capacity_of (2 ^ k1) \<le> map_cap ?m" using capacity_mono [OF k1(2,4)] cap ko(1) by simp
      show thesis
      proof (cases "2 ^ k1 = ?now \<and> tombstones (tables st ?old) = 0")
        case True
        then show thesis using n False some(1) k1(1) by (intro same_state) (simp add: shrink_def)
      next
        case go: False
        show thesis
        proof (cases "map_block_shape ops (2 ^ k1)")
          case None
          with go have "loke_rt_v1_map_shrink P self ops n st = (Inr False, st)" using n False some(1) k1(1) by (simp add: shrink_def)
          with inv show thesis by (intro that(1) [of st]) auto
        next
          case (Some shape)
          from inv ok Some refl k1(2,3) room show thesis
          proof (cases rule: resize_table)
            case (refused st')
            with go have "loke_rt_v1_map_shrink P self ops n st = (Inr False, st')" using n False some(1) k1(1) Some by (simp add: shrink_def)
            with refused show thesis by (intro that(1)) auto
          next
            case (changed fresh st1 st2 st3 st' L')
            have "loke_rt_v1_map_shrink P self ops n st = (Inr True, st')"
              using n False go some(1) k1(1) Some changed(1-5) by (auto simp add: shrink_def)
            with changed less show thesis by (intro that(2)) auto
          qed
        qed
      qed
    qed
  qed
qed

section \<open>Storing through the slot an entry answers\<close>

lemma slot_write:
  assumes inv: "inv L st" and ok: "map_ok hash same h territory L st self ops" and p: "slot_of same ops st self k p"
    and v: "length v = unat (elem_size ops)"
  defines "st' \<equiv> st\<lparr>mem := store (mem st) p v\<rparr>"
  shows "inv L st'" and "map_ok hash same h territory L st' self ops" and "own_table st' self = own_table st self"
    and "entries same st' self ops q = (if same k q then Some v else entries same st self ops q)"
    and "map_leaves (- territory \<union> spans (L - own_table st self)) self st st'"
proof -
  let ?t = "map_table (maps st self)" and ?cs = "view st (map_table (maps st self)) ops"
  from p obtain i where t: "?t \<noteq> 0" and i: "i < nat (slot_count (tables st ?t))" "p = map_value_at st ?t ops (int i)"
      "occ (?cs ! i)" "same (ckey (?cs ! i)) k" by (auto simp: slot_of_def Let_def)
  have ct: "counted hash same ops st ?t" and inL: "(?t, unat (block_size (tables st ?t))) \<in> L" using map_okD(5) [OF ok] t by auto
  note c = countedD [OF ct]
  have lay: "layout_ok ops (tables st ?t)" using c(1) by (simp add: table_at_def)
  have fields: "maps st' = maps st" "tables st' = tables st" by (simp_all add: st'_def)
  have pin: "span p (length v) \<subseteq> span ?t (unat (block_size (tables st ?t)))"
    unfolding i(2) value_at_off v using slot_order(6) [OF lay i(1)] by (rule span_sub)
  have w: "writes ?t (unat (block_size (tables st ?t))) st st'"
    unfolding writes_def st'_def using pin v less_imp_le [OF unat_u64_lt]
    by (intro exI [of _ "store (mem st) p v"] exI [of _ "tables st ?t"]) (auto intro!: store_outside)
  show "inv L st'" using inv inL w by (rule inv_writes)
  show own: "own_table st' self = own_table st self" by (simp add: own_table_def fields Let_def)
  have vw: "view st' ?t ops = ?cs[i := (fst (?cs ! i), ckey (?cs ! i), v)]"
    unfolding view_def fields using cells_store_val [OF lay i(1) v, of "mem st" ?t] by (simp add: st'_def i(2) value_at_off ckey_def)
  have i': "i < length ?cs" using i(1) by simp
  note wc = write_cell [OF c(2) same_equiv i' i(3), of v, folded vw]
  have "counted hash same ops st' ?t"
    using wc(1,3-5) ct by (simp add: counted_def Let_def fields table_at_def)
  then show "map_ok hash same h territory L st' self ops" using ok unfolding map_ok_def Let_def own fields by simp
  have "same (ckey (?cs ! i)) q = same k q" using i(4) same_equiv by (auto simp: equivp_def)
  then show "entries same st' self ops q = (if same k q then Some v else entries same st self ops q)"
    using wc(2) [of q] t by (simp add: entries_def fields)
  show "map_leaves (- territory \<union> spans (L - own_table st self)) self st st'"
    using w
  proof (rule map_leaves_writes)
    show "(- territory \<union> spans (L - own_table st self)) \<inter> span ?t (unat (block_size (tables st ?t))) = {}"
      using live_inside [OF inv inL] t by (auto simp: block_in_def own_table_def Let_def)
  qed (rule c(8))
qed

section \<open>Clear\<close>

lemma emptying_step:
  assumes x: "emptying self t st x" and t: "table_at ops st t" and i: "i < nat (slot_count (tables st t))"
    and plain: "key_drop ops = None" "elem_drop ops = None"
  obtains y where "map_drop_entry self t ops (int i) x = (Inr (), y)" and "emptying self t st y"
proof -
  have lay: "layout_ok ops (tables st t)" using t by (simp add: table_at_def)
  have ain: "span (t + of_nat (ctl_off (tables st t) i)) 1 \<subseteq> span t (unat (block_size (tables st t)))"
    using slot_order(8) [OF lay i] by (rule span_sub)
  then have a: "t + of_nat (ctl_off (tables st t) i) \<in> span t (unat (block_size (tables st t)))" by (auto simp: span_def lessThan_Suc)
  have "fst (map_drop_entry self t ops (int i) x) = Inr ()"
    by (cases "control x t (int i) = LOKE_RT_MAP_OCCUPIED")
      (simp_all add: map_drop_entry_def map_take_out_def run_drop_def bind_def rt_simps set_control_def set_table_def set_map_def plain)
  then obtain y where y: "map_drop_entry self t ops (int i) x = (Inr (), y)" by (metis prod.collapse)
  moreover have "emptying self t st y"
  proof -
    let ?c = "t + of_nat (ctl_off (tables st t) i)"
    have ctl: "map_controls z t + of_nat i = ?c" if "emptying self t st z" for z
      using that by (auto simp: control_off emptying_def ctl_off_def)
    define x1 where "x1 = (if control x t (int i) = LOKE_RT_MAP_OCCUPIED then x\<lparr>mem := (mem x)(?c := LOKE_RT_MAP_VALUE_OWED),
        tables := (tables x)(t := (tables x t)\<lparr>occupied := occupied (tables x t) - 1, tombstones := tombstones (tables x t) + 1\<rparr>),
        maps := (maps x)(self := (maps x self)\<lparr>map_len := map_len (maps x self) - 1\<rparr>)\<rparr> else x)"
    have x1: "emptying self t st x1"
      unfolding x1_def using emptying_len [OF emptying_counts [OF emptying_byte [OF x a]]] x by simp
    have "y = (if control x1 t (int i) = LOKE_RT_MAP_VALUE_OWED then x1\<lparr>mem := (mem x1)(?c := LOKE_RT_MAP_TOMBSTONE)\<rparr> else x1)"
      using y ctl [OF x] ctl [OF x1] unfolding x1_def
      by (simp add: map_drop_entry_def map_take_out_def run_drop_def bind_def rt_simps set_control_def set_table_def set_map_def plain split: if_splits)
    then show ?thesis using emptying_byte [OF x1 a] x1 by simp
  qed
  ultimately show thesis by (rule that)
qed

lemma emptying_refl: "emptying self t st st"
  unfolding emptying_def
  by (intro exI [of _ "mem st"] exI [of _ "occupied (tables st t)"] exI [of _ "tombstones (tables st t)"] exI [of _ "map_len (maps st self)"]) simp

lemma emptying_run:
  assumes t: "table_at ops st t" and plain: "key_drop ops = None" "elem_drop ops = None"
  obtains y where "map_drop_entries self t ops st = (Inr (), y)" and "emptying self t st y"
proof -
  let ?N = "nat (slot_count (tables st t))"
  let ?loop = "while_proc (\<lambda>i st. i < slot_count (tables st t)) (\<lambda>i. bind (map_drop_entry self t ops i) (\<lambda>_. return (i + 1)))"
  have N: "0 \<le> slot_count (tables st t)" using t by (rule table_at_count) simp
  have "\<exists>z y. ?loop (int i) x = (Inr z, y) \<and> emptying self t st y" if "emptying self t st x" "i \<le> ?N" for i x
    using that
  proof (induction "?N - i" arbitrary: i x)
    case 0
    then have "slot_count (tables x t) \<le> int i" using N by (auto simp: emptying_def)
    with 0 show ?case by (subst while_proc_stop) auto
  next
    case (Suc n)
    then have i: "i < ?N" by simp
    from Suc.prems(1) t i plain obtain y where y: "map_drop_entry self t ops (int i) x = (Inr (), y)" "emptying self t st y"
      by (rule emptying_step)
    have "int i < slot_count (tables x t)" using Suc.prems(1) i by (auto simp: emptying_def)
    then have "?loop (int i) x = ?loop (int (Suc i)) y" using y(1) by (subst while_proc_step) (auto simp: bind_def rt_simps)
    with Suc.hyps(1) [OF _ y(2), of "Suc i"] Suc.hyps(2) i show ?case by simp
  qed
  from this [OF emptying_refl, of 0] show thesis using that by (auto simp: map_drop_entries_def bind_def rt_simps)
qed

lemma clear_run:
  assumes inv: "inv L st" and ok: "map_ok hash same h territory L st self ops" and plain: "key_drop ops = None" "elem_drop ops = None"
  obtains st' where "loke_rt_v1_map_clear self ops st = (Inr (), st')" and "inv L st'" and "map_ok hash same h territory L st' self ops"
    and "own_table st' self = own_table st self" and "entries same st' self ops = (\<lambda>_. None)" and "map_len (maps st' self) = 0"
    and "map_cap (maps st' self) = map_cap (maps st self)"
    and "map_leaves (- territory \<union> spans (L - own_table st self)) self st st'"
proof (cases "map_table (maps st self) = 0")
  case True
  then show thesis using inv ok map_okD(4) [OF ok] by (intro that [of st]) (simp_all add: loke_rt_v1_map_clear_def bind_def rt_simps entries_def fun_eq_iff Let_def)
next
  case False
  let ?t = "map_table (maps st self)"
  let ?h = "tables st ?t"
  have ct: "counted hash same ops st ?t" and inL: "(?t, unat (block_size ?h)) \<in> L" and cap: "map_cap (maps st self) = map_capacity_of (slot_count ?h)"
    using map_okD(5) [OF ok] False by auto
  note c = countedD [OF ct]
  have lay: "layout_ok ops ?h" using c(1) by (simp add: table_at_def)
  from c(1) obtain k where k: "slot_count ?h = 2 ^ k" "nat (slot_count ?h) = 2 ^ k" "3 \<le> k" "k \<le> 62" by (rule table_at_count)
  have N: "unat (word_of_int (slot_count ?h) :: u64) = nat (slot_count ?h)"
    using k(1,4) power_increasing [of k 62 "2 :: int"] by (intro unat_word_of_int) simp_all
  let ?N = "nat (slot_count ?h)"
  from c(1) plain obtain y where y: "map_drop_entries self ?t ops st = (Inr (), y)" "emptying self ?t st y" by (rule emptying_run)
  then obtain m o' d l where y_eq: "y = st\<lparr>mem := m, tables := (tables st)(?t := ?h\<lparr>occupied := o', tombstones := d\<rparr>),
       maps := (maps st)(self := (maps st self)\<lparr>map_len := l\<rparr>)\<rparr>" and m: "\<And>a. a \<notin> span ?t (unat (block_size ?h)) \<Longrightarrow> m a = mem st a"
    by (auto simp: emptying_def)
  define m' where "m' = store m (map_controls st ?t) (replicate ?N LOKE_RT_MAP_EMPTY)"
  define st' where "st' = st\<lparr>mem := m', tables := (tables st)(?t := ?h\<lparr>occupied := 0, tombstones := 0\<rparr>),
       maps := (maps st)(self := (maps st self)\<lparr>map_len := 0\<rparr>)\<rparr>"
  have run: "loke_rt_v1_map_clear self ops st = (Inr (), st')"
    using False y(1) N by (simp add: loke_rt_v1_map_clear_def bind_def rt_simps Let_def memset_def set_table_def set_map_def y_eq st'_def m'_def)
  have cin: "span (map_controls st ?t) ?N \<subseteq> span ?t (unat (block_size ?h))"
  proof -
    have "unat (controls_offset ?h) + ?N \<le> unat (block_size ?h)" using slot_order(8) [OF lay, of "?N - 1"] k(1) by (simp add: ctl_off_def nat_power_eq)
    then show ?thesis using span_sub [of "unat (controls_offset ?h)" ?N "unat (block_size ?h)" ?t] by (simp add: map_controls_def)
  qed
  have Nle: "?N \<le> 2 ^ 64" using N unat_u64_lt [of "word_of_int (slot_count ?h)"] by simp
  have m'_out: "m' a = mem st a" if "a \<notin> span ?t (unat (block_size ?h))" for a
    using that m cin Nle unfolding m'_def by (subst store_outside) auto
  have m'_ctl: "m' (?t + of_nat (ctl_off ?h i)) = LOKE_RT_MAP_EMPTY" if "i < ?N" for i
    using that store_at [of i "replicate ?N LOKE_RT_MAP_EMPTY" m "map_controls st ?t"] Nle
    by (simp add: m'_def control_off)
  have vw: "fst cl = LOKE_RT_MAP_EMPTY" if "cl \<in> set (view st' ?t ops)" for cl
  proof -
    have "view st' ?t ops = cells m' (?h\<lparr>occupied := 0, tombstones := 0\<rparr>) ?t ops" by (simp add: view_def st'_def)
    also have "\<dots> = cells m' ?h ?t ops" by (rule cells_header) simp_all
    finally have "cl \<in> set (cells m' ?h ?t ops)" using that by simp
    then show ?thesis using m'_ctl by (auto simp: cells_def)
  qed
  have no: "\<not> occ cl" if "cl \<in> set (view st' ?t ops)" for cl using vw [OF that] by (simp add: occ_def)
  have w: "writes ?t (unat (block_size ?h)) st (st\<lparr>mem := m', tables := (tables st)(?t := ?h\<lparr>occupied := 0, tombstones := 0\<rparr>)\<rparr>)"
    unfolding writes_def using m'_out by blast
  have tab: "map_table (maps st' self) = ?t" by (simp add: st'_def)
  have hd: "tables st' ?t = ?h\<lparr>occupied := 0, tombstones := 0\<rparr>" by (simp add: st'_def)
  have inv': "inv L st'"
    using inv_set_map [OF inv_writes [OF inv inL w] map_okD(3) [OF ok], of "(maps st self)\<lparr>map_len := 0\<rparr>"] by (simp add: st'_def)
  have own: "own_table st' self = own_table st self" unfolding own_table_def tab Let_def by (simp add: hd)
  have ct': "counted hash same ops st' ?t"
  proof -
    have "n_occ (view st' ?t ops) = 0" using no by (auto simp: n_occ_def filter_empty_conv)
    moreover have "n_dead (view st' ?t ops) = 0" using vw control_values(4) by (fastforce simp: n_dead_def filter_empty_conv)
    moreover have "table_ok hm same (view st' ?t ops)" for hm using no by (auto simp: table_ok_def simp del: length_view)
    moreover have "tidy (view st' ?t ops)" using vw by (auto simp: tidy_def list_all_iff)
    moreover have "table_at ops st' ?t" using c(1) by (simp add: table_at_def layout_ok_def Let_def hd)
    moreover have "0 \<le> map_capacity_of (slot_count ?h)" using len_room [OF ok] cap by simp
    ultimately show ?thesis using c(7) by (simp add: counted_def Let_def hd)
  qed
  have ok': "map_ok hash same h territory L st' self ops"
    using ok ct' cap False unfolding map_ok_def Let_def own tab hd by (simp add: st'_def)
  have "lookup same (view st' ?t ops) q = None" for q using no by (simp add: lookup_None)
  then have ent: "entries same st' self ops = (\<lambda>_. None)" by (simp add: entries_def tab fun_eq_iff Let_def)
  have "map_leaves (- territory \<union> spans (L - own_table st self)) self st st'"
  proof -
    have "(- territory \<union> spans (L - own_table st self)) \<inter> span ?t (unat (block_size ?h)) = {}"
      using live_inside [OF inv inL] False by (auto simp: block_in_def own_table_def Let_def)
    from map_leaves_trans [OF map_leaves_writes [OF w this c(8)] map_leaves_set_map, of self "(maps st self)\<lparr>map_len := 0\<rparr>"]
    show ?thesis by (simp add: st'_def)
  qed
  then show thesis using run inv' ok' own ent by (intro that) (simp_all add: st'_def)
qed

end

end
