(* ===== verification/Loke_Map_Clone.thy ===== *)
theory Loke_Map_Clone
  imports Loke_Map_Resize
begin

text \<open>
  Dropping and cloning a map: the block goes back to the provider, and a clone is a copy of the whole
  block with the same entries in storage of its own.
\<close>

section \<open>The copy of a table\<close>

lemma cells_copy:
  assumes lay: "layout_ok ops tb"
  shows "cells (store m p (load m' t (unat (block_size tb)))) tb p ops = cells m' tb t ops"
proof -
  let ?n = "unat (block_size tb)" and ?m = "store m p (load m' t (unat (block_size tb)))"
  have at: "?m (p + of_nat j) = m' (t + of_nat j)" if "j < ?n" for j
    using that store_at [of j "load m' t ?n" m p] less_imp_le [OF unat_u64_lt] by simp
  have part: "load ?m (p + of_nat j) c = load m' (t + of_nat j) c" if "j + c \<le> ?n" for j c
    using that at by (intro nth_equalityI) (simp_all add: add.assoc flip: of_nat_add)
  show ?thesis
    unfolding cells_def using slot_order(6-8) [OF lay] at part by (intro map_cong) (auto simp: Suc_le_eq)
qed

context map_provider
begin

section \<open>Drop\<close>

lemma drop_run:
  assumes inv: "inv L st" and ok: "map_ok hash same h territory L st self ops" and plain: "key_drop ops = None" "elem_drop ops = None"
  obtains st' where "loke_rt_v1_map_drop P self ops st = (Inr (), st')" and "inv (L - own_table st self) st'"
    and "maps st' self = zero_map" and "map_leaves (- territory \<union> spans (L - own_table st self)) self st st'"
proof (cases "map_table (maps st self) = 0")
  case True
  then have "own_table st self = {}" by (simp add: own_table_def)
  with True inv inv_set_map [OF inv map_okD(3) [OF ok]] show thesis
    by (intro that [of "st\<lparr>maps := (maps st)(self := zero_map)\<rparr>"])
      (simp_all add: loke_rt_v1_map_drop_def bind_def rt_simps set_map_def map_leaves_set_map)
next
  case False
  let ?t = "map_table (maps st self)"
  have inL: "(?t, unat (block_size (tables st ?t))) \<in> L" using map_okD(5) [OF ok] False by auto
  have own: "own_table st self = {(?t, unat (block_size (tables st ?t)))}" using False by (simp add: own_table_def Let_def)
  from inv inL obtain st1 where st1: "map_free_block P h ?t st = (Inr (), st1)" "inv (L - own_table st self) st1"
      "untouched (- territory \<union> spans (L - own_table st self)) st st1"
    unfolding own by (rule free_table)
  have "map_leaves (- territory \<union> spans (L - own_table st self)) self st (st1\<lparr>maps := (maps st1)(self := zero_map)\<rparr>)"
    by (rule map_leaves_trans [OF map_leaves_untouched [OF st1(3)] map_leaves_set_map])
  with False st1(1) inv_set_map [OF st1(2) map_okD(2) [OF ok]] map_okD(1) [OF ok] plain show thesis
    by (intro that [of "st1\<lparr>maps := (maps st1)(self := zero_map)\<rparr>"])
      (simp_all add: loke_rt_v1_map_drop_def bind_def rt_simps set_map_def)
qed

section \<open>Clone\<close>

text \<open>With no clone hook every slot of the copied block is already what it should be.\<close>

lemma clone_slots:
  assumes "tidy (view st fresh ops)" and "key_clone ops = None" "elem_clone ops = None" and "0 \<le> slot_count (tables st fresh)"
  shows "while_proc (\<lambda>(i, ok) st. ok \<and> i < slot_count (tables st fresh)) (\<lambda>(i, ok). map_clone_slot ops fresh source a i) (0, True) st =
    (Inr (slot_count (tables st fresh), True), st)"
proof -
  let ?N = "nat (slot_count (tables st fresh))"
  let ?loop = "while_proc (\<lambda>(i, ok) st. ok \<and> i < slot_count (tables st fresh)) (\<lambda>(i, ok). map_clone_slot ops fresh source a i)"
  have "?loop (int i, True) st = (Inr (slot_count (tables st fresh), True), st)" if "i \<le> ?N" for i
    using that
  proof (induction "?N - i" arbitrary: i)
    case 0
    then have "int i = slot_count (tables st fresh)" using assms(4) by simp
    then show ?case by (subst while_proc_stop) auto
  next
    case (Suc n)
    then have i: "i < ?N" by simp
    have "control st fresh (int i) = fst (view st fresh ops ! i)" using view_nth(1) [OF i, of ops] by simp
    moreover have "fst (view st fresh ops ! i) \<in> {LOKE_RT_MAP_EMPTY, LOKE_RT_MAP_TOMBSTONE, LOKE_RT_MAP_OCCUPIED}"
      using assms(1) i by (auto simp: tidy_def list_all_length)
    ultimately have "control st fresh (int i) \<noteq> LOKE_RT_MAP_VALUE_OWED"
      by (auto simp: LOKE_RT_MAP_EMPTY_def LOKE_RT_MAP_TOMBSTONE_def LOKE_RT_MAP_OCCUPIED_def LOKE_RT_MAP_VALUE_OWED_def)
    then have "map_clone_slot ops fresh source a (int i) st = (Inr (int (Suc i), True), st)"
      using assms(2,3) by (auto simp: map_clone_slot_def bind_def rt_simps run_clone_def)
    then have "?loop (int i, True) st = ?loop (int (Suc i), True) st" using i by (subst while_proc_step) auto
    with Suc.hyps(1) [of "Suc i"] Suc.hyps(2) i show ?case by simp
  qed
  from this [of 0] show ?thesis by simp
qed

lemma map_ok_leaves:
  assumes ok: "map_ok hash same h territory L st self ops" and L: "L \<subseteq> L'" and lv: "map_leaves (- territory \<union> spans L) out st st'"
    and ne: "out \<noteq> self"
  shows "map_ok hash same h territory L' st' self ops" and "entries same st' self ops = entries same st self ops"
    and "own_table st' self = own_table st self"
proof -
  let ?t = "map_table (maps st self)"
  have m: "maps st' self = maps st self" using lv map_okD(3) [OF ok] ne by (auto simp: map_leaves_def)
  have v: "tables st' ?t = tables st ?t \<and> view st' ?t ops = view st ?t ops \<and> counted hash same ops st' ?t" if "?t \<noteq> 0"
  proof -
    have ct: "counted hash same ops st ?t" and inL: "(?t, unat (block_size (tables st ?t))) \<in> L" using map_okD(5) [OF ok] that by auto
    have "span ?t (unat (block_size (tables st ?t))) \<subseteq> - territory \<union> spans L" using spans_member [OF inL order_refl] by blast
    from map_leaves_view [OF lv countedD(1) [OF ct] this countedD(8) [OF ct]] counted_cong [OF ct] show ?thesis by blast
  qed
  show own: "own_table st' self = own_table st self" unfolding own_table_def m Let_def using v by simp
  show "entries same st' self ops = entries same st self ops" unfolding entries_def m Let_def using v by (simp add: fun_eq_iff)
  have "spans (L - own_table st self) \<subseteq> spans (L' - own_table st self)" using L by (intro spans_mono) blast
  then show "map_ok hash same h territory L' st' self ops"
    using ok L v unfolding map_ok_def Let_def own m by (cases "?t = 0") auto
qed

lemma entries_none:
  assumes ok: "map_ok hash same h territory L st self ops" and none: "map_table (maps st self) = 0 \<or> map_len (maps st self) = 0"
  shows "entries same st self ops = (\<lambda>_. None)"
proof (cases "map_table (maps st self) = 0")
  case False
  let ?t = "map_table (maps st self)"
  have ct: "counted hash same ops st ?t" and "occupied (tables st ?t) = 0" using none False map_okD(5) [OF ok] by auto
  with countedD(4) [OF ct] have "\<forall>c \<in> set (view st ?t ops). \<not> occ c" by (simp add: n_occ_def filter_empty_conv)
  then show ?thesis by (simp add: entries_def fun_eq_iff lookup_None Let_def)
qed (simp add: entries_def fun_eq_iff)

text \<open>A table copied byte for byte into a fresh block, and the map that then points to it.\<close>

lemma copied_view:
  assumes ct: "counted hash same ops st t" and src: "tables st1 t = tables st t" "view st1 t ops = view st t ops"
    and st2: "st2 = st1\<lparr>mem := store (mem st1) p (load (mem st1) t (unat (block_size (tables st t)))), tables := (tables st1)(p := tables st t)\<rparr>"
  shows "map_copy_block p t st1 = (Inr (), st2)" and "tables st2 p = tables st t" and "view st2 p ops = view st t ops"
    and "writes p (unat (block_size (tables st t))) st1 st2"
proof -
  have lay: "layout_ok ops (tables st t)" using countedD(1) [OF ct] by (simp add: table_at_def)
  show "map_copy_block p t st1 = (Inr (), st2)"
    by (simp add: map_copy_block_def bind_def rt_simps memcpy_def set_table_def st2 src(1))
  show "writes p (unat (block_size (tables st t))) st1 st2"
    unfolding writes_def st2 using less_imp_le [OF unat_u64_lt] by (auto intro!: store_outside)
  show hd2: "tables st2 p = tables st t" by (simp add: st2)
  have "view st2 p ops = cells (store (mem st1) p (load (mem st1) t (unat (block_size (tables st t))))) (tables st t) p ops"
    unfolding view_def hd2 by (simp add: st2)
  also have "\<dots> = cells (mem st1) (tables st t) t ops" by (rule cells_copy [OF lay])
  finally show "view st2 p ops = view st t ops" using src by (simp add: view_def)
qed

lemma copied_map:
  assumes ok: "map_ok hash same h territory L st self ops" and src: "map_table (maps st self) \<noteq> 0"
    and inv2: "inv (insert (p, n) L) st2" and new: "(p, n) \<notin> L" "p \<noteq> 0" and out: "out \<in> - territory \<union> spans L"
    and hd2: "tables st2 p = tables st (map_table (maps st self))" and vw: "view st2 p ops = view st (map_table (maps st self)) ops"
    and n: "n = unat (block_size (tables st (map_table (maps st self))))"
    and m: "m = \<lparr>map_table = p, map_len = map_len (maps st self), map_cap = map_cap (maps st self), map_allocator = h\<rparr>"
    and st': "st' = st2\<lparr>maps := (maps st2)(out := m)\<rparr>"
  shows "inv (insert (p, n) L) st'" and "insert (p, n) L - own_table st' out = L"
    and "map_ok hash same h territory (insert (p, n) L) st' out ops" and "entries same st' out ops = entries same st self ops"
proof -
  let ?t = "map_table (maps st self)" and ?h = "tables st (map_table (maps st self))"
  have ct: "counted hash same ops st ?t" and len: "map_len (maps st self) = occupied ?h"
    and mcap: "map_cap (maps st self) = map_capacity_of (slot_count ?h)"
    using map_okD(5) [OF ok] src by auto
  have tab: "map_table (maps st' out) = p" "tables st' p = ?h" by (simp_all add: st' m hd2)
  have vw': "view st' p ops = view st ?t ops" using vw by (simp add: view_def st')
  have ct': "counted hash same ops st' p" using ct by (simp add: counted_def Let_def table_at_def tab vw')
  have own: "own_table st' out = {(p, n)}" using new by (simp add: own_table_def Let_def tab n)
  show "inv (insert (p, n) L) st'" unfolding st' using inv2 by (rule inv_set_map) (use out in auto)
  show rest: "insert (p, n) L - own_table st' out = L" using new by (simp add: own)
  have mo: "maps st' out = m" by (simp add: st')
  show "map_ok hash same h territory (insert (p, n) L) st' out ops"
    using rest unfolding map_ok_def Let_def own mo using new ct' out len mcap by (simp add: m tab(2))
  show "entries same st' out ops = entries same st self ops" using new src by (simp add: entries_def tab vw' fun_eq_iff)
qed

lemma clone_run:
  assumes inv: "inv L st" and ok: "map_ok hash same h territory L st self ops" and plain: "key_clone ops = None" "elem_clone ops = None"
    and out: "out \<in> - territory \<union> spans (L - own_table st self)" "out \<noteq> self"
  obtains (refused) st' where "loke_rt_v1_map_clone P out self ops h st = (Inr False, st')" and "inv L st'"
      and "maps st' out = zero_map\<lparr>map_allocator := h\<rparr>" and "map_leaves (- territory \<union> spans L) out st st'"
  | (cloned) st' L' where "loke_rt_v1_map_clone P out self ops h st = (Inr True, st')" and "inv L' st'"
      and "L' - own_table st' out = L" and "map_ok hash same h territory L' st' out ops"
      and "entries same st' out ops = entries same st self ops" and "map_leaves (- territory \<union> spans L) out st st'"
proof -
  let ?src = "map_table (maps st self)" and ?z = "zero_map\<lparr>map_allocator := h\<rparr>"
  define st0 where "st0 = st\<lparr>maps := (maps st)(out := ?z)\<rparr>"
  have outL: "out \<in> - territory \<union> spans L" using out(1) spans_mono [of "L - own_table st self" L] by blast
  have inv0: "inv L st0" unfolding st0_def using inv outL by (rule inv_set_map)
  have lv0: "map_leaves (- territory \<union> spans L) out st st0" unfolding st0_def by (rule map_leaves_set_map)
  have f0: "maps st0 self = maps st self" "tables st0 = tables st" "maps st0 out = ?z" "mem st0 = mem st" using out(2) by (simp_all add: st0_def)
  have start: "loke_rt_v1_map_clone P out self ops h st = (if ?src = 0 \<or> map_len (maps st self) = 0 then return True
     else bind (loke_rt_v1_alloc P h (block_size (tables st ?src)) (block_align (tables st ?src))) (\<lambda>fresh.
       if fresh = 0 then return False
       else bind (map_copy_block fresh ?src) (\<lambda>_.
         bind (while_proc (\<lambda>(i, ok) st. ok \<and> i < slot_count (tables st fresh))
                 (\<lambda>(i, ok). map_clone_slot ops fresh ?src h i) (0, True)) (\<lambda>(i, ok). bind get_state (\<lambda>st.
         if i < slot_count (tables st fresh)
         then bind (map_unclone ops fresh i) (\<lambda>_. bind (map_free_block P h fresh) (\<lambda>_. return False))
         else bind (set_map out (\<lambda>m. m\<lparr>map_table := fresh, map_len := map_len (maps st self), map_cap := map_cap (maps st self)\<rparr>))
           (\<lambda>_. return True)))))) st0"
    unfolding loke_rt_v1_map_clone_def Let_def set_map_def bind_return [OF get_state_run] bind_return [OF modify_run]
    by (simp add: st0_def [symmetric] f0)
  show thesis
  proof (cases "?src = 0 \<or> map_len (maps st self) = 0")
    case True
    have "entries same st0 out ops = entries same st self ops"
      unfolding entries_none [OF ok True] by (simp add: entries_def f0 fun_eq_iff zero_map_def)
    moreover have own: "own_table st0 out = {}" by (simp add: own_table_def f0 zero_map_def)
    moreover have "map_ok hash same h territory L st0 out ops"
      unfolding map_ok_def Let_def own f0 using outL by (simp add: zero_map_def)
    ultimately show thesis using True start inv0 lv0 by (intro that(2) [of st0 L]) (simp_all add: rt_simps)
  next
    case False
    let ?h = "tables st ?src"
    have ct: "counted hash same ops st ?src" and inL: "(?src, unat (block_size ?h)) \<in> L"
      using map_okD(5) [OF ok] False by auto
    note c = countedD [OF ct]
    have pos: "0 < block_size ?h" using c(8) by (simp add: word_less_nat_alt)
    from alloc_law [OF inv0 pos block_pow2] obtain p st1 where
      p: "loke_rt_v1_alloc P h (block_size ?h) (block_align ?h) st0 = (Inr p, st1)" "untouched (- territory \<union> spans L) st0 st1"
        "if p = 0 then inv L st1 else inv (insert (p, unat (block_size ?h)) L) st1 \<and> (p, unat (block_size ?h)) \<notin> L"
      unfolding c(7) by metis
    have lv1: "map_leaves (- territory \<union> spans L) out st st1" by (rule map_leaves_trans [OF lv0 map_leaves_untouched [OF p(2)]])
    have m1: "maps st1 out = ?z" using p(2) outL by (auto simp: untouched_def agree_def f0)
    show thesis
    proof (cases "p = 0")
      case True
      then show thesis using False start p(1,3) lv1 m1 by (intro that(1) [of st1]) (simp_all add: bind_def rt_simps)
    next
      case ne: False
      then have inv1: "inv (insert (p, unat (block_size ?h)) L) st1" and new: "(p, unat (block_size ?h)) \<notin> L" using p(3) by simp_all
      have blk: "block_in L territory p (unat (block_size ?h))" using live_inside [OF inv1 insertI1] new by simp
      have sub: "span ?src (unat (block_size ?h)) \<subseteq> - territory \<union> spans L" using spans_member [OF inL order_refl] by blast
      note v1 = map_leaves_view [OF lv1 c(1) sub c(8)]
      have self1: "maps st1 self = maps st self" using lv1 map_okD(3) [OF ok] out(2) by (auto simp: map_leaves_def)
      define st2 where "st2 = st1\<lparr>mem := store (mem st1) p (load (mem st1) ?src (unat (block_size ?h))), tables := (tables st1)(p := ?h)\<rparr>"
      note copy = copied_view [OF ct v1(1,2) st2_def]
      have N: "0 \<le> slot_count ?h" using c(1) by (rule table_at_count) simp
      define m where "m = \<lparr>map_table = p, map_len = map_len (maps st self), map_cap = map_cap (maps st self), map_allocator = h\<rparr>"
      define st' where "st' = st2\<lparr>maps := (maps st2)(out := m)\<rparr>"
      have "while_proc (\<lambda>(i, ok) st. ok \<and> i < slot_count (tables st p)) (\<lambda>(i, ok). map_clone_slot ops p ?src h i) (0, True) st2 =
          (Inr (slot_count ?h, True), st2)"
        using clone_slots [where st = st2 and fresh = p] c(3) plain N by (simp add: copy(2,3))
      moreover have "maps st2 self = maps st self" "maps st2 out = ?z" using self1 m1 by (simp_all add: st2_def)
      ultimately have run: "loke_rt_v1_map_clone P out self ops h st = (Inr True, st')"
        unfolding start using False p(1) ne copy(1)
        by (simp add: bind_def rt_simps copy(2) set_map_def st'_def m_def zero_map_def)
      have "map_leaves (- territory \<union> spans L) out st1 st2"
        using copy(4) by (rule map_leaves_writes) (use blk in \<open>auto simp: block_in_def\<close>)
      then have lv: "map_leaves (- territory \<union> spans L) out st st'"
        unfolding st'_def using map_leaves_trans [OF lv1] map_leaves_trans [OF _ map_leaves_set_map] by blast
      have "?src \<noteq> 0" using False by simp
      note cm = copied_map [OF ok this inv_writes [OF inv1 insertI1 copy(4)] new ne outL copy(2,3) refl m_def st'_def]
      from run cm lv show thesis by (rule that(2))
    qed
  qed
qed

end

end
