(* ===== verification/Loke_Map_Refine.thy ===== *)
theory Loke_Map_Refine
  imports Loke_Map_Clone
begin

text \<open>
  The map as a whole against its specification, a finite map: every call a program can make, for any
  provider and key type that keep their contracts, and then for byte keys hashed by the runtime in a
  fixed-buffer arena.
\<close>

section \<open>Definitions\<close>

text \<open>The hash of a run of bytes, and the container record of a key type that is its bytes, hashed by it.
  Alignments are powers of two.\<close>

definition loke_rt_v1_hash_bytes :: "u8 list \<Rightarrow> u64 \<Rightarrow> u64" where
  "loke_rt_v1_hash_bytes data s =
     (foldl (\<lambda>h d. (h XOR ucast d) * 1099511628211) s data XOR of_nat (length data)) * 1099511628211"

definition byte_key_ops :: "u64 \<Rightarrow> nat \<Rightarrow> u64 \<Rightarrow> nat \<Rightarrow> 'w container_ops" where
  "byte_key_ops ks i vs j = \<lparr>elem_size = vs, elem_align = 2 ^ (j mod 64), elem_drop = None, elem_clone = None,
     key_size = ks, key_align = 2 ^ (i mod 64), key_drop = None, key_clone = None,
     key_hash = (\<lambda>st p s. loke_rt_v1_hash_bytes (load (mem st) p (unat ks)) s),
     key_equal = (\<lambda>st p q. load (mem st) p (unat ks) = load (mem st) q (unat ks))\<rparr>"

text \<open>The calls a program makes on a map: \<open>m[k] = v\<close> is an entry and a store through the slot it answers.\<close>

datatype map_call = Map_put addr "u8 list" | Map_get addr addr | Map_take addr addr | Map_reserve int | Map_shrink int | Map_clear

definition map_run :: "'w providers \<Rightarrow> addr \<Rightarrow> 'w container_ops \<Rightarrow> map_call \<Rightarrow> ('w rt, bool) proc" where
  "map_run P self ops c = (case c of
     Map_put key v \<Rightarrow> bind (loke_rt_v1_map_entry P self ops key) (\<lambda>(p, inserted).
       if p = 0 then return False
       else bind (modify (\<lambda>st. st\<lparr>mem := store (mem st) p v\<rparr>)) (\<lambda>_. return True))
   | Map_get key out \<Rightarrow> bind (loke_rt_v1_map_find self ops key) (\<lambda>p.
       if p = 0 then return False else bind (memcpy out p (elem_size ops)) (\<lambda>_. return True))
   | Map_take key out \<Rightarrow> loke_rt_v1_map_remove self ops key out
   | Map_reserve n \<Rightarrow> loke_rt_v1_map_reserve P self ops n
   | Map_shrink n \<Rightarrow> loke_rt_v1_map_shrink P self ops n
   | Map_clear \<Rightarrow> bind (loke_rt_v1_map_clear self ops) (\<lambda>_. return True))"

text \<open>The same calls on a finite map from key bytes to value bytes.\<close>

definition finite_call :: "(u8 list \<Rightarrow> u8 list \<Rightarrow> bool) \<Rightarrow> (addr \<Rightarrow> u8 list) \<Rightarrow> map_call \<Rightarrow>
    (u8 list \<Rightarrow> u8 list option) \<Rightarrow> u8 list \<Rightarrow> u8 list option" where
  "finite_call same key_of c M = (case c of
     Map_put key v \<Rightarrow> (\<lambda>q. if same (key_of key) q then Some v else M q)
   | Map_take key out \<Rightarrow> (\<lambda>q. if same (key_of key) q then None else M q)
   | Map_clear \<Rightarrow> (\<lambda>_. None)
   | _ \<Rightarrow> M)"

text \<open>What the caller learns: whether the key was there, and its value in the result buffer.\<close>

definition answers :: "(addr \<Rightarrow> u8 list) \<Rightarrow> (addr \<Rightarrow> u8 list) \<Rightarrow> map_call \<Rightarrow> (u8 list \<Rightarrow> u8 list option) \<Rightarrow> bool \<Rightarrow> bool" where
  "answers key_of result c M r = (case c of
     Map_get key out \<Rightarrow> (case M (key_of key) of None \<Rightarrow> \<not> r | Some v \<Rightarrow> r \<and> result out = v)
   | Map_take key out \<Rightarrow> (case M (key_of key) of None \<Rightarrow> \<not> r | Some v \<Rightarrow> r \<and> result out = v)
   | Map_clear \<Rightarrow> r
   | _ \<Rightarrow> True)"

definition key_span :: "'w container_ops \<Rightarrow> map_call \<Rightarrow> addr set" where
  "key_span ops c = (case c of
     Map_put key v \<Rightarrow> span key (unat (key_size ops))
   | Map_get key out \<Rightarrow> span key (unat (key_size ops))
   | Map_take key out \<Rightarrow> span key (unat (key_size ops))
   | _ \<Rightarrow> {})"

definition out_span :: "'w container_ops \<Rightarrow> map_call \<Rightarrow> addr set" where
  "out_span ops c = (case c of
     Map_get key out \<Rightarrow> span out (unat (elem_size ops))
   | Map_take key out \<Rightarrow> span out (unat (elem_size ops))
   | _ \<Rightarrow> {})"

definition map_call_ok :: "addr set \<Rightarrow> 'w container_ops \<Rightarrow> map_call \<Rightarrow> bool" where
  "map_call_ok A ops c \<longleftrightarrow> key_span ops c \<subseteq> A \<and> out_span ops c \<subseteq> A \<and> key_span ops c \<inter> out_span ops c = {} \<and>
     (case c of Map_put key v \<Rightarrow> length v = unat (elem_size ops) | Map_reserve n \<Rightarrow> 0 \<le> n | Map_shrink n \<Rightarrow> 0 \<le> n | _ \<Rightarrow> True)"

definition map_simulated :: "(u8 list \<Rightarrow> u64 \<Rightarrow> u64) \<Rightarrow> (u8 list \<Rightarrow> u8 list \<Rightarrow> bool) \<Rightarrow> addr \<Rightarrow> addr set \<Rightarrow> (live \<Rightarrow> 'w rt \<Rightarrow> bool) \<Rightarrow>
    addr \<Rightarrow> 'w container_ops \<Rightarrow> map_call \<Rightarrow> live \<Rightarrow> 'w rt \<Rightarrow> bool \<Rightarrow> live \<Rightarrow> 'w rt \<Rightarrow> bool" where
  "map_simulated hash same h territory keeps self ops c L st r L' st' \<longleftrightarrow>
     keeps L' st' \<and> map_ok hash same h territory L' st' self ops \<and> L' - own_table st' self = L - own_table st self \<and>
     entries same st' self ops =
       (if r then finite_call same (key_bytes ops st) c (entries same st self ops) else entries same st self ops) \<and>
     answers (key_bytes ops st) (value_bytes ops st') c (entries same st self ops) r \<and>
     map_leaves (- territory \<union> spans (L - own_table st self) - out_span ops c) self st st'"

section \<open>Every call is the finite-map call\<close>

context map_provider
begin

lemma map_refused:
  assumes ok: "map_ok hash same h territory L st self ops" and inv': "inv L st'" and un: "untouched (- territory \<union> spans L) st st'"
    and c: "answers (key_bytes ops st) (value_bytes ops st') c (entries same st self ops) False"
  shows "map_simulated hash same h territory inv self ops c L st False L st'"
proof -
  let ?t = "map_table (maps st self)"
  have m: "maps st' self = maps st self" using un map_okD(3) [OF ok] by (auto simp: untouched_def agree_def)
  have v: "tables st' ?t = tables st ?t \<and> view st' ?t ops = view st ?t ops \<and> counted hash same ops st' ?t" if "?t \<noteq> 0"
  proof -
    have ct: "counted hash same ops st ?t" and inL: "(?t, unat (block_size (tables st ?t))) \<in> L" using map_okD(5) [OF ok] that by auto
    have "span ?t (unat (block_size (tables st ?t))) \<subseteq> - territory \<union> spans L" using spans_member [OF inL order_refl] by blast
    from map_leaves_view [OF map_leaves_untouched [OF un] countedD(1) [OF ct] this countedD(8) [OF ct]] counted_cong [OF ct]
    show ?thesis by blast
  qed
  have own: "own_table st' self = own_table st self" unfolding own_table_def m Let_def using v by simp
  have "entries same st' self ops = entries same st self ops" unfolding entries_def m Let_def using v by (simp add: fun_eq_iff)
  moreover have "map_ok hash same h territory L st' self ops"
    using ok v unfolding map_ok_def Let_def own m by (cases "?t = 0") auto
  moreover have "map_leaves (- territory \<union> spans (L - own_table st self) - out_span ops c) self st st'"
    by (rule map_leaves_mono [OF map_leaves_untouched [OF un]]) (use spans_mono [of "L - own_table st self" L] in blast)
  ultimately show ?thesis unfolding map_simulated_def using inv' c own by simp
qed

lemma put_simulates:
  assumes inv: "inv L st" and ok: "map_ok hash same h territory L st self ops" and plain: "key_clone ops = None"
    and c: "map_call_ok (- territory \<union> spans (L - own_table st self)) ops (Map_put key v)"
  shows "\<exists>r st' L'. map_run P self ops (Map_put key v) st = (Inr r, st') \<and>
    map_simulated hash same h territory inv self ops (Map_put key v) L st r L' st'"
proof -
  let ?k = "key_bytes ops st key"
  have key: "span key (unat (key_size ops)) \<subseteq> - territory \<union> spans (L - own_table st self)" and v: "length v = unat (elem_size ops)"
    using c by (simp_all add: map_call_ok_def key_span_def)
  have put: "map_run P self ops (Map_put key v) st = (Inr True, st1\<lparr>mem := store (mem st1) p v\<rparr>)"
    if "loke_rt_v1_map_entry P self ops key st = (Inr (p, b), st1)" "p \<noteq> 0" for p b st1
    using that by (simp add: map_run_def bind_def rt_simps)
  from inv ok plain key show ?thesis
  proof (cases rule: entry_cases)
    case (refused st')
    then have "map_run P self ops (Map_put key v) st = (Inr False, st')" by (simp add: map_run_def bind_def rt_simps)
    moreover have "map_simulated hash same h territory inv self ops (Map_put key v) L st False L st'"
      using ok refused(2,3) by (rule map_refused) (simp add: answers_def)
    ultimately show ?thesis by blast
  next
    case (found p)
    note w = slot_write [OF inv ok found(2) v]
    have "map_simulated hash same h territory inv self ops (Map_put key v) L st True L (st\<lparr>mem := store (mem st) p v\<rparr>)"
      using w by (simp add: map_simulated_def finite_call_def answers_def out_span_def fun_eq_iff)
    with put [OF found(1) slot_value(1) [OF inv ok found(2)]] show ?thesis by blast
  next
    case (inserted p st1 L')
    note w = slot_write [OF inserted(2,4,7) v]
    have "entries same (st1\<lparr>mem := store (mem st1) p v\<rparr>) self ops q = (if same ?k q then Some v else entries same st self ops q)" for q
      using w(4) [of q] inserted(6) [of q] by simp
    moreover have "map_leaves (- territory \<union> spans (L - own_table st self)) self st (st1\<lparr>mem := store (mem st1) p v\<rparr>)"
      using map_leaves_trans [OF inserted(8)] w(5) inserted(5) by simp
    ultimately have "map_simulated hash same h territory inv self ops (Map_put key v) L st True L' (st1\<lparr>mem := store (mem st1) p v\<rparr>)"
      using w(1-3) inserted(5) by (simp add: map_simulated_def finite_call_def answers_def out_span_def fun_eq_iff)
    with put [OF inserted(1) slot_value(1) [OF inserted(2,4,7)]] show ?thesis by blast
  qed
qed

lemma get_simulates:
  assumes inv: "inv L st" and ok: "map_ok hash same h territory L st self ops"
    and c: "map_call_ok (- territory \<union> spans (L - own_table st self)) ops (Map_get key out)"
  shows "\<exists>r st' L'. map_run P self ops (Map_get key out) st = (Inr r, st') \<and>
    map_simulated hash same h territory inv self ops (Map_get key out) L st r L' st'"
proof -
  have out: "span out (unat (elem_size ops)) \<subseteq> - territory \<union> spans (L - own_table st self)"
    using c by (simp add: map_call_ok_def out_span_def)
  from find_run [OF inv ok, of key] obtain p where p: "loke_rt_v1_map_find self ops key st = (Inr p, st)"
      "if p = 0 then entries same st self ops (key_bytes ops st key) = None else slot_of same ops st self (key_bytes ops st key) p" by blast
  show ?thesis
  proof (cases "p = 0")
    case True
    then have "map_run P self ops (Map_get key out) st = (Inr False, st)" using p(1) by (simp add: map_run_def bind_def rt_simps)
    with True p(2) inv ok show ?thesis
      by (intro exI [of _ False] exI [of _ st] exI [of _ L]) (simp add: map_simulated_def answers_def)
  next
    case False
    let ?v = "value_bytes ops st p"
    have ent: "entries same st self ops (key_bytes ops st key) = Some ?v" using slot_value(2) [OF inv ok] False p(2) by simp
    have run: "map_run P self ops (Map_get key out) st = (Inr True, st\<lparr>mem := store (mem st) out ?v\<rparr>)"
      using p(1) False by (simp add: map_run_def bind_def rt_simps memcpy_def)
    have out': "span out (length ?v) \<subseteq> - territory \<union> spans (L - own_table st self)" using out by simp
    have len: "length ?v \<le> 2 ^ 64" using less_imp_le [OF unat_u64_lt] by simp
    note w = client_write [OF inv ok out' len]
    have "value_bytes ops (st\<lparr>mem := store (mem st) out ?v\<rparr>) out = ?v" using load_store_same [OF len, of "mem st" out] by simp
    then have "map_simulated hash same h territory inv self ops (Map_get key out) L st True L (st\<lparr>mem := store (mem st) out ?v\<rparr>)"
      using w ent by (simp add: map_simulated_def finite_call_def answers_def out_span_def)
    with run show ?thesis by blast
  qed
qed

lemma map_call_simulates:
  assumes inv: "inv L st" and ok: "map_ok hash same h territory L st self ops"
    and plain: "key_clone ops = None" "key_drop ops = None" "elem_drop ops = None"
    and c: "map_call_ok (- territory \<union> spans (L - own_table st self)) ops c"
  shows "\<exists>r st' L'. map_run P self ops c st = (Inr r, st') \<and> map_simulated hash same h territory inv self ops c L st r L' st'"
proof (cases c)
  case (Map_put key v)
  then show ?thesis using put_simulates [OF inv ok plain(1)] c by simp
next
  case (Map_get key out)
  then show ?thesis using get_simulates [OF inv ok] c by simp
next
  case (Map_take key out)
  with c have "span key (unat (key_size ops)) \<subseteq> - territory \<union> spans (L - own_table st self)"
      "span out (unat (elem_size ops)) \<subseteq> - territory \<union> spans (L - own_table st self)"
      "span key (unat (key_size ops)) \<inter> span out (unat (elem_size ops)) = {}"
    by (simp_all add: map_call_ok_def key_span_def out_span_def)
  from inv ok plain(2) this show ?thesis
  proof (rule remove_run)
    fix st' assume run: "loke_rt_v1_map_remove self ops key out st = (Inr (entries same st self ops (key_bytes ops st key) \<noteq> None), st')"
      and keeps: "inv L st'" "map_ok hash same h territory L st' self ops" "own_table st' self = own_table st self"
      and out: "value_bytes ops st' out = (case entries same st self ops (key_bytes ops st key) of
        None \<Rightarrow> replicate (unat (elem_size ops)) 0 | Some v \<Rightarrow> v)"
      and gone: "\<And>q. entries same st' self ops q = (if same (key_bytes ops st key) q then None else entries same st self ops q)"
      and lv: "map_leaves (- territory \<union> spans (L - own_table st self) - span out (unat (elem_size ops))) self st st'"
    have "entries same st' self ops = (if entries same st self ops (key_bytes ops st key) \<noteq> None
        then (\<lambda>q. if same (key_bytes ops st key) q then None else entries same st self ops q) else entries same st self ops)"
      using gone entries_same [of "key_bytes ops st key" _ st self] by (auto simp: fun_eq_iff)
    with keeps out lv have "map_simulated hash same h territory inv self ops c L st (entries same st self ops (key_bytes ops st key) \<noteq> None) L st'"
      by (auto simp: Map_take map_simulated_def finite_call_def answers_def out_span_def split: option.splits)
    with run show ?thesis by (auto simp: Map_take map_run_def)
  qed
next
  case (Map_reserve n)
  with c have n: "0 \<le> n" by (simp add: map_call_ok_def)
  from inv ok n show ?thesis
  proof (cases rule: reserve_run)
    case (refused st')
    have "map_simulated hash same h territory inv self ops c L st False L st'"
      using ok refused(2,3) by (rule map_refused) (simp add: Map_reserve answers_def)
    with refused(1) show ?thesis by (auto simp: Map_reserve map_run_def)
  next
    case (reserved st' L')
    then show ?thesis
      by (intro exI [of _ True] exI [of _ st'] exI [of _ L']) (simp add: Map_reserve map_run_def map_simulated_def finite_call_def answers_def out_span_def)
  qed
next
  case (Map_shrink n)
  with c have n: "0 \<le> n" by (simp add: map_call_ok_def)
  from inv ok n show ?thesis
  proof (cases rule: shrink_run)
    case (refused st')
    have "map_simulated hash same h territory inv self ops c L st False L st'"
      using ok refused(2,3) by (rule map_refused) (simp add: Map_shrink answers_def)
    with refused(1) show ?thesis by (auto simp: Map_shrink map_run_def)
  next
    case (shrunk st' L')
    then show ?thesis
      by (intro exI [of _ True] exI [of _ st'] exI [of _ L']) (simp add: Map_shrink map_run_def map_simulated_def finite_call_def answers_def out_span_def)
  qed
next
  case Map_clear
  from inv ok plain(2,3) show ?thesis
  proof (rule clear_run)
    fix st' assume "loke_rt_v1_map_clear self ops st = (Inr (), st')" "inv L st'" "map_ok hash same h territory L st' self ops"
      "own_table st' self = own_table st self" "entries same st' self ops = (\<lambda>_. None)"
      "map_leaves (- territory \<union> spans (L - own_table st self)) self st st'"
    then show ?thesis
      by (intro exI [of _ True] exI [of _ st'] exI [of _ L])
        (simp add: Map_clear map_run_def map_simulated_def finite_call_def answers_def out_span_def bind_def rt_simps)
  qed
qed

end

section \<open>Maps keyed by bytes in a fixed-buffer arena\<close>

lemma byte_key_block: "pow2 (map_block_align (byte_key_ops ks i vs j))"
proof -
  have nz: "(2 :: u64) ^ (x mod 64) \<noteq> 0" for x
    using unat_pow2 [of "x mod 64"] by (metis mod_less_divisor power_not_zero unat_0 zero_less_numeral zero_neq_numeral)
  have "pow2 (2 ^ (x mod 64))" for x unfolding pow2_def by (intro exI [of _ "x mod 64"]) simp
  moreover have "pow2 8" unfolding pow2_def by (intro exI [of _ 3]) simp
  ultimately show ?thesis by (simp add: map_block_align_def byte_key_ops_def sane_container_align_def nz Let_def)
qed

lemma byte_key_plain: "key_clone (byte_key_ops ks i vs j) = None" "elem_clone (byte_key_ops ks i vs j) = None"
    "key_drop (byte_key_ops ks i vs j) = None" "elem_drop (byte_key_ops ks i vs j) = None"
  by (simp_all add: byte_key_ops_def)

interpretation byte_map: map_provider "providers H k" a "fixed_territory a b n" "fixed_inv a b n"
    "byte_key_ops ks i vs j" loke_rt_v1_hash_bytes "(=)"
  for H :: "'w host" and k a b n ks i vs j
proof
  show "key_hash (byte_key_ops ks i vs j) st p s = loke_rt_v1_hash_bytes (load (mem st) p (unat (key_size (byte_key_ops ks i vs j)))) s"
    for st :: "'w rt" and p s by (simp add: byte_key_ops_def)
  show "key_equal (byte_key_ops ks i vs j) st p q =
      (load (mem st) p (unat (key_size (byte_key_ops ks i vs j))) = load (mem st) q (unat (key_size (byte_key_ops ks i vs j))))"
    for st :: "'w rt" and p q by (simp add: byte_key_ops_def)
qed (simp_all add: identity_equivp byte_key_block)

section \<open>Properties\<close>

text \<open>C1. A map of byte keys in a fixed-buffer arena is a finite map: each call of a program ends, and either is
  refused, with the map and the arena's blocks as they were, or acts on the entries as the finite-map
  operation (\<open>m[k] = v\<close>, lookup, removal, clear; reserve and shrink change no entry). Lookup and removal
  answer whether the key is present and its value, the map stays well-formed, and nothing outside it but
  the result buffer changes.\<close>

theorem map_refines_finite_map:
  fixes st :: "'w rt"
  assumes "fixed_inv a b n L st"
    and "map_ok loke_rt_v1_hash_bytes (=) a (fixed_territory a b n) L st self (byte_key_ops ks i vs j)"
    and "map_call_ok (- fixed_territory a b n \<union> spans (L - own_table st self)) (byte_key_ops ks i vs j :: 'w container_ops) c"
  shows "\<exists>r st' L'. map_run (providers H k) self (byte_key_ops ks i vs j) c st = (Inr r, st') \<and>
    map_simulated loke_rt_v1_hash_bytes (=) a (fixed_territory a b n) (fixed_inv a b n) self (byte_key_ops ks i vs j) c L st r L' st'"
  by (rule byte_map.map_call_simulates [OF assms(1,2) byte_key_plain(1,3,4) assms(3)])


text \<open>C31. A table that is described at all is described correctly: header, control bytes, keys and values follow
  each other in the block without overlap and end inside it, no size wrapped around, and keys, values
  and block have the alignments their types ask for.\<close>

theorem map_block_layout:
  assumes "map_block_shape ops slots = Some t" and "0 \<le> slots" and "slots \<le> INT64_MAX"
  shows "slot_count t = slots \<and> unat SIZEOF_TABLE \<le> unat (controls_offset t) \<and>
    unat (controls_offset t) + nat slots \<le> unat (keys_offset t) \<and>
    unat (keys_offset t) + nat slots * unat (key_size ops) \<le> unat (values_offset t) \<and>
    unat (values_offset t) + nat slots * unat (elem_size ops) \<le> unat (block_size t) \<and>
    unat (sane_container_align (key_align ops)) dvd unat (keys_offset t) \<and>
    unat (sane_container_align (elem_align ops)) dvd unat (values_offset t) \<and>
    unat (block_align t) dvd unat (block_size t) \<and> 8 \<le> unat (block_align t)"
  using map_block_shape_Some [OF assms] by (simp add: layout_ok_def Let_def SIZEOF_TABLE_def)

theorem map_block_layout_witness:
  "\<exists>t. map_block_shape (byte_key_ops 4 2 8 3 :: unit container_ops) 8 = Some t \<and>
    unat (values_offset t) + 64 \<le> unat (block_size t) \<and> 8 dvd unat (values_offset t)"
proof -
  let ?t = "\<lparr>slot_count = 8, occupied = 0, tombstones = 0, seed = 0, controls_offset = 72, keys_offset = 80,
    values_offset = 112, block_size = 176, block_align = 8\<rparr>"
  have "map_block_shape (byte_key_ops 4 2 8 3 :: unit container_ops) 8 = Some ?t" by code_simp
  with map_block_layout [OF this] show ?thesis by (simp add: INT64_MAX_def byte_key_ops_def sane_container_align_def)
qed

section \<open>A concrete map\<close>

text \<open>An empty map of one-byte keys and values at address 512, in the arena of 256 bytes at address 4096.\<close>

definition sample_map :: "unit rt" where
  "sample_map = sample_arena\<lparr>maps := (\<lambda>_. zero_map\<lparr>map_allocator := 4096\<rparr>)\<rparr>"

lemma sample_map_ok:
  "fixed_inv 4096 4176 144 {} sample_map"
  "map_ok loke_rt_v1_hash_bytes (=) 4096 (fixed_territory 4096 4176 144) {} sample_map 512 (byte_key_ops 1 0 1 0)"
  "512 \<in> - fixed_territory 4096 4176 144" "768 \<in> - fixed_territory 4096 4176 144"
proof -
  show "fixed_inv 4096 4176 144 {} sample_map" using sample_inv by (simp add: sample_map_def fixed_inv_def handle_ok_def)
  show away: "512 \<in> - fixed_territory 4096 4176 144" "768 \<in> - fixed_territory 4096 4176 144" using sample_away [of 512] sample_away [of 768] by simp_all
  show "map_ok loke_rt_v1_hash_bytes (=) 4096 (fixed_territory 4096 4176 144) {} sample_map 512 (byte_key_ops 1 0 1 0)"
    using away by (simp add: map_ok_def sample_map_def zero_map_def own_table_def)
qed

theorem map_refines_finite_map_witness:
  "\<exists>r st' L'. map_run (providers sample_host 0) 512 (byte_key_ops 1 0 1 0) (Map_put 600 [7]) sample_map = (Inr r, st') \<and>
    map_simulated loke_rt_v1_hash_bytes (=) 4096 (fixed_territory 4096 4176 144) (fixed_inv 4096 4176 144) 512
      (byte_key_ops 1 0 1 0) (Map_put 600 [7]) {} sample_map r L' st'"
proof (rule map_refines_finite_map [OF sample_map_ok(1,2)])
  have "span 600 1 \<subseteq> - fixed_territory 4096 4176 144" using sample_away [of 600] by (auto simp: span_def)
  then show "map_call_ok (- fixed_territory 4096 4176 144 \<union> spans ({} - own_table sample_map 512))
      (byte_key_ops 1 0 1 0 :: unit container_ops) (Map_put 600 [7])"
    by (auto simp: map_call_ok_def key_span_def out_span_def byte_key_ops_def)
qed


end
