(* ===== verification/Loke_Map_Unwind.thy ===== *)
theory Loke_Map_Unwind
  imports Loke_Map Loke_Dyn_Ops Loke_Map_Table
begin

text \<open>
  Walks over the entries of a map, and the account of what a map still owes to the drop hooks of its
  keys and values when one of them panics.
\<close>

section \<open>Walking the entries\<close>

text \<open>A walk as the compiler writes it: scan from the cursor the last step answered until a step answers
  that the walk is finished.  A walk that did not end would be \<open>None\<close>.\<close>

definition scan_step :: "'w rt \<Rightarrow> addr \<Rightarrow> 'w container_ops \<Rightarrow> int \<Rightarrow> (int \<times> addr \<times> addr) option" where
  "scan_step st t ops cursor = (case fst (loke_rt_v1_map_scan t ops cursor st) of
     Inr (next, Some entry) \<Rightarrow> Some (next, entry)
   | _ \<Rightarrow> None)"

partial_function (option) map_walk :: "'w rt \<Rightarrow> addr \<Rightarrow> 'w container_ops \<Rightarrow> int \<Rightarrow> (addr \<times> addr) list option" where
  "map_walk st t ops cursor = (case scan_step st t ops cursor of
     None \<Rightarrow> Some []
   | Some (next, entry) \<Rightarrow> Option.bind (map_walk st t ops next) (\<lambda>rest. Some (entry # rest)))"

definition occupied_slots :: "'w rt \<Rightarrow> addr \<Rightarrow> int \<Rightarrow> int list" where
  "occupied_slots st t from = filter (\<lambda>i. control st t i = LOKE_RT_MAP_OCCUPIED) [from..slot_count (tables st t) - 1]"

lemma scan_from:
  assumes "n = nat (slot_count (tables st t) - i)" and "0 \<le> i"
  shows "map_scan_from st t ops n i = (case occupied_slots st t i of
    [] \<Rightarrow> (0, None) | j # _ \<Rightarrow> (j + 1, Some (map_key_at st t ops j, map_value_at st t ops j)))"
  using assms
proof (induction n arbitrary: i)
  case 0
  then show ?case by (simp add: occupied_slots_def)
next
  case (Suc n)
  then have "i \<le> slot_count (tables st t) - 1" by simp
  then have "[i..slot_count (tables st t) - 1] = i # [i + 1..slot_count (tables st t) - 1]" by (rule upto_rec1)
  moreover have "n = nat (slot_count (tables st t) - (i + 1))" using Suc.prems(1) by simp
  ultimately show ?case using Suc.IH [of "i + 1"] Suc.prems(2) by (simp add: occupied_slots_def)
qed

lemma occupied_rest: "occupied_slots st t i = j # js \<Longrightarrow> i \<le> j \<and> j < slot_count (tables st t) \<and> occupied_slots st t (j + 1) = js"
proof (induction "nat (slot_count (tables st t) - i)" arbitrary: i)
  case 0
  then show ?case by (simp add: occupied_slots_def)
next
  case (Suc n)
  then have "i \<le> slot_count (tables st t) - 1" by simp
  then have "[i..slot_count (tables st t) - 1] = i # [i + 1..slot_count (tables st t) - 1]" by (rule upto_rec1)
  moreover have "n = nat (slot_count (tables st t) - (i + 1))" using Suc.hyps(2) by simp
  ultimately show ?case using Suc.hyps(1) [of "i + 1"] Suc.prems \<open>i \<le> _\<close>
    by (cases "control st t i = LOKE_RT_MAP_OCCUPIED") (auto simp: occupied_slots_def)
qed

text \<open>C33. A walk over a table ends and visits every occupied slot exactly once, in table order, answering
  where its key and value are; on a map with no table it visits nothing.\<close>

theorem map_scan_complete:
  "map_walk st t ops 0 = Some (if t = 0 then [] else
     map (\<lambda>i. (map_key_at st t ops i, map_value_at st t ops i)) (filter (\<lambda>i. control st t i = LOKE_RT_MAP_OCCUPIED) [0..slot_count (tables st t) - 1]))"
proof (cases "t = 0")
  case True
  then show ?thesis by (subst map_walk.simps) (simp add: scan_step_def loke_rt_v1_map_scan_def bind_def rt_simps)
next
  case False
  let ?at = "\<lambda>i. (map_key_at st t ops i, map_value_at st t ops i)"
  have "map_walk st t ops i = Some (map ?at (occupied_slots st t i))" if "0 \<le> i" for i
    using that
  proof (induction "length (occupied_slots st t i)" arbitrary: i)
    case 0
    then have "scan_step st t ops i = None" using False by (simp add: scan_step_def loke_rt_v1_map_scan_def bind_def rt_simps scan_from)
    with 0 show ?case by (subst map_walk.simps) simp
  next
    case (Suc n)
    then obtain j js where j: "occupied_slots st t i = j # js" by (metis length_Suc_conv)
    note r = occupied_rest [OF j]
    have "scan_step st t ops i = Some (j + 1, ?at j)"
      using Suc.prems False j by (simp add: scan_step_def loke_rt_v1_map_scan_def bind_def rt_simps scan_from)
    moreover have "map_walk st t ops (j + 1) = Some (map ?at (occupied_slots st t (j + 1)))"
      using Suc.hyps(2) Suc.prems r j by (intro Suc.hyps(1)) auto
    ultimately show ?case using r by (subst map_walk.simps) (simp add: j)
  qed
  from this [of 0] False show ?thesis by (simp add: occupied_slots_def)
qed

section \<open>Drop hooks that panic\<close>

text \<open>What is still owed to the drop hooks: the key and the value of an occupied slot, the value alone of
  a slot whose key hook has run.\<close>

definition owed_at :: "'w container_ops \<Rightarrow> 'w rt \<Rightarrow> addr \<Rightarrow> int \<Rightarrow> addr list" where
  "owed_at ops st t i =
     (if control st t i = LOKE_RT_MAP_OCCUPIED then [map_key_at st t ops i, map_value_at st t ops i]
      else if control st t i = LOKE_RT_MAP_VALUE_OWED then [map_value_at st t ops i] else [])"

definition owed :: "'w container_ops \<Rightarrow> 'w rt \<Rightarrow> addr \<Rightarrow> addr list" where
  "owed ops st t = concat (map (owed_at ops st t) [0..slot_count (tables st t) - 1])"

text \<open>A hook that logs the address it is given, leaves the table alone, and returns or panics as it likes.\<close>

definition logs_in :: "addr \<Rightarrow> (addr \<Rightarrow> (addr list rt, unit) proc) \<Rightarrow> bool" where
  "logs_in t hook \<longleftrightarrow> (\<forall>p st. world (snd (hook p st)) = world st @ [p] \<and> tables (snd (hook p st)) t = tables st t \<and>
     (\<forall>i. control (snd (hook p st)) t i = control st t i))"

definition same_layout :: "addr \<Rightarrow> 'w rt \<Rightarrow> 'w rt \<Rightarrow> bool" where
  "same_layout t st x \<longleftrightarrow> slot_count (tables x t) = slot_count (tables st t) \<and> controls_offset (tables x t) = controls_offset (tables st t) \<and>
     keys_offset (tables x t) = keys_offset (tables st t) \<and> values_offset (tables x t) = values_offset (tables st t)"

lemma power63: "(2 :: int) ^ 63 < 2 ^ 64"
  by simp

lemma control_set:
  assumes "0 \<le> i" "i < 2 ^ 63" "0 \<le> j" "j < 2 ^ 63" and "same_layout t st x"
    and "mem x = (mem st)(map_controls st t + word_of_int i := c)"
  shows "control x t j = (if j = i then c else control st t j)"
proof -
  have "map_controls x t = map_controls st t" using assms(5) by (simp add: map_controls_def same_layout_def)
  moreover have "(word_of_int j :: u64) = word_of_int i \<longleftrightarrow> j = i"
    using assms(1-4) unat_word_of_int [of i] unat_word_of_int [of j] by (metis eq_nat_nat_iff less_trans [of _ "2 ^ 63" "2 ^ 64"] power63)
  ultimately show ?thesis using assms(6) by (simp add: control_def)
qed

lemma owed_values [simp]: "LOKE_RT_MAP_OCCUPIED \<noteq> LOKE_RT_MAP_VALUE_OWED" "LOKE_RT_MAP_TOMBSTONE \<noteq> LOKE_RT_MAP_VALUE_OWED"
    "LOKE_RT_MAP_EMPTY \<noteq> LOKE_RT_MAP_VALUE_OWED"
  by (simp_all add: LOKE_RT_MAP_EMPTY_def LOKE_RT_MAP_OCCUPIED_def LOKE_RT_MAP_TOMBSTONE_def LOKE_RT_MAP_VALUE_OWED_def)

lemma layout_addresses:
  "same_layout t st x \<Longrightarrow> map_key_at x t ops i = map_key_at st t ops i" "same_layout t st x \<Longrightarrow> map_value_at x t ops i = map_value_at st t ops i"
  by (simp_all add: same_layout_def map_key_at_def map_value_at_def)

lemma owed_at_cong: "same_layout t st x \<Longrightarrow> control x t j = control st t j \<Longrightarrow> owed_at ops x t j = owed_at ops st t j"
  by (simp add: owed_at_def layout_addresses)

text \<open>A hook on one part of slot \<open>i\<close>, after its control byte was set.\<close>

lemma hook_logged:
  assumes "logs_in t hook" and "hook p x = (r, y)"
  shows "world y = world x @ [p]" and "same_layout t x y" and "control y t j = control x t j"
  using assms by (auto simp: logs_in_def same_layout_def dest!: spec [of _ p] spec [of _ x])

lemma same_layout_trans: "same_layout t st x \<Longrightarrow> same_layout t x y \<Longrightarrow> same_layout t st y"
  by (simp add: same_layout_def)

lemma drop_entry_ledger:
  assumes hooks: "key_drop ops = Some kd" "elem_drop ops = Some vd" "logs_in t kd" "logs_in t vd"
    and i: "0 \<le> i" "i < N" and N: "N \<le> 2 ^ 63" and run: "map_drop_entry self t ops i x = (r, y)"
  obtains done' where "world y = world x @ done'" and "done' @ owed_at ops y t i = owed_at ops x t i" and "same_layout t x y"
    and "\<And>j. 0 \<le> j \<Longrightarrow> j < N \<Longrightarrow> j \<noteq> i \<Longrightarrow> owed_at ops y t j = owed_at ops x t j" and "r = Inr () \<Longrightarrow> owed_at ops y t i = []"
proof -
  note result = that
  have value_part: thesis
    if x': "control x' t i = LOKE_RT_MAP_VALUE_OWED" "same_layout t x x'" "world x' = world x @ ks" "ks @ [map_value_at x t ops i] = owed_at ops x t i"
      "\<And>j. 0 \<le> j \<Longrightarrow> j < N \<Longrightarrow> j \<noteq> i \<Longrightarrow> control x' t j = control x t j"
      and run': "vd (map_value_at x t ops i) (x'\<lparr>mem := (mem x')(map_controls x' t + word_of_int i := LOKE_RT_MAP_TOMBSTONE)\<rparr>) = (r, y)"
    for x' ks
  proof -
    let ?x = "x'\<lparr>mem := (mem x')(map_controls x' t + word_of_int i := LOKE_RT_MAP_TOMBSTONE)\<rparr>"
    have lay: "same_layout t x' ?x" by (simp add: same_layout_def)
    note y = hook_logged [OF hooks(4) run']
    have ctl: "control y t j = (if j = i then LOKE_RT_MAP_TOMBSTONE else control x' t j)" if "0 \<le> j" "j < N" for j
      unfolding y(3) using i N that by (intro control_set [OF _ _ _ _ lay]) auto
    have lay': "same_layout t x y" using same_layout_trans [OF x'(2) same_layout_trans [OF lay y(2)]] .
    have "owed_at ops y t i = []" using ctl [of i] i by (simp add: owed_at_def)
    moreover have "owed_at ops y t j = owed_at ops x t j" if "0 \<le> j" "j < N" "j \<noteq> i" for j
      using ctl [of j] x'(5) [of j] that by (intro owed_at_cong [OF lay']) simp
    ultimately show thesis using x'(3,4) y(1) lay' by (intro result [of "ks @ [map_value_at x t ops i]"]) simp_all
  qed
  consider (occ) "control x t i = LOKE_RT_MAP_OCCUPIED" | (owed) "control x t i = LOKE_RT_MAP_VALUE_OWED"
    | (free) "control x t i \<noteq> LOKE_RT_MAP_OCCUPIED" "control x t i \<noteq> LOKE_RT_MAP_VALUE_OWED" by blast
  then show thesis
  proof cases
    case occ
    define x1 where "x1 = x\<lparr>mem := (mem x)(map_controls x t + word_of_int i := LOKE_RT_MAP_VALUE_OWED),
      tables := (tables x)(t := (tables x t)\<lparr>occupied := occupied (tables x t) - 1, tombstones := tombstones (tables x t) + 1\<rparr>),
      maps := (maps x)(self := (maps x self)\<lparr>map_len := map_len (maps x self) - 1\<rparr>)\<rparr>"
    have lay: "same_layout t x x1" by (simp add: same_layout_def x1_def)
    have c1: "control x1 t j = (if j = i then LOKE_RT_MAP_VALUE_OWED else control x t j)" if "0 \<le> j" "j < N" for j
      using i N that by (intro control_set [OF _ _ _ _ lay]) (auto simp: x1_def)
    obtain r2 x2 where k: "kd (map_key_at x t ops i) x1 = (r2, x2)" by fastforce
    note h = hook_logged [OF hooks(3) k]
    have c2: "control x2 t i = LOKE_RT_MAP_VALUE_OWED" "\<And>j. 0 \<le> j \<Longrightarrow> j < N \<Longrightarrow> j \<noteq> i \<Longrightarrow> control x2 t j = control x t j"
      using c1 i by (auto simp: h(3))
    have lay2: "same_layout t x x2" using lay h(2) by (rule same_layout_trans)
    have w2: "world x2 = world x @ [map_key_at x t ops i]" using h(1) by (simp add: x1_def)
    have part: "map_take_out self t ops i x = (r2, x2)"
      using k by (simp add: map_take_out_def bind_def rt_simps set_control_def set_table_def set_map_def run_drop_def hooks x1_def [symmetric]
        layout_addresses(1) [OF lay])
    show thesis
    proof (cases r2)
      case (Inl e)
      then have "r = Inl e" "y = x2" using run occ part by (auto simp: map_drop_entry_def bind_def rt_simps)
      with c2 w2 lay2 show thesis
        by (intro result [of "[map_key_at x t ops i]"])
          (auto simp: owed_at_def occ layout_addresses [OF lay2] intro!: owed_at_cong [OF lay2])
    next
      case (Inr u)
      then have "vd (map_value_at x t ops i) (x2\<lparr>mem := (mem x2)(map_controls x2 t + word_of_int i := LOKE_RT_MAP_TOMBSTONE)\<rparr>) = (r, y)"
        using run occ part c2(1) by (simp add: map_drop_entry_def bind_def rt_simps set_control_def run_drop_def hooks map_value_at_def
          lay2 [unfolded same_layout_def])
      with c2 lay2 w2 show thesis by (intro value_part [of x2 "[map_key_at x t ops i]"]) (simp_all add: owed_at_def occ)
    qed
  next
    case owed
    then have "vd (map_value_at x t ops i) (x\<lparr>mem := (mem x)(map_controls x t + word_of_int i := LOKE_RT_MAP_TOMBSTONE)\<rparr>) = (r, y)"
      using run by (simp add: map_drop_entry_def bind_def rt_simps set_control_def run_drop_def hooks map_value_at_def)
    with owed show thesis by (intro value_part [of x "[]"]) (simp_all add: owed_at_def same_layout_def)
  next
    case free
    then have "r = Inr ()" "y = x" using run by (auto simp: map_drop_entry_def bind_def rt_simps)
    with free show thesis by (intro result [of "[]"]) (simp_all add: owed_at_def same_layout_def)
  qed
qed

lemma drop_loop_ledger:
  assumes hooks: "key_drop ops = Some kd" "elem_drop ops = Some vd" "logs_in t kd" "logs_in t vd"
    and N: "slot_count (tables x t) = N" "N \<le> 2 ^ 63" and i: "0 \<le> i"
    and run: "while_proc (\<lambda>i st. i < slot_count (tables st t)) (\<lambda>i. bind (map_drop_entry self t ops i) (\<lambda>_. return (i + 1))) i x = (r, z)"
  shows "same_layout t x z \<and> (\<forall>j. 0 \<le> j \<and> j < i \<and> j < N \<longrightarrow> owed_at ops z t j = owed_at ops x t j) \<and>
    world z @ concat (map (owed_at ops z t) [i..N - 1]) = world x @ concat (map (owed_at ops x t) [i..N - 1]) \<and>
    ((\<exists>u. r = Inr u) \<longrightarrow> (\<forall>j. i \<le> j \<and> j < N \<longrightarrow> owed_at ops z t j = []))"
  using N(1) i run
proof (induction "nat (N - i)" arbitrary: i x)
  case 0
  then have "r = Inr i \<and> z = x" by (simp add: while_proc_stop)
  with 0 show ?case by (auto simp: same_layout_def)
next
  case (Suc n)
  then have iN: "i < N" and split: "[i..N - 1] = i # [i + 1..N - 1]" by (simp_all add: upto_rec1)
  obtain r1 y where d: "map_drop_entry self t ops i x = (r1, y)" by fastforce
  from hooks \<open>0 \<le> i\<close> iN N(2) d obtain done' where e: "world y = world x @ done'" "done' @ owed_at ops y t i = owed_at ops x t i" "same_layout t x y"
      "\<And>j. 0 \<le> j \<Longrightarrow> j < N \<Longrightarrow> j \<noteq> i \<Longrightarrow> owed_at ops y t j = owed_at ops x t j" "r1 = Inr () \<Longrightarrow> owed_at ops y t i = []"
    by (rule drop_entry_ledger) blast
  have tail: "map (owed_at ops y t) [i + 1..N - 1] = map (owed_at ops x t) [i + 1..N - 1]" using e(4) Suc.prems(2) by simp
  have step: "while_proc (\<lambda>i st. i < slot_count (tables st t)) (\<lambda>i. bind (map_drop_entry self t ops i) (\<lambda>_. return (i + 1))) i x =
      (case r1 of Inl err \<Rightarrow> (Inl err, y) | Inr _ \<Rightarrow>
        while_proc (\<lambda>i st. i < slot_count (tables st t)) (\<lambda>i. bind (map_drop_entry self t ops i) (\<lambda>_. return (i + 1))) (i + 1) y)"
    using iN Suc.prems(1) d by (subst while_proc_unfold) (simp add: bind_def rt_simps split: sum.splits)
  show ?case
  proof (cases r1)
    case (Inl err)
    with step Suc.prems(3) have "r = Inl err" "z = y" by auto
    moreover have "world y @ concat (map (owed_at ops y t) [i..N - 1]) = world x @ concat (map (owed_at ops x t) [i..N - 1])"
      unfolding split list.map concat.simps tail e(1) e(2) [symmetric] by simp
    ultimately show ?thesis using e(3,4) by simp
  next
    case (Inr u)
    have sN: "slot_count (tables y t) = N" using e(3) Suc.prems(1) by (simp add: same_layout_def)
    have run': "while_proc (\<lambda>i st. i < slot_count (tables st t)) (\<lambda>i. bind (map_drop_entry self t ops i) (\<lambda>_. return (i + 1))) (i + 1) y = (r, z)"
      using step Suc.prems(3) Inr by simp
    have "n = nat (N - (i + 1))" "0 \<le> i + 1" using Suc.hyps(2) Suc.prems(2) by simp_all
    note ih = Suc.hyps(1) [OF this(1) sN this(2) run']
    have zi: "owed_at ops z t i = []" using ih iN Suc.prems(2) e(5) Inr by auto
    have "world z @ concat (map (owed_at ops z t) [i + 1..N - 1]) = world x @ done' @ concat (map (owed_at ops x t) [i + 1..N - 1])"
      using ih e(1) tail by simp
    moreover have "done' = owed_at ops x t i" using e(2,5) Inr by simp
    moreover have "owed_at ops z t j = []" if "i \<le> j" "j < N" "\<exists>u. r = Inr u" for j
      using ih zi that by (cases "j = i") auto
    moreover have "owed_at ops z t j = owed_at ops x t j" if "0 \<le> j" "j < i" "j < N" for j
      using ih e(4) [of j] that by simp
    moreover have "same_layout t x z" using same_layout_trans [OF e(3)] ih by blast
    ultimately show ?thesis using zi by (auto simp: split)
  qed
qed

lemma drop_entries_ledger:
  assumes hooks: "key_drop ops = Some kd" "elem_drop ops = Some vd" "logs_in t kd" "logs_in t vd"
    and N: "slot_count (tables st t) \<le> 2 ^ 63" and run: "map_drop_entries self t ops st = (r, st')"
  shows "same_layout t st st'" and "world st' @ owed ops st' t = world st @ owed ops st t" and "r = Inr () \<Longrightarrow> owed ops st' t = []"
proof -
  obtain r0 where loop: "while_proc (\<lambda>i st. i < slot_count (tables st t)) (\<lambda>i. bind (map_drop_entry self t ops i) (\<lambda>_. return (i + 1))) 0 st = (r0, st')"
      and r0: "r = Inr () \<Longrightarrow> \<exists>u. r0 = Inr u"
    using run unfolding map_drop_entries_def by (elim bind_cases) (auto simp: rt_simps)
  note l = drop_loop_ledger [OF hooks refl N order_refl loop]
  show lay: "same_layout t st st'" using l by blast
  show "world st' @ owed ops st' t = world st @ owed ops st t" using l lay by (simp add: owed_def same_layout_def)
  show "r = Inr () \<Longrightarrow> owed ops st' t = []" using l lay r0 by (auto simp: owed_def same_layout_def)
qed

lemma clear_ledger:
  assumes "loke_rt_v1_map_clear self ops st = (r, st')" and "map_table (maps st self) = t" and "t \<noteq> 0"
  obtains st1 where "map_drop_entries self t ops st = (r, st1)" and "world st' = world st1" and "r \<noteq> Inr () \<Longrightarrow> st' = st1"
proof -
  obtain r1 st1 where d: "map_drop_entries self t ops st = (r1, st1)" by fastforce
  show thesis
  proof (cases r1)
    case (Inl e)
    with d assms show thesis by (intro that [of st1]) (auto simp: loke_rt_v1_map_clear_def bind_def rt_simps Let_def)
  next
    case (Inr u)
    with d assms show thesis
      by (intro that [of st1]) (auto simp: loke_rt_v1_map_clear_def bind_def rt_simps Let_def memset_def set_table_def set_map_def)
  qed
qed

text \<open>C32. A drop hook of a key or of a value that panics while a map is cleared leaves the map owing exactly
  what it has not handed over: when the unwind clears the map again, every key and every value of the
  map has been handed to its hook exactly once, key before value, in table order, and none twice.\<close>

theorem map_unwind_drops_once:
  assumes "key_drop ops = Some kd" and "elem_drop ops = Some vd" and "logs_in t kd" and "logs_in t vd"
    and "map_table (maps st self) = t" and "t \<noteq> 0" and "slot_count (tables st t) \<le> 2 ^ 63"
    and "loke_rt_v1_map_clear self ops st = (Inl e, st1)" and "map_table (maps st1 self) = t"
    and "loke_rt_v1_map_clear self ops st1 = (Inr (), st2)"
  shows "world st2 = world st @ owed ops st t"
proof -
  from assms(8,5,6) have d1: "map_drop_entries self t ops st = (Inl e, st1)" by (rule clear_ledger) simp
  note l1 = drop_entries_ledger [OF assms(1-4,7) d1]
  from assms(10,9,6) obtain x where d2: "map_drop_entries self t ops st1 = (Inr (), x)" and w: "world st2 = world x" by (rule clear_ledger)
  have "slot_count (tables st1 t) \<le> 2 ^ 63" using l1(1) assms(7) by (simp add: same_layout_def)
  from drop_entries_ledger(2,3) [OF assms(1-4) this d2] l1(2) show ?thesis by (simp add: w)
qed

text \<open>Two entries with keys and values of one byte, and hooks of which the first call panics.\<close>

definition sample_table :: "addr list rt" where
  "sample_table = sample_log\<lparr>mem := (\<lambda>_. 0)(4280 := LOKE_RT_MAP_OCCUPIED, 4281 := LOKE_RT_MAP_OCCUPIED),
     maps := (\<lambda>_. \<lparr>map_table = 4208, map_len = 2, map_cap = 2, map_allocator = 4096\<rparr>),
     tables := (\<lambda>_. \<lparr>slot_count = 2, occupied = 2, tombstones = 0, seed = 0, controls_offset = 72, keys_offset = 74,
       values_offset = 76, block_size = 80, block_align = 8\<rparr>)\<rparr>"

definition panic_ops :: "addr list container_ops" where
  "panic_ops = sample_ops\<lparr>elem_size := 1, key_size := 1, elem_drop := Some panic_drop, key_drop := Some panic_drop\<rparr>"

theorem map_unwind_drops_once_witness:
  "world (snd (loke_rt_v1_map_clear 512 panic_ops (snd (loke_rt_v1_map_clear 512 panic_ops sample_table)))) = [4282, 4284, 4283, 4285]"
proof -
  define st1 where "st1 = snd (loke_rt_v1_map_clear 512 panic_ops sample_table)"
  define st2 where "st2 = snd (loke_rt_v1_map_clear 512 panic_ops st1)"
  have "fst (loke_rt_v1_map_clear 512 panic_ops sample_table) = Inl (Panic ''drop'')" by code_simp
  then have 1: "loke_rt_v1_map_clear 512 panic_ops sample_table = (Inl (Panic ''drop''), st1)" by (simp add: st1_def prod_eq_iff)
  have "fst (loke_rt_v1_map_clear 512 panic_ops st1) = Inr ()" unfolding st1_def by code_simp
  then have 2: "loke_rt_v1_map_clear 512 panic_ops st1 = (Inr (), st2)" by (simp add: st2_def prod_eq_iff)
  have t1: "map_table (maps st1 512) = 4208" unfolding st1_def by code_simp
  have logs: "logs_in 4208 panic_drop" by (auto simp: logs_in_def panic_drop_def log_drop_def bind_def rt_simps control_def map_controls_def)
  have owed: "owed panic_ops sample_table 4208 = [4282, 4284, 4283, 4285]" by code_simp
  have "world st2 = world sample_table @ owed panic_ops sample_table 4208"
    by (rule map_unwind_drops_once [OF _ _ logs logs _ _ _ 1 t1 2]) (simp_all add: panic_ops_def sample_table_def)
  then show ?thesis unfolding owed st1_def [symmetric] st2_def [symmetric] by (simp add: sample_table_def sample_log_def)
qed

end
