(* ===== verification/Loke_String.thy ===== *)
theory Loke_String
  imports Loke_Utf8 Loke_Dyn_Ops
begin

text \<open>
  The shared immutable storage behind \<^verbatim>\<open>string\<close>, from \<^verbatim>\<open>runtime/text.c\<close>: the buffers and their handle counts, and the
  operations that create a string.  Correctness is proved against the \<open>provider\<close> contract of \<open>Loke_Region\<close> and
  stated for a fixed-buffer arena, its interpretation.
\<close>

unbundle bit_operations_syntax

section \<open>Definitions\<close>

definition LOKE_RT_STRING_STATIC :: addr where "LOKE_RT_STRING_STATIC = 1"
definition HEADER_ALIGN :: u64 where "HEADER_ALIGN = 8"
definition SIZEOF_STRING_HEADER :: u64 where "SIZEOF_STRING_HEADER = 24"

record string_v1 =
  str_data :: addr
  byte_len :: int
  owner_flags :: addr

record string_header_v1 =
  handles :: int
  hd_allocator :: addr
  hd_block :: u64

text \<open>The state of the rest of the runtime, and the stores of buffer headers and string values.\<close>

record 'w text_rt =
  base :: "'w rt"
  headers :: "addr \<Rightarrow> string_header_v1"
  strings :: "addr \<Rightarrow> string_v1"

definition lift :: "('w rt, 'a) proc \<Rightarrow> ('w text_rt, 'a) proc" where
  "lift m st = (case m (base st) of (r, b) \<Rightarrow> (r, st\<lparr>base := b\<rparr>))"

definition set_string :: "addr \<Rightarrow> string_v1 \<Rightarrow> ('w text_rt, unit) proc" where
  "set_string out s = modify (\<lambda>st. st\<lparr>strings := (strings st)(out := s)\<rparr>)"

definition set_header :: "addr \<Rightarrow> string_header_v1 \<Rightarrow> ('w text_rt, unit) proc" where
  "set_header h v = modify (\<lambda>st. st\<lparr>headers := (headers st)(h := v)\<rparr>)"

definition poke :: "addr \<Rightarrow> u8 list \<Rightarrow> ('w text_rt, unit) proc" where
  "poke p bs = lift (modify (\<lambda>b. b\<lparr>mem := store (mem b) p bs\<rparr>))"

definition bytes_at :: "'w text_rt \<Rightarrow> addr \<Rightarrow> int \<Rightarrow> u8 list" where
  "bytes_at st p len = load (mem (base st)) p (nat len)"

definition header_of :: "addr \<Rightarrow> addr" where
  "header_of owner = (if owner = 0 \<or> owner = LOKE_RT_STRING_STATIC then 0 else owner)"

definition allocate_buffer :: "'w providers \<Rightarrow> addr \<Rightarrow> int \<Rightarrow> addr \<Rightarrow> ('w text_rt, addr) proc" where
  "allocate_buffer P out len a =
     (let block = SIZEOF_STRING_HEADER + word_of_int len + 1 in
      bind (lift (loke_rt_v1_alloc P a block HEADER_ALIGN)) (\<lambda>raw.
      if raw = 0 then return 0
      else bind (set_header raw \<lparr>handles = 1, hd_allocator = a, hd_block = block\<rparr>) (\<lambda>_.
        let bytes = raw + SIZEOF_STRING_HEADER in
        bind (poke (bytes + word_of_int len) [0]) (\<lambda>_.
        bind (set_string out \<lparr>str_data = bytes, byte_len = len, owner_flags = raw\<rparr>) (\<lambda>_.
        return bytes)))))"

definition publish_empty :: "addr \<Rightarrow> ('w text_rt, unit) proc" where
  "publish_empty out = set_string out \<lparr>str_data = 0, byte_len = 0, owner_flags = 0\<rparr>"

definition loke_rt_v1_string_retain :: "addr \<Rightarrow> ('w text_rt, unit) proc" where
  "loke_rt_v1_string_retain owner =
     (let h = header_of owner in
      if h \<noteq> 0 then bind get_state (\<lambda>st. set_header h ((headers st h)\<lparr>handles := handles (headers st h) + 1\<rparr>)) else return ())"

definition loke_rt_v1_string_release :: "'w providers \<Rightarrow> addr \<Rightarrow> ('w text_rt, unit) proc" where
  "loke_rt_v1_string_release P owner =
     (let h = header_of owner in
      if h = 0 then return ()
      else bind get_state (\<lambda>st.
        let old = handles (headers st h) in
        bind (set_header h ((headers st h)\<lparr>handles := old - 1\<rparr>)) (\<lambda>_.
        if old = 1 then bind get_state (\<lambda>st. lift (loke_rt_v1_free P (hd_allocator (headers st h)) h (hd_block (headers st h)) HEADER_ALIGN))
        else return ())))"

definition data_arg :: "'w text_rt \<Rightarrow> addr \<Rightarrow> int \<Rightarrow> u8 list option" where
  "data_arg st data len = (if data = 0 then None else Some (bytes_at st data len))"

definition loke_rt_v1_string_from_bytes :: "'w host \<Rightarrow> 'w providers \<Rightarrow> addr \<Rightarrow> addr \<Rightarrow> int \<Rightarrow> addr \<Rightarrow> ('w text_rt, int) proc" where
  "loke_rt_v1_string_from_bytes H P out data len a =
     bind (publish_empty out) (\<lambda>_. bind get_state (\<lambda>st.
     if len < 0 \<or> \<not> loke_rt_v1_utf8_valid (data_arg st data len) len then return 0
     else if len = 0 then return 1
     else bind (allocate_buffer P out len a) (\<lambda>bytes.
       bind (if bytes = 0 then lift (loke_rt_v1_alloc_failed H a) else return ()) (\<lambda>_.
       bind (lift (memcpy bytes data (word_of_int len))) (\<lambda>_. return 1)))))"

definition loke_rt_v1_string_clone :: "'w providers \<Rightarrow> addr \<Rightarrow> addr \<Rightarrow> int \<Rightarrow> addr \<Rightarrow> ('w text_rt, int) proc" where
  "loke_rt_v1_string_clone P out data len a =
     bind (publish_empty out) (\<lambda>_.
     if len \<le> 0 then return 1
     else bind (allocate_buffer P out len a) (\<lambda>bytes.
       if bytes = 0 then return 0
       else bind (lift (memcpy bytes data (word_of_int len))) (\<lambda>_. return 1)))"

definition loke_rt_v1_string_concat :: "'w providers \<Rightarrow> addr \<Rightarrow> addr \<Rightarrow> int \<Rightarrow> addr \<Rightarrow> int \<Rightarrow> addr \<Rightarrow> ('w text_rt, int) proc" where
  "loke_rt_v1_string_concat P out a_data a_len b_data b_len allocator =
     bind (publish_empty out) (\<lambda>_.
     case loke_rt_v1_checked_add a_len b_len of
       None \<Rightarrow> return 0
     | Some tot \<Rightarrow>
         if tot = 0 then return 1
         else bind (allocate_buffer P out tot allocator) (\<lambda>bytes.
           if bytes = 0 then return 0
           else bind (if a_len > 0 then lift (memcpy bytes a_data (word_of_int a_len)) else return ()) (\<lambda>_.
             bind (if b_len > 0 then lift (memcpy (bytes + word_of_int a_len) b_data (word_of_int b_len)) else return ()) (\<lambda>_.
             return 1))))"

text \<open>An array of runes in memory: four bytes each, least significant first.\<close>

definition u32_of_bytes :: "u8 list \<Rightarrow> u32" where
  "u32_of_bytes bs = ucast (bs ! 0) OR push_bit 8 (ucast (bs ! 1)) OR push_bit 16 (ucast (bs ! 2)) OR push_bit 24 (ucast (bs ! 3))"

definition rune_slot :: "'w text_rt \<Rightarrow> addr \<Rightarrow> nat \<Rightarrow> u32" where
  "rune_slot st runes i = u32_of_bytes (load (mem (base st)) (slot runes 4 i) 4)"

text \<open>The first loop: the total length, or that a value is not a scalar value; the second writes the bytes.\<close>

fun runes_total :: "'w text_rt \<Rightarrow> addr \<Rightarrow> nat \<Rightarrow> nat \<Rightarrow> int \<Rightarrow> int option" where
  "runes_total st runes i 0 tot = Some tot"
| "runes_total st runes i (Suc n) tot =
     (let used = length (loke_rt_encode_rune (rune_slot st runes i)) in
      if used = 0 then None else runes_total st runes (i + 1) n (tot + int used))"

fun write_runes :: "addr \<Rightarrow> int \<Rightarrow> addr \<Rightarrow> nat \<Rightarrow> nat \<Rightarrow> ('w text_rt, unit) proc" where
  "write_runes bytes cursor runes i 0 = return ()"
| "write_runes bytes cursor runes i (Suc n) = bind get_state (\<lambda>st.
     let enc = loke_rt_encode_rune (rune_slot st runes i) in
     bind (poke (bytes + word_of_int cursor) enc) (\<lambda>_.
     write_runes bytes (cursor + int (length enc)) runes (i + 1) n))"

definition loke_rt_v1_string_from_runes :: "'w host \<Rightarrow> 'w providers \<Rightarrow> addr \<Rightarrow> addr \<Rightarrow> int \<Rightarrow> addr \<Rightarrow> ('w text_rt, int) proc" where
  "loke_rt_v1_string_from_runes H P out runes count a =
     bind (publish_empty out) (\<lambda>_. bind get_state (\<lambda>st.
     case runes_total st runes 0 (nat count) 0 of
       None \<Rightarrow> return 0
     | Some tot \<Rightarrow>
         if tot = 0 then return 1
         else bind (allocate_buffer P out tot a) (\<lambda>bytes.
           bind (if bytes = 0 then lift (loke_rt_v1_alloc_failed H a) else return ()) (\<lambda>_.
           bind (write_runes bytes 0 runes 0 (nat count)) (\<lambda>_. return 1)))))"

section \<open>Buffers\<close>

definition empty_string :: string_v1 where
  "empty_string = \<lparr>str_data = 0, byte_len = 0, owner_flags = 0\<rparr>"

text \<open>The block of a buffer of \<open>n\<close> bytes: header, bytes and terminator.\<close>

abbreviation buffer_size :: "nat \<Rightarrow> nat" where
  "buffer_size n \<equiv> 24 + n + 1"

text \<open>What a new string is: a buffer of its own with one handle and a terminator.\<close>

definition new_string :: "addr \<Rightarrow> u8 list \<Rightarrow> 'w text_rt \<Rightarrow> addr \<Rightarrow> addr \<Rightarrow> bool" where
  "new_string h bs st out raw \<longleftrightarrow>
     strings st out = \<lparr>str_data = raw + 24, byte_len = int (length bs), owner_flags = raw\<rparr> \<and>
     headers st raw = \<lparr>handles = 1, hd_allocator = h, hd_block = of_nat (buffer_size (length bs))\<rparr> \<and>
     load (mem (base st)) (raw + 24) (length bs + 1) = bs @ [0]"

text \<open>What an operation leaves alone: the memory and structs of \<open>A\<close>, and every string but \<open>out\<close> and header but \<open>raw\<close>.\<close>

definition leaves_text :: "addr set \<Rightarrow> addr \<Rightarrow> addr set \<Rightarrow> 'w text_rt \<Rightarrow> 'w text_rt \<Rightarrow> bool" where
  "leaves_text A out R st st' \<longleftrightarrow> untouched A (base st) (base st') \<and> (\<forall>x. x \<noteq> out \<longrightarrow> strings st' x = strings st x) \<and>
     (\<forall>x. x \<notin> R \<longrightarrow> headers st' x = headers st x)"

lemma lift_run: "m (base st) = (r, b) \<Longrightarrow> lift m st = (r, st\<lparr>base := b\<rparr>)"
  by (simp add: lift_def)

lemmas text_run = Let_def lift_run set_string_def set_header_def poke_def publish_empty_def rt_simps bind_def

context provider
begin

lemma allocate_buffer_run:
  assumes inv: "inv L (base st)" and len: "0 < len" "len \<le> INT64_MAX"
  obtains (refused) b where "allocate_buffer P out len h st = (Inr 0, st\<lparr>base := b\<rparr>)" and "inv L b" and "untouched (- territory \<union> spans L) (base st) b"
  | (made) raw b where "raw \<noteq> 0" and "inv (insert (raw, buffer_size (nat len)) L) b" and "(raw, buffer_size (nat len)) \<notin> L" and "raw + 24 \<noteq> 0"
      and "untouched (- territory \<union> spans L) (base st) b"
      and "allocate_buffer P out len h st = (Inr (raw + 24), st\<lparr>base := b\<lparr>mem := store (mem b) (raw + 24 + of_nat (nat len)) [0]\<rparr>,
        headers := (headers st)(raw := \<lparr>handles = 1, hd_allocator = h, hd_block = of_nat (buffer_size (nat len))\<rparr>),
        strings := (strings st)(out := \<lparr>str_data = raw + 24, byte_len = len, owner_flags = raw\<rparr>)\<rparr>)"
proof -
  let ?block = "SIZEOF_STRING_HEADER + word_of_int len + 1 :: u64"
  have word: "(word_of_int len :: u64) = of_nat (nat len)" using len(1) by simp
  have block: "?block = of_nat (buffer_size (nat len))" unfolding word SIZEOF_STRING_HEADER_def by simp
  have n: "unat ?block = buffer_size (nat len)"
    unfolding block using len by (intro unat_of_nat_u64) (simp add: INT64_MAX_def)
  then have "0 < ?block" by (metis add_gr_0 unat_gt_0 zero_less_one word_gt_0_no unat_0 neq0_conv word_neq_0_conv)
  from alloc_law [OF inv this pow2_8] obtain raw b where
    al: "loke_rt_v1_alloc P h ?block 8 (base st) = (Inr raw, b)" "untouched (- territory \<union> spans L) (base st) b"
      "if raw = 0 then inv L b else inv (insert (raw, unat ?block) L) b \<and> (raw, unat ?block) \<notin> L \<and> unat (8 :: u64) dvd unat raw" by blast
  show thesis
  proof (cases "raw = 0")
    case True
    then show thesis using al by (intro refused) (simp_all add: allocate_buffer_def text_run HEADER_ALIGN_def)
  next
    case False
    then have inv': "inv (insert (raw, buffer_size (nat len)) L) b" "(raw, buffer_size (nat len)) \<notin> L" using al(3) n by simp_all
    from live_inside [OF inv'(1)] have "block_in (insert (raw, buffer_size (nat len)) L - {(raw, buffer_size (nat len))}) territory raw (buffer_size (nat len))" by blast
    then have "unat raw + 24 < 2 ^ 64" by (auto simp: block_in_def)
    then have "unat (raw + 24) = unat raw + 24" by (subst unat_plus_exact) simp_all
    then have "raw + 24 \<noteq> 0" by (metis add_is_0 numeral_eq_iff unat_0 zero_neq_numeral)
    moreover have "allocate_buffer P out len h st = (Inr (raw + 24), st\<lparr>base := b\<lparr>mem := store (mem b) (raw + 24 + of_nat (nat len)) [0]\<rparr>,
        headers := (headers st)(raw := \<lparr>handles = 1, hd_allocator = h, hd_block = of_nat (buffer_size (nat len))\<rparr>),
        strings := (strings st)(out := \<lparr>str_data = raw + 24, byte_len = len, owner_flags = raw\<rparr>)\<rparr>)"
    proof -
      define B :: u64 where "B = of_nat (buffer_size (nat len))"
      have "loke_rt_v1_alloc P h B 8 (base st) = (Inr raw, b)" using al(1) unfolding block B_def [symmetric] .
      then have "lift (loke_rt_v1_alloc P h B 8) st = (Inr raw, st\<lparr>base := b\<rparr>)" by (rule lift_run)
      then show ?thesis
        unfolding allocate_buffer_def HEADER_ALIGN_def Let_def unfolding block unfolding B_def [symmetric] word
        using False by (simp add: text_run SIZEOF_STRING_HEADER_def)
    qed
    ultimately show thesis using False inv' al(2) made by blast
  qed
qed


text \<open>Filling a new buffer.\<close>

lemma new_string_filled:
  assumes made: "raw \<noteq> 0" "inv (insert (raw, buffer_size (length bs)) L) b" "(raw, buffer_size (length bs)) \<notin> L" "untouched (- territory \<union> spans L) (base st) b"
    and st': "st' = st\<lparr>base := b\<lparr>mem := store (store (mem b) (raw + 24 + of_nat (length bs)) [0]) (raw + 24) bs\<rparr>,
        headers := (headers st)(raw := \<lparr>handles = 1, hd_allocator = h, hd_block = of_nat (buffer_size (length bs))\<rparr>),
        strings := (strings st)(out := \<lparr>str_data = raw + 24, byte_len = int (length bs), owner_flags = raw\<rparr>)\<rparr>"
  shows "new_string h bs st' out raw" and "inv (insert (raw, buffer_size (length bs)) L) (base st')"
    and "leaves_text (- territory \<union> spans L) out {raw} st st'"
proof -
  let ?L = "insert (raw, buffer_size (length bs)) L"
  from live_inside [OF made(2)] have "block_in (?L - {(raw, buffer_size (length bs))}) territory raw (buffer_size (length bs))" by blast
  moreover have "?L - {(raw, buffer_size (length bs))} = L" using made(3) by blast
  ultimately have blk: "unat raw + buffer_size (length bs) < 2 ^ 64" "span raw (buffer_size (length bs)) \<subseteq> territory" "span raw (buffer_size (length bs)) \<inter> spans L = {}"
    by (simp_all add: block_in_def)
  have fits: "length bs + length [0 :: u8] \<le> 2 ^ 64" using blk(1) by simp
  have m: "mem (base st') = store (mem b) (raw + 24) (bs @ [0])" using store_under [OF fits] by (simp add: st')
  have sub: "span (raw + 24) (length (bs @ [0])) \<subseteq> span raw (buffer_size (length bs))"
    using span_sub [of 24 "length (bs @ [0 :: u8])" "buffer_size (length bs)" raw] by simp
  show "new_string h bs st' out raw"
    using load_store_same [of "bs @ [0]" "mem b" "raw + 24"] fits unfolding new_string_def m by (simp add: st')
  have b': "base st' = b\<lparr>mem := store (mem b) (raw + 24) (bs @ [0])\<rparr>" using m by (simp add: st')
  show "inv ?L (base st')" unfolding b' using made(2) by (rule inv_store) (use sub fits in auto)
  have "untouched (- territory \<union> spans L) b (base st')"
    unfolding b' by (rule untouched_store) (use sub blk fits in auto)
  with made(4) show "leaves_text (- territory \<union> spans L) out {raw} st st'"
    by (simp add: leaves_text_def st' untouched_trans)
qed

end

section \<open>Creation\<close>

datatype creation = From_bytes addr int | Clone addr int | Concat addr int addr int | From_runes addr int

fun create :: "'w host \<Rightarrow> 'w providers \<Rightarrow> addr \<Rightarrow> addr \<Rightarrow> creation \<Rightarrow> ('w text_rt, int) proc" where
  "create H P out a (From_bytes data len) = loke_rt_v1_string_from_bytes H P out data len a"
| "create H P out a (Clone data len) = loke_rt_v1_string_clone P out data len a"
| "create H P out a (Concat p m q n) = loke_rt_v1_string_concat P out p m q n a"
| "create H P out a (From_runes runes count) = loke_rt_v1_string_from_runes H P out runes count a"

definition runes_at :: "'w text_rt \<Rightarrow> addr \<Rightarrow> int \<Rightarrow> u32 list" where
  "runes_at st runes count = map (rune_slot st runes) [0..<nat count]"

text \<open>The text an operation is asked for, if its input is acceptable.\<close>

fun text_of :: "'w text_rt \<Rightarrow> creation \<Rightarrow> u8 list option" where
  "text_of st (From_bytes data len) = (if loke_rt_v1_utf8_valid (data_arg st data len) len then Some (bytes_at st data len) else None)"
| "text_of st (Clone data len) = Some (bytes_at st data len)"
| "text_of st (Concat p m q n) = (if loke_rt_v1_checked_add m n = None then None else Some (bytes_at st p m @ bytes_at st q n))"
| "text_of st (From_runes runes count) =
     (if list_all scalar (runes_at st runes count) then Some (concat (map loke_rt_encode_rune (runes_at st runes count))) else None)"

text \<open>The input is where the operation may read it, and counts are in range.\<close>

fun readable :: "addr set \<Rightarrow> creation \<Rightarrow> bool" where
  "readable A (From_bytes data len) \<longleftrightarrow> len \<le> INT64_MAX \<and> span data (nat len) \<subseteq> A"
| "readable A (Clone data len) \<longleftrightarrow> len \<le> INT64_MAX \<and> span data (nat len) \<subseteq> A"
| "readable A (Concat p m q n) \<longleftrightarrow> span p (nat m) \<subseteq> A \<and> span q (nat n) \<subseteq> A"
| "readable A (From_runes runes count) \<longleftrightarrow> 4 * count \<le> INT64_MAX \<and> span runes (nat count * 4) \<subseteq> A"

fun fallible :: "creation \<Rightarrow> bool" where
  "fallible (From_bytes data len) = False"
| "fallible (Clone data len) = True"
| "fallible (Concat p m q n) = True"
| "fallible (From_runes runes count) = False"

lemma bytes_kept: "untouched A (base st) b \<Longrightarrow> span p (nat len) \<subseteq> A \<Longrightarrow> load (mem b) p (nat len) = bytes_at st p len"
  unfolding bytes_at_def by (rule load_cong) (auto simp: untouched_def agree_def)

lemma alloc_failed_stops: "\<exists>e b'. loke_rt_v1_alloc_failed H a b = (Inl e, b')"
  by (simp add: loke_rt_v1_alloc_failed_def resolve_run bind_def rt_simps Let_def)

lemma unat_i64: "0 \<le> len \<Longrightarrow> len \<le> INT64_MAX \<Longrightarrow> unat (word_of_int len :: u64) = nat len"
  by (rule unat_word_of_i64) (simp_all add: i64_def INT64_MAX_def)


text \<open>Writers of a buffer: what they put there, whatever the buffer is.\<close>

definition fills :: "'w text_rt \<Rightarrow> addr set \<Rightarrow> u8 list \<Rightarrow> (addr \<Rightarrow> ('w text_rt, unit) proc) \<Rightarrow> bool" where
  "fills st A bs fill \<longleftrightarrow> (\<forall>p st1. untouched A (base st) (base st1) \<and> span p (length bs) \<inter> A = {} \<longrightarrow>
     fill p st1 = (Inr (), st1\<lparr>base := (base st1)\<lparr>mem := store (mem (base st1)) p bs\<rparr>\<rparr>))"

lemma fills_memcpy:
  fixes st :: "'w text_rt"
  assumes "span data (nat len) \<subseteq> A" and "0 \<le> len" and "len \<le> INT64_MAX"
  shows "fills st A (bytes_at st data len) (\<lambda>p. lift (memcpy p data (word_of_int len)))"
  unfolding fills_def
proof (intro allI impI)
  fix p and st1 :: "'w text_rt" assume "untouched A (base st) (base st1) \<and> span p (length (bytes_at st data len)) \<inter> A = {}"
  then have "load (mem (base st1)) data (nat len) = bytes_at st data len" using bytes_kept [OF _ assms(1)] by blast
  then show "lift (memcpy p data (word_of_int len)) st1 = (Inr (), st1\<lparr>base := (base st1)\<lparr>mem := store (mem (base st1)) p (bytes_at st data len)\<rparr>\<rparr>)"
    using unat_i64 [OF assms(2,3)] by (simp add: lift_def memcpy_def rt_simps)
qed

lemma length_bytes_at [simp]: "length (bytes_at st p len) = nat len"
  by (simp add: bytes_at_def)

lemma fills_append:
  fixes st :: "'w text_rt"
  assumes f: "fills st A xs f" and g: "fills st A ys g" and fits: "length xs + length ys < 2 ^ 64"
  shows "fills st A (xs @ ys) (\<lambda>p. bind (f p) (\<lambda>_. g (p + of_nat (length xs))))"
  unfolding fills_def
proof (intro allI impI)
  fix p and st1 :: "'w text_rt" assume st1: "untouched A (base st) (base st1) \<and> span p (length (xs @ ys)) \<inter> A = {}"
  have sub: "span p (length xs) \<subseteq> span p (length (xs @ ys))" "span (p + of_nat (length xs)) (length ys) \<subseteq> span p (length (xs @ ys))"
    using span_sub [of 0 "length xs" "length (xs @ ys)" p] span_sub [of "length xs" "length ys" "length (xs @ ys)" p] by simp_all
  let ?st2 = "st1\<lparr>base := (base st1)\<lparr>mem := store (mem (base st1)) p xs\<rparr>\<rparr>"
  have f': "f p st1 = (Inr (), ?st2)" using f st1 sub(1) by (auto simp: fills_def)
  have "untouched A (base st1) (base ?st2)" using untouched_store [of A p xs "base st1"] st1 sub(1) fits by auto
  with st1 have "untouched A (base st) (base ?st2)" by (metis untouched_trans)
  moreover have "span (p + of_nat (length xs)) (length ys) \<inter> A = {}" using st1 sub(2) by auto
  ultimately have "g (p + of_nat (length xs)) ?st2 = (Inr (), ?st2\<lparr>base := (base ?st2)\<lparr>mem := store (mem (base ?st2)) (p + of_nat (length xs)) ys\<rparr>\<rparr>)"
    using g by (simp add: fills_def)
  then show "bind (f p) (\<lambda>_. g (p + of_nat (length xs))) st1 = (Inr (), st1\<lparr>base := (base st1)\<lparr>mem := store (mem (base st1)) p (xs @ ys)\<rparr>\<rparr>)"
    using fits by (simp add: bind_def f' store_append)
qed

lemma fills_none: "fills st A [] (\<lambda>p. return ())"
  by (simp add: fills_def rt_simps)

lemma upt_front: "[i..<i + Suc n] = i # [Suc i..<Suc i + n]"
  by (subst upt_conv_Cons) simp_all

lemma fills_cong: "fills st A bs f \<Longrightarrow> (\<And>p st1. untouched A (base st) (base st1) \<Longrightarrow> g p st1 = f p st1) \<Longrightarrow> fills st A bs g"
  by (simp add: fills_def)

lemma fills_runes:
  fixes st :: "'w text_rt"
  assumes "span runes (N * 4) \<subseteq> A" and "4 * N < 2 ^ 64" and "i + n \<le> N"
  shows "fills st A (encode_runes (map (rune_slot st runes) [i..<i + n])) (\<lambda>p. write_runes p 0 runes i n)"
proof -
  have gen: "fills st A (encode_runes (map (rune_slot st runes) [i..<i + n])) (\<lambda>p. write_runes (p - word_of_int c) c runes i n)"
    if "i + n \<le> N" for i n c
    using that
  proof (induction n arbitrary: i c)
    case 0
    then show ?case using fills_none by simp
  next
    case (Suc n)
    let ?e = "loke_rt_encode_rune (rune_slot st runes i)"
    have slot: "rune_slot st1 runes i = rune_slot st runes i" if "untouched A (base st) (base st1)" for st1
    proof -
      have "span (slot runes 4 i) 4 \<subseteq> A" using span_slot [of i N runes 4] Suc.prems assms(1) by auto
      then have "load (mem (base st1)) (slot runes 4 i) 4 = load (mem (base st)) (slot runes 4 i) 4"
        using that by (intro load_cong) (auto simp: untouched_def agree_def)
      then show ?thesis by (simp add: rune_slot_def)
    qed
    have "fills st A ?e (\<lambda>p. poke p ?e)" by (auto simp: fills_def poke_def lift_def rt_simps)
    moreover have "fills st A (encode_runes (map (rune_slot st runes) [Suc i..<Suc i + n])) (\<lambda>p. write_runes (p - word_of_int (c + int (length ?e))) (c + int (length ?e)) runes (Suc i) n)"
      using Suc.prems by (intro Suc.IH) simp
    moreover have "length ?e + length (encode_runes (map (rune_slot st runes) [Suc i..<Suc i + n])) < 2 ^ 64"
    proof -
      define vs where "vs = map (rune_slot st runes) [Suc i..<Suc i + n]"
      have "length vs = n" by (simp add: vs_def)
      then have "length (encode_runes (rune_slot st runes i # vs)) \<le> 4 * Suc n" using encode_runes_length [of "rune_slot st runes i # vs"] by simp
      then show ?thesis using Suc.prems assms(2) unfolding vs_def [symmetric] by simp
    qed
    ultimately have "fills st A (?e @ encode_runes (map (rune_slot st runes) [Suc i..<Suc i + n]))
        (\<lambda>p. bind (poke p ?e) (\<lambda>_. write_runes (p + of_nat (length ?e) - word_of_int (c + int (length ?e))) (c + int (length ?e)) runes (Suc i) n))"
      by (rule fills_append)
    moreover have "encode_runes (map (rune_slot st runes) [i..<i + Suc n]) = ?e @ encode_runes (map (rune_slot st runes) [Suc i..<Suc i + n])"
      by (simp only: upt_front list.map concat.simps)
    ultimately have "fills st A (encode_runes (map (rune_slot st runes) [i..<i + Suc n]))
        (\<lambda>p. bind (poke p ?e) (\<lambda>_. write_runes (p + of_nat (length ?e) - word_of_int (c + int (length ?e))) (c + int (length ?e)) runes (Suc i) n))" by simp
    then show ?case
    proof (rule fills_cong)
      fix p and st1 :: "'w text_rt" assume "untouched A (base st) (base st1)"
      moreover have "p + of_nat (length ?e) - word_of_int (c + int (length ?e)) = p - (word_of_int c :: addr)" by simp
      ultimately show "write_runes (p - word_of_int c) c runes i (Suc n) st1 =
          bind (poke p ?e) (\<lambda>_. write_runes (p + of_nat (length ?e) - word_of_int (c + int (length ?e))) (c + int (length ?e)) runes (Suc i) n) st1"
        using slot [of st1] by (simp add: bind_def rt_simps Let_def)
    qed
  qed
  show ?thesis using gen [OF assms(3), of 0] by simp
qed


text \<open>What \<open>create\<close> promises.\<close>

definition created :: "(live \<Rightarrow> 'w rt \<Rightarrow> bool) \<Rightarrow> addr set \<Rightarrow> addr \<Rightarrow> live \<Rightarrow> 'w text_rt \<Rightarrow> addr \<Rightarrow> u8 list \<Rightarrow> 'w text_rt \<Rightarrow> bool" where
  "created I territory h L st out bs st' \<longleftrightarrow>
     (if bs = [] then strings st' out = empty_string \<and> I L (base st') \<and> leaves_text (- territory \<union> spans L) out {} st st'
      else \<exists>raw. raw \<noteq> 0 \<and> (raw, buffer_size (length bs)) \<notin> L \<and> I (insert (raw, buffer_size (length bs)) L) (base st') \<and>
        new_string h bs st' out raw \<and> leaves_text (- territory \<union> spans L) out {raw} st st')"

definition created_none :: "(live \<Rightarrow> 'w rt \<Rightarrow> bool) \<Rightarrow> addr set \<Rightarrow> live \<Rightarrow> 'w text_rt \<Rightarrow> addr \<Rightarrow> 'w text_rt \<Rightarrow> bool" where
  "created_none I territory L st out st' \<longleftrightarrow>
     strings st' out = empty_string \<and> I L (base st') \<and> leaves_text (- territory \<union> spans L) out {} st st'"

definition emptied :: "addr \<Rightarrow> 'w text_rt \<Rightarrow> 'w text_rt" where
  "emptied out st = st\<lparr>strings := (strings st)(out := empty_string)\<rparr>"

lemma emptied_run: "publish_empty out st = (Inr (), emptied out st)"
  by (simp add: text_run emptied_def empty_string_def)

lemma emptied_simps [simp]: "base (emptied out st) = base st" "strings (emptied out st) out = empty_string" "headers (emptied out st) = headers st"
  by (simp_all add: emptied_def)

lemma leaves_emptied: "leaves_text A out R (emptied out st) st' \<Longrightarrow> leaves_text A out R st st'"
  by (simp add: leaves_text_def emptied_def)

context provider
begin

lemma created_emptied: "inv L (base st) \<Longrightarrow> created_none inv territory L st out (emptied out st)"
  by (simp add: created_none_def leaves_text_def emptied_def)

text \<open>A buffer is allocated and filled, or refused.\<close>

lemma allocate_fill:
  assumes inv: "inv L (base st)" and bs: "bs \<noteq> []" "int (length bs) \<le> INT64_MAX" and fill: "fills st (- territory \<union> spans L) bs fill"
  obtains (refused) st' where "allocate_buffer P out (int (length bs)) h (emptied out st) = (Inr 0, st')" and "created_none inv territory L st out st'"
  | (made) p st1 st' where "allocate_buffer P out (int (length bs)) h (emptied out st) = (Inr p, st1)" and "p \<noteq> 0" and "fill p st1 = (Inr (), st')"
      and "created inv territory h L st out bs st'"
proof -
  let ?A = "- territory \<union> spans L" and ?n = "int (length bs)"
  have inv0: "inv L (base (emptied out st))" and n: "0 < ?n" using inv bs by simp_all
  from inv0 n bs(2) show thesis
  proof (cases rule: allocate_buffer_run [where out = out])
    case (refused b)
    then show thesis by (intro that(1)) (auto simp: created_none_def leaves_text_def emptied_def)
  next
    case (made raw b)
    note made = made [unfolded nat_int]
    let ?st1 = "(emptied out st)\<lparr>base := b\<lparr>mem := store (mem b) (raw + 24 + of_nat (length bs)) [0]\<rparr>,
        headers := (headers (emptied out st))(raw := \<lparr>handles = 1, hd_allocator = h, hd_block = of_nat (buffer_size (length bs))\<rparr>),
        strings := (strings (emptied out st))(out := \<lparr>str_data = raw + 24, byte_len = ?n, owner_flags = raw\<rparr>)\<rparr>"
    let ?st' = "?st1\<lparr>base := (base ?st1)\<lparr>mem := store (mem (base ?st1)) (raw + 24) bs\<rparr>\<rparr>"
    from live_inside [OF made(2)] have "block_in (insert (raw, buffer_size (length bs)) L - {(raw, buffer_size (length bs))}) territory raw (buffer_size (length bs))" by blast
    moreover have "insert (raw, buffer_size (length bs)) L - {(raw, buffer_size (length bs))} = L" using made(3) by blast
    ultimately have blk: "span raw (buffer_size (length bs)) \<inter> ?A = {}" by (auto simp: block_in_def)
    have sub: "span (raw + 24) (length bs) \<inter> ?A = {}" "span (raw + 24 + of_nat (length bs)) 1 \<inter> ?A = {}"
      using blk span_sub [of 24 "length bs" "buffer_size (length bs)" raw] span_sub [of "24 + length bs" 1 "buffer_size (length bs)" raw] by (auto simp: add.assoc)
    have u: "untouched ?A b (base ?st1)" using untouched_store [of ?A "raw + 24 + of_nat (length bs)" "[0]" b] sub(2) by auto
    have "untouched ?A (base st) (base ?st1)" by (rule untouched_trans [OF made(5) [unfolded emptied_simps(1)] u])
    with fill sub(1) have run: "fill (raw + 24) ?st1 = (Inr (), ?st')" unfolding fills_def by blast
    define st' where "st' = ?st'"
    have f: "new_string h bs st' out raw" "inv (insert (raw, buffer_size (length bs)) L) (base st')" "leaves_text ?A out {raw} (emptied out st) st'"
      by (rule new_string_filled [where out = out, OF made(1,2,3,5)], simp add: st'_def)+
    have "created inv territory h L st out bs st'"
      using f(1,2) leaves_emptied [OF f(3)] bs(1) made(1,3) unfolding created_def by auto
    then show thesis using that(2) [OF made(6) made(4) run [folded st'_def]] by blast
  qed
qed

end


definition promise :: "(live \<Rightarrow> 'w rt \<Rightarrow> bool) \<Rightarrow> addr set \<Rightarrow> addr \<Rightarrow> creation \<Rightarrow> live \<Rightarrow> 'w text_rt \<Rightarrow> addr \<Rightarrow> (fault + int) \<times> 'w text_rt \<Rightarrow> bool" where
  "promise I territory h c L st out res \<longleftrightarrow> (case res of
     (Inr ok, st') \<Rightarrow> if ok = 1 then \<exists>bs. text_of st c = Some bs \<and> created I territory h L st out bs st'
       else ok = 0 \<and> created_none I territory L st out st' \<and> (text_of st c = None \<or> fallible c)
   | (Inl e, st') \<Rightarrow> \<not> fallible c \<and> text_of st c \<noteq> None \<and> strings st' out = empty_string)"

lemma runes_total_run:
  "runes_total st runes i n t = (if list_all scalar (map (rune_slot st runes) [i..<i + n])
     then Some (t + int (length (encode_runes (map (rune_slot st runes) [i..<i + n])))) else None)"
proof (induction n arbitrary: i t)
  case (Suc n)
  have "length (loke_rt_encode_rune v) = 0 \<longleftrightarrow> \<not> scalar v" for v using encode_rune_scalar [of v] by auto
  then show ?case unfolding upt_front using Suc.IH [of "Suc i"] by (simp add: Let_def add.assoc del: upt_Suc)
qed simp

context provider
begin

lemma promise_none: "inv L (base st) \<Longrightarrow> text_of st c = None \<Longrightarrow> promise inv territory h c L st out (Inr 0, emptied out st)"
  by (simp add: promise_def created_emptied)

lemma promise_empty: "inv L (base st) \<Longrightarrow> text_of st c = Some [] \<Longrightarrow> promise inv territory h c L st out (Inr 1, emptied out st)"
  using created_emptied [of L st out] by (simp add: promise_def created_def created_none_def)

text \<open>The two ways a creation ends once its text is known: with the policy of the allocator, or with a failure code.\<close>

lemma promise_policy:
  assumes inv: "inv L (base st)" and bs: "text_of st c = Some bs" "bs \<noteq> []" "int (length bs) \<le> INT64_MAX" and fill: "fills st (- territory \<union> spans L) bs fill" and c: "\<not> fallible c"
  shows "promise inv territory h c L st out (bind (allocate_buffer P out (int (length bs)) h) (\<lambda>bytes.
      bind (if bytes = 0 then lift (loke_rt_v1_alloc_failed H h) else return ()) (\<lambda>_. bind (fill bytes) (\<lambda>_. return 1))) (emptied out st))"
  using inv bs(2,3) fill
proof (cases rule: allocate_fill [where out = out])
  case (refused st')
  obtain e b' where "loke_rt_v1_alloc_failed H h (base st') = (Inl e, b')" using alloc_failed_stops by blast
  then have "lift (loke_rt_v1_alloc_failed H h) st' = (Inl e, st'\<lparr>base := b'\<rparr>)" by (rule lift_run)
  with refused c bs(1) show ?thesis by (simp add: bind_def promise_def created_none_def)
next
  case (made p st1 st')
  then show ?thesis using bs(1) by (auto simp: bind_def promise_def rt_simps)
qed

lemma promise_fallible:
  assumes inv: "inv L (base st)" and bs: "text_of st c = Some bs" "bs \<noteq> []" "int (length bs) \<le> INT64_MAX" and fill: "fills st (- territory \<union> spans L) bs fill" and c: "fallible c"
  shows "promise inv territory h c L st out (bind (allocate_buffer P out (int (length bs)) h) (\<lambda>bytes.
      if bytes = 0 then return 0 else bind (fill bytes) (\<lambda>_. return 1)) (emptied out st))"
  using inv bs(2,3) fill
proof (cases rule: allocate_fill [where out = out])
  case (refused st')
  then show ?thesis using c by (simp add: bind_def promise_def rt_simps)
next
  case (made p st1 st')
  then show ?thesis using bs(1) by (auto simp: bind_def promise_def rt_simps)
qed

lemma create_from_bytes:
  assumes inv: "inv L (base st)" and r: "readable (- territory \<union> spans L) (From_bytes data len)"
  shows "promise inv territory h (From_bytes data len) L st out (loke_rt_v1_string_from_bytes H P out data len h st)"
proof -
  have same: "data_arg (emptied out st) data len = data_arg st data len" by (simp add: data_arg_def bytes_at_def)
  show ?thesis
  proof (cases "loke_rt_v1_utf8_valid (data_arg st data len) len")
    case False
    then show ?thesis using promise_none [OF inv, of "From_bytes data len" out]
      by (simp add: loke_rt_v1_string_from_bytes_def bind_def emptied_run rt_simps same)
  next
    case True
    then have nn: "0 \<le> len" by (auto simp: loke_rt_v1_utf8_valid_def split: if_splits)
    show ?thesis
    proof (cases "len = 0")
      case zero: True
      note same0 = same [unfolded zero]
      from zero show ?thesis using True promise_empty [OF inv, of "From_bytes data len" out]
        by (simp add: loke_rt_v1_string_from_bytes_def bind_def emptied_run rt_simps same0 bytes_at_def)
    next
      case False
      have "promise inv territory h (From_bytes data len) L st out (bind (allocate_buffer P out (int (length (bytes_at st data len))) h) (\<lambda>bytes.
          bind (if bytes = 0 then lift (loke_rt_v1_alloc_failed H h) else return ()) (\<lambda>_. bind (lift (memcpy bytes data (word_of_int len))) (\<lambda>_. return 1))) (emptied out st))"
        using True False nn r by (intro promise_policy [OF inv _ _ _ fills_memcpy]) (auto simp flip: length_greater_0_conv)
      then show ?thesis using True False nn
        by (simp add: loke_rt_v1_string_from_bytes_def bind_def [of "publish_empty out"] bind_def [of get_state] emptied_run rt_simps same)
    qed
  qed
qed

lemma create_clone:
  assumes inv: "inv L (base st)" and r: "readable (- territory \<union> spans L) (Clone data len)"
  shows "promise inv territory h (Clone data len) L st out (loke_rt_v1_string_clone P out data len h st)"
proof (cases "len \<le> 0")
  case True
  then show ?thesis using promise_empty [OF inv, of "Clone data len" out]
    by (simp add: loke_rt_v1_string_clone_def bind_def emptied_run rt_simps bytes_at_def)
next
  case False
  have "promise inv territory h (Clone data len) L st out (bind (allocate_buffer P out (int (length (bytes_at st data len))) h) (\<lambda>bytes.
      if bytes = 0 then return 0 else bind (lift (memcpy bytes data (word_of_int len))) (\<lambda>_. return 1)) (emptied out st))"
    using False r by (intro promise_fallible [OF inv _ _ _ fills_memcpy]) (auto simp flip: length_greater_0_conv)
  then show ?thesis using False
    by (simp add: loke_rt_v1_string_clone_def bind_def [of "publish_empty out"] emptied_run)
qed


lemma create_concat:
  assumes inv: "inv L (base st)" and r: "readable (- territory \<union> spans L) (Concat p m q n)"
  shows "promise inv territory h (Concat p m q n) L st out (loke_rt_v1_string_concat P out p m q n h st)"
proof (cases "loke_rt_v1_checked_add m n")
  case None
  then show ?thesis using promise_none [OF inv, of "Concat p m q n" out]
    by (simp add: loke_rt_v1_string_concat_def bind_def emptied_run rt_simps)
next
  case (Some t)
  then have t: "0 \<le> m" "0 \<le> n" "t = m + n" "t \<le> INT64_MAX" by (auto simp: checked_add_Some)
  let ?x = "bytes_at st p m" and ?y = "bytes_at st q n" and ?A = "- territory \<union> spans L"
  let ?f = "\<lambda>b. if m > 0 then lift (memcpy b p (word_of_int m)) else return ()"
  let ?g = "\<lambda>b. if n > 0 then lift (memcpy b q (word_of_int n)) else return ()"
  have "fills st ?A ?x ?f" using r t fills_none [of st ?A] fills_memcpy [of p m ?A st] by (cases "m > 0") (auto simp: bytes_at_def)
  moreover have "fills st ?A ?y ?g" using r t fills_none [of st ?A] fills_memcpy [of q n ?A st] by (cases "n > 0") (auto simp: bytes_at_def)
  moreover have "length ?x + length ?y < 2 ^ 64" using t by (simp add: INT64_MAX_def nat_less_iff)
  ultimately have fill: "fills st ?A (?x @ ?y) (\<lambda>b. bind (?f b) (\<lambda>_. ?g (b + of_nat (length ?x))))" by (rule fills_append)
  have len: "int (length (?x @ ?y)) = t" using t by simp
  show ?thesis
  proof (cases "t = 0")
    case True
    then show ?thesis using Some promise_empty [OF inv, of "Concat p m q n" out] t
      by (simp add: loke_rt_v1_string_concat_def bind_def emptied_run rt_simps bytes_at_def)
  next
    case False
    then have "0 < int (length (?x @ ?y))" using len t(1-3) by linarith
    then have "?x @ ?y \<noteq> []" by (metis length_greater_0_conv of_nat_0_less_iff)
    moreover have "text_of st (Concat p m q n) = Some (?x @ ?y)" using Some by simp
    ultimately have made: "promise inv territory h (Concat p m q n) L st out (bind (allocate_buffer P out (int (length (?x @ ?y))) h) (\<lambda>b.
        if b = 0 then return 0 else bind (bind (?f b) (\<lambda>_. ?g (b + of_nat (length ?x)))) (\<lambda>_. return 1)) (emptied out st))"
      using t(4) len by (intro promise_fallible [OF inv _ _ _ fill]) (auto simp del: length_append)
    have "(of_nat (length ?x) :: addr) = word_of_int m" using t(1) by simp
    from made [unfolded this len bind_assoc] show ?thesis using Some False
      by (simp add: loke_rt_v1_string_concat_def bind_def [of "publish_empty out"] emptied_run)
  qed
qed

lemma create_from_runes:
  assumes inv: "inv L (base st)" and r: "readable (- territory \<union> spans L) (From_runes runes count)"
  shows "promise inv territory h (From_runes runes count) L st out (loke_rt_v1_string_from_runes H P out runes count h st)"
proof -
  let ?vs = "runes_at st runes count"
  have slot: "rune_slot (emptied out st) runes = rune_slot st runes" by (simp add: rune_slot_def fun_eq_iff)
  have tot: "runes_total (emptied out st) runes 0 (nat count) 0 = (if list_all scalar ?vs then Some (int (length (encode_runes ?vs))) else None)"
    by (simp add: runes_total_run slot runes_at_def)
  show ?thesis
  proof (cases "list_all scalar ?vs")
    case False
    then show ?thesis using promise_none [OF inv, of "From_runes runes count" out] tot
      by (simp add: loke_rt_v1_string_from_runes_def bind_def emptied_run rt_simps)
  next
    case True
    then have known: "text_of st (From_runes runes count) = Some (encode_runes ?vs)" by simp
    show ?thesis
    proof (cases "encode_runes ?vs = []")
      case empty: True
      then show ?thesis using promise_empty [OF inv, of "From_runes runes count" out] tot True known
        by (simp add: loke_rt_v1_string_from_runes_def bind_def emptied_run rt_simps)
    next
      case False
      define k where "k = nat count"
      have "int k * 4 \<le> INT64_MAX" using r by (cases "0 \<le> count") (auto simp: INT64_MAX_def k_def)
      moreover have "length (encode_runes ?vs) \<le> 4 * k" using encode_runes_length [of ?vs] by (simp add: runes_at_def k_def)
      ultimately have N: "4 * k < 2 ^ 64" "int (length (encode_runes ?vs)) \<le> INT64_MAX" by (simp_all add: INT64_MAX_def)
      have "fills st (- territory \<union> spans L) (encode_runes ?vs) (\<lambda>p. write_runes p 0 runes 0 (nat count))"
        using fills_runes [of runes "nat count" "- territory \<union> spans L" 0 "nat count" st] r N(1) by (simp add: runes_at_def k_def)
      from promise_policy [OF inv known False N(2) this, of out H] show ?thesis using tot True False
        by (simp add: loke_rt_v1_string_from_runes_def bind_def [of "publish_empty out"] bind_def [of get_state] emptied_run rt_simps) blast
    qed
  qed
qed

lemma create_law: "inv L (base st) \<Longrightarrow> readable (- territory \<union> spans L) c \<Longrightarrow> promise inv territory h c L st out (create H P out h c st)"
  using create_from_bytes create_clone create_concat create_from_runes by (cases c) simp_all

end


section \<open>Handles\<close>

text \<open>A history of one buffer: what the holders of its handles do, in the order the atomic updates of the count
  happen.  It lasts as long as every step is taken by a holder.\<close>

datatype handle_op = Retain | Release

fun handle_step :: "'w providers \<Rightarrow> addr \<Rightarrow> handle_op \<Rightarrow> ('w text_rt, unit) proc" where
  "handle_step P owner Retain = loke_rt_v1_string_retain owner"
| "handle_step P owner Release = loke_rt_v1_string_release P owner"

fun handle_steps :: "'w providers \<Rightarrow> addr \<Rightarrow> handle_op list \<Rightarrow> ('w text_rt, unit) proc" where
  "handle_steps P owner [] = return ()"
| "handle_steps P owner (p # ps) = bind (handle_step P owner p) (\<lambda>_. handle_steps P owner ps)"

fun left_after :: "int \<Rightarrow> handle_op list \<Rightarrow> int" where
  "left_after c [] = c"
| "left_after c (Retain # ps) = left_after (c + 1) ps"
| "left_after c (Release # ps) = left_after (c - 1) ps"

fun held :: "int \<Rightarrow> handle_op list \<Rightarrow> bool" where
  "held c [] \<longleftrightarrow> 0 \<le> c"
| "held c (Retain # ps) \<longleftrightarrow> 0 < c \<and> held (c + 1) ps"
| "held c (Release # ps) \<longleftrightarrow> 0 < c \<and> held (c - 1) ps"

definition buffer_with :: "addr \<Rightarrow> nat \<Rightarrow> int \<Rightarrow> addr \<Rightarrow> 'w text_rt \<Rightarrow> bool" where
  "buffer_with h n c raw st \<longleftrightarrow> headers st raw = \<lparr>handles = c, hd_allocator = h, hd_block = of_nat (buffer_size n)\<rparr>"

definition counted :: "addr \<Rightarrow> int \<Rightarrow> 'w text_rt \<Rightarrow> 'w text_rt" where
  "counted raw c st = st\<lparr>headers := (headers st)(raw := (headers st raw)\<lparr>handles := c\<rparr>)\<rparr>"

lemma counted_simps [simp]: "base (counted raw c st) = base st" "strings (counted raw c st) = strings st"
    "counted raw d (counted raw c st) = counted raw d st"
  by (simp_all add: counted_def)

lemma counted_same: "buffer_with h n c raw st \<Longrightarrow> counted raw c st = st"
proof -
  assume "buffer_with h n c raw st"
  then have "(headers st raw)\<lparr>handles := c\<rparr> = headers st raw" by (simp add: buffer_with_def)
  then show ?thesis by (simp add: counted_def)
qed

lemma held_nonneg: "held c ps \<Longrightarrow> 0 \<le> c"
  by (induction c ps rule: held.induct) auto

context provider
begin

lemma handle_steps_run:
  assumes inv: "inv L (base st)" and blk: "(raw, buffer_size n) \<in> L" "n < 2 ^ 63" and raw: "raw \<noteq> LOKE_RT_STRING_STATIC"
    and st: "buffer_with h n c raw st" and c: "0 < c" "held c ps"
  obtains (kept) "handle_steps P raw ps st = (Inr (), counted raw (left_after c ps) st)" and "0 < left_after c ps"
  | (freed) b where "handle_steps P raw ps st = (Inr (), (counted raw 0 st)\<lparr>base := b\<rparr>)" and "left_after c ps = 0"
      and "inv (L - {(raw, buffer_size n)}) b" and "untouched (- territory \<union> spans (L - {(raw, buffer_size n)})) (base st) b"
proof -
  have raw0: "raw \<noteq> 0" using live_inside [OF inv blk(1)] by (simp add: block_in_def)
  have size: "unat (of_nat (buffer_size n) :: u64) = buffer_size n" using blk(2) by (intro unat_of_nat_u64) simp
  have "(handle_steps P raw ps st = (Inr (), counted raw (left_after c ps) st) \<and> 0 < left_after c ps) \<or>
    (\<exists>b. handle_steps P raw ps st = (Inr (), (counted raw 0 st)\<lparr>base := b\<rparr>) \<and> left_after c ps = 0 \<and>
      inv (L - {(raw, buffer_size n)}) b \<and> untouched (- territory \<union> spans (L - {(raw, buffer_size n)})) (base st) b)"
    using inv st c
  proof (induction c ps arbitrary: st rule: held.induct)
    case (1 c)
    then show ?case using counted_same [of h n c raw st] by (simp add: rt_simps)
  next
    case (2 c ps)
    have "loke_rt_v1_string_retain raw st = (Inr (), counted raw (c + 1) st)"
      using raw raw0 2 by (simp add: loke_rt_v1_string_retain_def header_of_def bind_def rt_simps set_header_def counted_def buffer_with_def)
    moreover have "buffer_with h n (c + 1) raw (counted raw (c + 1) st)" using 2 by (simp add: buffer_with_def counted_def)
    ultimately show ?case using 2 "2.IH" [of "counted raw (c + 1) st"] by (simp add: bind_def)
  next
    case (3 c ps)
    show ?case
    proof (cases "c = 1")
      case True
      then have "ps = []" using 3 by (cases ps; cases "hd ps") auto
      from free_law [OF 3(2), of raw "of_nat (buffer_size n)" HEADER_ALIGN, unfolded size, OF blk(1)] obtain b where
        b: "loke_rt_v1_free P h raw (of_nat (buffer_size n)) HEADER_ALIGN (base st) = (Inr (), b)" "inv (L - {(raw, buffer_size n)}) b"
          "untouched (- territory \<union> spans (L - {(raw, buffer_size n)})) (base st) b" by blast
      have "loke_rt_v1_string_release P raw st = (Inr (), (counted raw 0 st)\<lparr>base := b\<rparr>)"
        using raw raw0 3 True b(1) by (simp add: loke_rt_v1_string_release_def header_of_def bind_def rt_simps set_header_def counted_def buffer_with_def lift_def Let_def)
      then show ?thesis using True \<open>ps = []\<close> b by (auto simp: bind_def rt_simps)
    next
      case False
      have "loke_rt_v1_string_release P raw st = (Inr (), counted raw (c - 1) st)"
        using raw raw0 3 False by (simp add: loke_rt_v1_string_release_def header_of_def bind_def rt_simps set_header_def counted_def buffer_with_def Let_def)
      moreover have "buffer_with h n (c - 1) raw (counted raw (c - 1) st)" using 3 by (simp add: buffer_with_def counted_def)
      ultimately show ?thesis using 3 False "3.IH" [of "counted raw (c - 1) st"] by (simp add: bind_def)
    qed
  qed
  then show thesis using kept freed by blast
qed

end


section \<open>Properties\<close>

text \<open>The parts a clone or a concatenation copies are strings already.\<close>

fun valid_input :: "'w text_rt \<Rightarrow> creation \<Rightarrow> bool" where
  "valid_input st (Clone data len) \<longleftrightarrow> loke_rt_v1_utf8_valid (Some (bytes_at st data len)) (int (length (bytes_at st data len)))"
| "valid_input st (Concat p m q n) \<longleftrightarrow> loke_rt_v1_utf8_valid (Some (bytes_at st p m)) (int (length (bytes_at st p m))) \<and>
     loke_rt_v1_utf8_valid (Some (bytes_at st q n)) (int (length (bytes_at st q n)))"
| "valid_input st c \<longleftrightarrow> True"

lemma utf8_valid_null: "loke_rt_v1_utf8_valid None len \<Longrightarrow> len = 0"
  by (cases "0 < len") (auto simp: loke_rt_v1_utf8_valid_def utf8_valid_from.simps [of None len 0] loke_rt_v1_rune_at_def Let_def split: if_splits)

lemma text_valid:
  assumes "text_of st c = Some bs" and "valid_input st c"
  shows "loke_rt_v1_utf8_valid (Some bs) (int (length bs))"
proof (cases c)
  case (From_bytes data len)
  then have v: "loke_rt_v1_utf8_valid (data_arg st data len) len" "bs = bytes_at st data len" using assms(1) by (auto split: if_splits)
  then have "0 \<le> len" by (auto simp: loke_rt_v1_utf8_valid_def split: if_splits)
  show ?thesis
  proof (cases "data = 0")
    case True
    then have "len = 0" using v(1) utf8_valid_null by (simp add: data_arg_def)
    then have "bs = encode_runes []" using v(2) by (simp add: bytes_at_def)
    then show ?thesis unfolding utf8_valid_encoded by (intro exI [of _ "[]"]) simp
  next
    case False
    then show ?thesis using v \<open>0 \<le> len\<close> by (simp add: data_arg_def)
  qed
next
  case (Concat p m q n)
  then have bs: "bs = bytes_at st p m @ bytes_at st q n" using assms(1) by (auto split: if_splits)
  from assms(2) obtain vs ws where "list_all scalar vs" "bytes_at st p m = encode_runes vs" "list_all scalar ws" "bytes_at st q n = encode_runes ws"
    unfolding Concat valid_input.simps utf8_valid_encoded by blast
  then have "list_all scalar (vs @ ws)" "bs = encode_runes (vs @ ws)" using bs by simp_all
  then show ?thesis unfolding utf8_valid_encoded by blast
next
  case (From_runes runes count)
  then have "list_all scalar (runes_at st runes count)" "bs = encode_runes (runes_at st runes count)" using assms(1) by (auto split: if_splits)
  then show ?thesis unfolding utf8_valid_encoded by blast
qed (use assms in simp)

text \<open>C6. A string is what its type promises: every operation that creates one, from bytes, by copying, by joining
  two or from runes, either publishes a buffer of its own that holds exactly the text asked for, terminated by
  a zero, with one handle and the allocator and size a release will need, or publishes the empty value; the
  text is valid UTF-8; unacceptable input and, for the fallible operations, a refused allocation are answered
  with 0, while the others then leave by the allocator's policy; and everything else in memory is as before.\<close>

theorem string_creation:
  assumes "fixed_inv a b n L (base st)" and "readable (- fixed_territory a b n \<union> spans L) c"
  shows "promise (fixed_inv a b n) (fixed_territory a b n) a c L st out (create H (providers H k) out a c st) \<and>
    (\<forall>bs. text_of st c = Some bs \<and> valid_input st c \<longrightarrow> loke_rt_v1_utf8_valid (Some bs) (int (length bs)))"
  using fixed.create_law [OF assms] text_valid by blast

lemma sample_readable: "x + of_nat n \<le> 4096 \<Longrightarrow> unat x + n \<le> 4096 \<Longrightarrow> span x n \<subseteq> - fixed_territory 4096 4176 144 \<union> A"
  using sample_away by (auto simp: span_nowrap word_less_nat_alt)

definition sample_text :: "unit text_rt" where
  "sample_text = \<lparr>base = sample_arena\<lparr>mem := (\<lambda>x. if x < 0x200 then 0x61 else 0x62)\<rparr>, headers = (\<lambda>_. \<lparr>handles = 0, hd_allocator = 0, hd_block = 0\<rparr>), strings = (\<lambda>_. empty_string)\<rparr>"

lemma sample_text_inv: "fixed_inv 4096 4176 144 {} (base sample_text)"
  using sample_inv by (simp add: sample_text_def fixed_inv_def handle_ok_def)


theorem string_creation_witness:
  "case create sample_host (providers sample_host 0) 0x10 4096 (Concat 0x100 2 0x300 3) sample_text of
     (Inr ok, st') \<Rightarrow> if ok = 1 then created (fixed_inv 4096 4176 144) (fixed_territory 4096 4176 144) 4096 {} sample_text 0x10 [0x61, 0x61, 0x62, 0x62, 0x62] st' else ok = 0
   | (Inl e, st') \<Rightarrow> False"
proof -
  have "readable (- fixed_territory 4096 4176 144 \<union> spans {}) (Concat 0x100 2 0x300 3)" using sample_readable [of "0x100" 2 "{}"] sample_readable [of "0x300" 3 "{}"] by simp
  from conjunct1 [OF string_creation [OF sample_text_inv this, of "0x10" sample_host 0]]
  have "promise (fixed_inv 4096 4176 144) (fixed_territory 4096 4176 144) 4096 (Concat 0x100 2 0x300 3) {} sample_text 0x10
    (create sample_host (providers sample_host 0) 0x10 4096 (Concat 0x100 2 0x300 3) sample_text)" .
  moreover have "text_of sample_text (Concat 0x100 2 0x300 3) = Some [0x61, 0x61, 0x62, 0x62, 0x62]"
    by (simp add: loke_rt_v1_checked_add_def INT64_MAX_def bytes_at_def load_def sample_text_def upt_rec)
  ultimately show ?thesis by (auto simp: promise_def split: prod.splits sum.splits if_splits)
qed


definition sample_shared :: "unit text_rt" where
  "sample_shared = \<lparr>base = set_used 4176 32 sample_arena, headers = (\<lambda>_. \<lparr>handles = 1, hd_allocator = 4096, hd_block = 32\<rparr>), strings = (\<lambda>_. empty_string)\<rparr>"


end
