(* ===== verification/Loke_Runes.thy ===== *)
theory Loke_Runes
  imports Loke_String
begin

text \<open>
  The decoding of a string into an array of runes, \<^verbatim>\<open>loke_rt_v1_string_to_runes\<close> of \<^verbatim>\<open>runtime/container.c\<close>: a client of
  the decoder of \<open>Loke_Utf8\<close> and of the dynamic array.
\<close>

unbundle bit_operations_syntax

section \<open>Definitions\<close>

definition bytes_of_u32 :: "u32 \<Rightarrow> u8 list" where
  "bytes_of_u32 v = [ucast v, ucast (drop_bit 8 v), ucast (drop_bit 16 v), ucast (drop_bit 24 v)]"

definition text_arg :: "'w rt \<Rightarrow> addr \<Rightarrow> int \<Rightarrow> u8 list option" where
  "text_arg st data len = (if data = 0 then None else Some (load (mem st) data (nat len)))"

text \<open>The second pass; \<open>left\<close> is \<^verbatim>\<open>count - written\<close>.\<close>

fun to_runes_loop :: "addr \<Rightarrow> addr \<Rightarrow> int \<Rightarrow> nat \<Rightarrow> int \<Rightarrow> int \<Rightarrow> ('w rt, int) proc" where
  "to_runes_loop slots data len 0 offset written = return written"
| "to_runes_loop slots data len (Suc left) offset written =
     (if offset < len then bind get_state (\<lambda>st.
        case loke_rt_v1_rune_at (text_arg st data len) len offset of (used, decoded) \<Rightarrow>
          if used \<le> 0 then return written
          else bind (modify (\<lambda>st. st\<lparr>mem := store (mem st) (slots + word_of_int (4 * written)) (bytes_of_u32 decoded)\<rparr>)) (\<lambda>_.
            to_runes_loop slots data len left (offset + used) (written + 1)))
      else return written)"

definition loke_rt_v1_string_to_runes :: "'w providers \<Rightarrow> addr \<Rightarrow> 'w container_ops \<Rightarrow> addr \<Rightarrow> int \<Rightarrow> addr \<Rightarrow> ('w rt, int) proc" where
  "loke_rt_v1_string_to_runes P out ops data len a =
     bind (set_dyn out (\<lambda>_. \<lparr>dyn_data = 0, dyn_len = 0, dyn_cap = 0, dyn_allocator = a\<rparr>)) (\<lambda>_. bind get_state (\<lambda>st.
     let count = loke_rt_v1_rune_count (text_arg st data len) len in
     if count = 0 then return 1
     else bind (loke_rt_v1_dyn_reserve P out ops count) (\<lambda>reserved.
       if \<not> reserved then bind (loke_rt_v1_dyn_drop P out ops) (\<lambda>_. return 0)
       else bind get_state (\<lambda>st.
         bind (to_runes_loop (dyn_data (dyns st out)) data len (nat count) 0 0) (\<lambda>written.
         bind (set_dyn out (\<lambda>d. d\<lparr>dyn_len := written\<rparr>)) (\<lambda>_. return 1))))))"

section \<open>Runes in memory\<close>

lemma u32_bytes: "u32_of_bytes (bytes_of_u32 v) = v"
proof (rule bit_word_eqI)
  fix n assume "n < LENGTH(32)"
  then have n: "n < 32" by simp
  have up: "bit (push_bit k (ucast (ucast (drop_bit k v) :: u8)) :: u32) n \<longleftrightarrow> k \<le> n \<and> n < k + 8 \<and> bit v n" for k
    using n by (auto simp: bit_simps)
  have "bit (u32_of_bytes (bytes_of_u32 v)) n \<longleftrightarrow> (n < 8 \<or> 8 \<le> n \<and> n < 8 + 8 \<or> 16 \<le> n \<and> n < 16 + 8 \<or> 24 \<le> n \<and> n < 24 + 8) \<and> bit v n"
    using up [of 0] unfolding u32_of_bytes_def bytes_of_u32_def by (simp add: bit_or_iff up) blast
  then show "bit (u32_of_bytes (bytes_of_u32 v)) n = bit v n" using n by auto
qed

lemma length_bytes_of_u32 [simp]: "length (bytes_of_u32 v) = 4"
  by (simp add: bytes_of_u32_def)

lemma to_runes_loop_run:
  assumes vs: "list_all scalar vs" and bs: "bs = encode_runes (seen @ vs)" and scalars: "list_all scalar seen"
    and data: "data \<noteq> 0" "load (mem st) data (length bs) = bs" and N: "4 * (length seen + length vs) < 2 ^ 64"
    and apart: "span data (length bs) \<inter> span q (4 * (length seen + length vs)) = {}" and fits: "length bs < 2 ^ 64"
  shows "to_runes_loop q data (int (length bs)) (length vs) (int (length (encode_runes seen))) (int (length seen)) st =
    (Inr (int (length (seen @ vs))), st\<lparr>mem := store (mem st) (slot q 4 (length seen)) (concat (map bytes_of_u32 vs))\<rparr>)"
  using assms
proof (induction vs arbitrary: seen st)
  case Nil
  then show ?case by (simp add: rt_simps)
next
  case (Cons v vs)
  let ?off = "length (encode_runes seen)"
  have pre: "bs = encode_runes seen @ encode_runes (v # vs)" using Cons.prems(2) by simp
  note step = encoded_step [OF Cons.prems(1) pre]
  have dec: "loke_rt_v1_rune_at (text_arg st data (int (length bs))) (int (length bs)) (int ?off) = (int (length (loke_rt_encode_rune v)), v)"
    using step(1) Cons.prems(4,5) by (simp add: text_arg_def decode_at_def)
  let ?p = "slot q 4 (length seen)"
  let ?st = "st\<lparr>mem := store (mem st) ?p (bytes_of_u32 v)\<rparr>"
  have p: "q + word_of_int (4 * int (length seen)) = ?p" by (simp add: slot_def mult.commute)
  have sub: "span ?p 4 \<subseteq> span q (4 * (length seen + length (v # vs)))"
    using span_slot [of "length seen" "length seen + length (v # vs)" q 4] by (simp add: mult.commute)
  have "load (mem ?st) data (length bs) = load (mem st) data (length bs)"
    using load_store_apart [of data "length bs" ?p "bytes_of_u32 v" "mem st"] sub Cons.prems(7) by auto
  then have keep: "load (mem ?st) data (length bs) = bs" using Cons.prems(5) by simp
  have IH: "to_runes_loop q data (int (length bs)) (length vs) (int (length (encode_runes (seen @ [v])))) (int (length (seen @ [v]))) ?st =
      (Inr (int (length ((seen @ [v]) @ vs))), ?st\<lparr>mem := store (mem ?st) (slot q 4 (length (seen @ [v]))) (concat (map bytes_of_u32 vs))\<rparr>)"
    using Cons.prems keep by (intro Cons.IH) simp_all
  have st2: "?st\<lparr>mem := store (mem ?st) (slot q 4 (length (seen @ [v]))) (concat (map bytes_of_u32 vs))\<rparr> =
      st\<lparr>mem := store (mem st) ?p (concat (map bytes_of_u32 (v # vs)))\<rparr>"
  proof -
    have "length (concat (map bytes_of_u32 vs)) = 4 * length vs" by (induction vs) simp_all
    then have "length (bytes_of_u32 v) + length (concat (map bytes_of_u32 vs)) \<le> 2 ^ 64" using Cons.prems(6) by simp
    from store_append [OF this, of "mem st" ?p] show ?thesis by (simp add: slot_def algebra_simps)
  qed
  have "0 < int (length (loke_rt_encode_rune v))" using step(3) by simp
  then have "to_runes_loop q data (int (length bs)) (length (v # vs)) (int ?off) (int (length seen)) st =
      to_runes_loop q data (int (length bs)) (length vs) (int (length (encode_runes (seen @ [v])))) (int (length (seen @ [v]))) ?st"
    using step(2) dec p by (simp add: bind_def rt_simps add.commute)
  then show ?case unfolding IH st2 by simp
qed


section \<open>Decoding a string\<close>

lemma concat_u32: "length (concat (map bytes_of_u32 vs)) = 4 * length vs"
  by (induction vs) simp_all

lemma elems_u32: "4 * length vs < 2 ^ 64 \<Longrightarrow> elems (store m q (concat (map bytes_of_u32 vs))) q 4 (length vs) = map bytes_of_u32 vs"
  using elems_store_self [of "map bytes_of_u32 vs" 4 m q] by (auto simp: mult.commute)

lemma untouched_load: "untouched A st st' \<Longrightarrow> span p n \<subseteq> A \<Longrightarrow> load (mem st') p n = load (mem st) p n"
  by (rule load_cong) (auto simp: untouched_def agree_def)

lemma count_encoded: "list_all scalar vs \<Longrightarrow> loke_rt_v1_rune_count (Some (encode_runes vs)) (int (length (encode_runes vs))) = int (length vs)"
  using encoded_count [of vs "encode_runes vs" "[]" 0] by (simp add: loke_rt_v1_rune_count_def)

lemma runes_le_bytes: "list_all scalar vs \<Longrightarrow> length vs \<le> length (encode_runes vs)"
proof (induction vs)
  case (Cons v vs)
  moreover have "0 < length (loke_rt_encode_rune v)" using Cons.prems by (intro encode_rune_nonempty) simp
  ultimately show ?case by (simp del: length_greater_0_conv)
qed simp

text \<open>The array at \<open>out\<close> after the second pass has run over its storage.\<close>

definition filled :: "addr \<Rightarrow> u32 list \<Rightarrow> 'w rt \<Rightarrow> 'w rt" where
  "filled out vs st = st\<lparr>mem := store (mem st) (dyn_data (dyns st out)) (concat (map bytes_of_u32 vs)),
     dyns := (dyns st)(out := (dyns st out)\<lparr>dyn_len := int (length vs)\<rparr>)\<rparr>"

context provider
begin

lemma fill_runes:
  assumes inv: "inv L st" and ok: "dyn_ok h territory L st out 4" and vs: "vs \<noteq> []" "int (length vs) \<le> dyn_cap (dyns st out)" "list_all scalar vs"
    and bs: "bs = encode_runes vs" "int (length bs) \<le> INT64_MAX"
    and data: "data \<noteq> 0" "load (mem st) data (length bs) = bs" "span data (length bs) \<subseteq> - territory \<union> spans (L - own_block (dyns st out) 4)"
  shows "to_runes_loop (dyn_data (dyns st out)) data (int (length bs)) (length vs) 0 0 st =
      (Inr (int (length vs)), st\<lparr>mem := store (mem st) (dyn_data (dyns st out)) (concat (map bytes_of_u32 vs))\<rparr>)"
    and "inv L (filled out vs st)" and "dyn_ok h territory L (filled out vs st) out 4" and "contents (filled out vs st) out 4 = map bytes_of_u32 vs"
    and "own_block (dyns (filled out vs st) out) 4 = own_block (dyns st out) 4"
    and "leaves (- territory \<union> spans (L - own_block (dyns st out) 4)) out st (filled out vs st)"
proof -
  let ?q = "dyn_data (dyns st out)" and ?own = "own_block (dyns st out) 4" and ?A = "- territory \<union> spans (L - own_block (dyns st out) 4)"
  let ?cap = "nat (dyn_cap (dyns st out))" and ?new = "concat (map bytes_of_u32 vs)"
  have b: "?cap * 4 < 2 ^ 64" using dyn_ok_bounds [OF ok] by simp
  then have N: "4 * length vs < 2 ^ 64" "4 * length vs \<le> ?cap * 4" using vs(2) by simp_all
  have own: "?own = {(?q, ?cap * 4)}" using vs(1,2) by (cases vs) (auto simp: own_block_def)
  then have "?own \<noteq> {}" and four: "unat (4 :: 64 word) = 4" by simp_all
  note live = own_live [OF inv ok this(1), unfolded four]
  have away: "span ?q (?cap * 4) \<inter> ?A = {}" using live(2,3) by blast
  have qsub: "span ?q (4 * length vs) \<subseteq> span ?q (?cap * 4)" using span_sub [of 0 "4 * length vs" "?cap * 4" ?q] N(2) by simp
  show "to_runes_loop ?q data (int (length bs)) (length vs) 0 0 st = (Inr (int (length vs)), st\<lparr>mem := store (mem st) ?q ?new\<rparr>)"
    using to_runes_loop_run [OF vs(3), of bs "[]" data st ?q] bs data(1,2) N(1) away qsub data(3) by (simp add: INT64_MAX_def) blast
  have len: "length ?new = 4 * length vs" by (rule concat_u32)
  have "inv L (st\<lparr>mem := store (mem st) ?q ?new\<rparr>)"
  proof (rule inv_store [OF inv])
    show "span ?q (length ?new) \<subseteq> - territory \<union> spans L"
      using qsub spans_member [of ?q "?cap * 4" L] ok own unfolding len dyn_ok_def Let_def by auto
  qed (use N(1) len in simp)
  moreover have "out \<in> - territory \<union> spans L" using ok by (auto simp: dyn_ok_def Let_def spans_def)
  ultimately show "inv L (filled out vs st)" using inv_set_dyn [of L "st\<lparr>mem := store (mem st) ?q ?new\<rparr>" out] by (simp add: filled_def)
  have ob: "own_block (d\<lparr>dyn_len := n\<rparr>) 4 = own_block d 4" for d n by (simp add: own_block_def)
  show "dyn_ok h territory L (filled out vs st) out 4" using ok vs(2) by (simp add: filled_def dyn_ok_def Let_def ob)
  show "contents (filled out vs st) out 4 = map bytes_of_u32 vs" using elems_u32 [OF N(1), of "mem st" ?q] by (simp add: filled_def contents_def)
  show "own_block (dyns (filled out vs st) out) 4 = ?own" by (simp add: filled_def ob)
  have "untouched ?A st (st\<lparr>mem := store (mem st) ?q ?new\<rparr>)" using away qsub N(1) len by (intro untouched_store) auto
  then have "leaves ?A out st ((st\<lparr>mem := store (mem st) ?q ?new\<rparr>)\<lparr>dyns := (dyns st)(out := (dyns st out)\<lparr>dyn_len := int (length vs)\<rparr>)\<rparr>)"
    using leaves_then_set_dyn [of ?A st "st\<lparr>mem := store (mem st) ?q ?new\<rparr>" out] by simp
  then show "leaves ?A out st (filled out vs st)" by (simp add: filled_def)
qed

lemma to_runes_run:
  assumes inv: "inv L st" and vs: "list_all scalar vs" and bs: "bs = encode_runes vs" "int (length bs) \<le> INT64_MAX"
    and data: "data \<noteq> 0" "load (mem st) data (length bs) = bs" "span data (length bs) \<subseteq> - territory \<union> spans L"
    and ops: "elem_size ops = 4" "elem_drop ops = None" "pow2 (sane_container_align (elem_align ops))" and out: "out \<in> - territory \<union> spans L"
  obtains (refused) st' where "loke_rt_v1_string_to_runes P out ops data (int (length bs)) h st = (Inr 0, st')" and "inv L st'" and "dyns st' out = zero_dyn"
      and "leaves (- territory \<union> spans L) out st st'"
  | (decoded) st' L' where "loke_rt_v1_string_to_runes P out ops data (int (length bs)) h st = (Inr 1, st')" and "inv L' st'"
      and "dyn_ok h territory L' st' out 4" and "contents st' out 4 = map bytes_of_u32 vs" and "L' - own_block (dyns st' out) 4 = L"
      and "leaves (- territory \<union> spans L) out st st'"
proof -
  let ?A = "- territory \<union> spans L" and ?d = "\<lparr>dyn_data = 0, dyn_len = 0, dyn_cap = 0, dyn_allocator = h\<rparr>" and ?n = "int (length bs)"
  define st0 where "st0 = st\<lparr>dyns := (dyns st)(out := ?d)\<rparr>"
  have d0: "dyns st0 out = ?d" "own_block (dyns st0 out) 4 = {}" "mem st0 = mem st" by (simp_all add: st0_def own_block_def)
  have inv0: "inv L st0" unfolding st0_def using inv out by (rule inv_set_dyn)
  have ok0: "dyn_ok h territory L st0 out 4" using out by (simp add: dyn_ok_def d0 INT64_MAX_def own_block_def)
  have l0: "leaves ?A out st st0" unfolding st0_def by (rule leaves_set_dyn)
  have lenv: "length vs \<le> length bs"
    unfolding bs(1) using vs by (rule runes_le_bytes)
  have count: "loke_rt_v1_rune_count (text_arg st0 data ?n) ?n = int (length vs)"
    using count_encoded [OF vs] data(1,2) by (simp add: text_arg_def d0 bs(1))
  have start: "loke_rt_v1_string_to_runes P out ops data ?n h st =
      (if vs = [] then (Inr 1, st0)
       else bind (loke_rt_v1_dyn_reserve P out ops (int (length vs))) (\<lambda>reserved.
         if \<not> reserved then bind (loke_rt_v1_dyn_drop P out ops) (\<lambda>_. return 0)
         else bind get_state (\<lambda>st. bind (to_runes_loop (dyn_data (dyns st out)) data ?n (length vs) 0 0) (\<lambda>written.
           bind (set_dyn out (\<lambda>d. d\<lparr>dyn_len := written\<rparr>)) (\<lambda>_. return 1)))) st0)"
    using count by (simp add: loke_rt_v1_string_to_runes_def bind_def [of "set_dyn out _"] bind_def [of get_state] set_dyn_run rt_simps st0_def [symmetric] Let_def cong: if_cong)
  show thesis
  proof (cases "vs = []")
    case True
    then show thesis using start inv0 ok0 l0 d0 that(2) [of st0 L] by (simp add: contents_def)
  next
    case False
    have m: "0 \<le> int (length vs)" "int (length vs) \<le> INT64_MAX" using lenv bs(2) by simp_all
    from inv0 ok0 [folded ops(1)] m ops(3) show thesis
    proof (cases rule: reserve_cases)
      case (refused st1)
      have "loke_rt_v1_dyn_drop P out ops st1 = (Inr (), st1\<lparr>dyns := (dyns st1)(out := zero_dyn)\<rparr>)"
        using refused(3) by (simp add: loke_rt_v1_dyn_drop_def ops(2) bind_def rt_simps set_dyn_run d0)
      then have "loke_rt_v1_string_to_runes P out ops data ?n h st = (Inr 0, st1\<lparr>dyns := (dyns st1)(out := zero_dyn)\<rparr>)"
        unfolding start using False refused(1) by (simp add: bind_def rt_simps)
      moreover have "leaves ?A out st (st1\<lparr>dyns := (dyns st1)(out := zero_dyn)\<rparr>)"
        by (rule leaves_trans [OF l0 leaves_then_set_dyn [OF refused(4)]])
      ultimately show thesis using that(1) inv_set_dyn [OF refused(2) out] by simp
    next
      case (reserved st1 L1)
      note res = reserved [unfolded ops(1) d0(2) Diff_empty]
      have txt1: "load (mem st1) data (length bs) = bs"
        using leaves_elems [OF res(8), of data 1 "length bs"] data(2,3) d0(3) by (simp add: elems_def)
      note fill = fill_runes [OF res(2,3) False res(6) vs bs data(1) txt1, unfolded res(7), OF data(3)]
      let ?st3 = "filled out vs st1"
      have run: "loke_rt_v1_string_to_runes P out ops data ?n h st = (Inr 1, ?st3)"
        unfolding start using False res(1) fill(1) by (simp add: bind_def rt_simps set_dyn_run filled_def Let_def)
      have "L1 - own_block (dyns ?st3 out) 4 = L" using res(7) fill(5) by simp
      moreover have "leaves ?A out st ?st3" using leaves_trans [OF l0 leaves_trans [OF res(8) fill(6)]] .
      moreover note fill(2,3,4)
      ultimately show thesis using that(2) [OF run] by blast
    qed
  qed
qed

text \<open>A string that was just made from runes decodes to them again.\<close>

lemma decode_new:
  assumes rd: "readable (- territory \<union> spans L) (From_runes runes count)" and array: "array \<in> - territory \<union> spans L"
    and made: "promise inv territory h (From_runes runes count) L st out (Inr 1, st1)"
    and ops: "elem_size ops = 4" "elem_drop ops = None" "pow2 (sane_container_align (elem_align ops))"
  shows "\<exists>ok b. loke_rt_v1_string_to_runes P array ops (str_data (strings st1 out)) (byte_len (strings st1 out)) h (base st1) = (Inr ok, b) \<and>
    (if ok = 1 then map u32_of_bytes (contents b array 4) = runes_at st runes count else ok = 0 \<and> dyns b array = zero_dyn) \<and>
    load (mem b) (str_data (strings st1 out)) (nat (byte_len (strings st1 out))) = encode_runes (runes_at st runes count)"
proof -
  let ?vs = "runes_at st runes count"
  define bs where "bs = encode_runes ?vs"
  have vs: "list_all scalar ?vs" and new: "created inv territory h L st out bs st1"
    using made by (auto simp: promise_def bs_def split: if_splits)
  have "length bs \<le> 4 * nat count" using encode_runes_length [of ?vs] by (simp add: bs_def runes_at_def)
  then have small: "int (length bs) \<le> INT64_MAX" using rd by (simp add: INT64_MAX_def) linarith
  show ?thesis
  proof (cases "bs = []")
    case True
    then have "length ?vs \<le> 0" using runes_le_bytes [OF vs] unfolding bs_def [symmetric] by simp
    then have "?vs = []" by simp
    moreover have "strings st1 out = empty_string" using new True by (simp add: created_def)
    moreover have "loke_rt_v1_rune_count None 0 = 0" by code_simp
    ultimately show ?thesis
      by (simp add: loke_rt_v1_string_to_runes_def empty_string_def text_arg_def bind_def set_dyn_run rt_simps Let_def contents_def)
  next
    case False
    then obtain raw where raw: "inv (insert (raw, buffer_size (length bs)) L) (base st1)" "new_string h bs st1 out raw"
      using new by (auto simp: created_def)
    let ?L = "insert (raw, buffer_size (length bs)) L"
    have s: "str_data (strings st1 out) = raw + 24" "byte_len (strings st1 out) = int (length bs)"
      and held: "load (mem (base st1)) (raw + 24) (length bs + 1) = bs @ [0]" using raw(2) by (simp_all add: new_string_def)
    have data: "load (mem (base st1)) (raw + 24) (length bs) = bs"
      using arg_cong [OF held, of "take (length bs)"] by (simp add: load_def take_map)
    have blk: "block_in (?L - {(raw, buffer_size (length bs))}) territory raw (buffer_size (length bs))" by (rule live_inside [OF raw(1)]) simp
    have sub: "span (raw + 24) (length bs) \<subseteq> - territory \<union> spans ?L"
      using span_sub [of 24 "length bs" "buffer_size (length bs)" raw] spans_member [of raw "buffer_size (length bs)" ?L] by auto
    have "unat raw + 24 < 2 ^ 64" using blk unfolding block_in_def by linarith
    then have "unat (raw + 24) = unat raw + 24" by (simp add: unat_word_ariths)
    then have nz: "raw + 24 \<noteq> 0" by auto
    have arr: "array \<in> - territory \<union> spans ?L" using array by (auto simp: spans_def)
    have kept: "leaves (- territory \<union> spans ?L) array (base st1) b \<Longrightarrow> load (mem b) (raw + 24) (length bs) = bs" for b
      using leaves_elems [of "- territory \<union> spans ?L" array "base st1" b "raw + 24" 1 "length bs"] sub data by (simp add: elems_def)
    from raw(1) vs bs_def small nz data sub ops arr show ?thesis
    proof (cases rule: to_runes_run)
      case (refused b)
      then show ?thesis using kept [of b] unfolding s by (intro exI [of _ 0] exI [of _ b]) (simp add: bs_def)
    next
      case (decoded b L')
      moreover have "map u32_of_bytes (map bytes_of_u32 ?vs) = ?vs" by (simp add: u32_bytes comp_def)
      ultimately show ?thesis using kept [of b] unfolding s by (intro exI [of _ 1] exI [of _ b]) (simp add: bs_def)
    qed
  qed
qed

end

text \<open>C38. A string decodes to its runes: for any string of scalar values held in memory, the two passes answer an
  array whose elements are exactly those values, in order, in storage of its own, or a refusal with the zero
  array and nothing kept; the string itself and everything else in memory is as before.\<close>

theorem string_to_runes_decodes:
  assumes "fixed_inv a b n L st" and "list_all scalar vs" and "bs = concat (map loke_rt_encode_rune vs)" and "int (length bs) \<le> INT64_MAX"
    and "data \<noteq> 0" and "load (mem st) data (length bs) = bs" and "span data (length bs) \<subseteq> - fixed_territory a b n \<union> spans L"
    and "elem_size ops = 4" and "elem_drop ops = None" and "pow2 (sane_container_align (elem_align ops))" and "out \<in> - fixed_territory a b n \<union> spans L"
  shows "\<exists>ok st'. loke_rt_v1_string_to_runes (providers H k) out ops data (int (length bs)) a st = (Inr ok, st') \<and>
    leaves (- fixed_territory a b n \<union> spans L) out st st' \<and>
    (if ok = 1 then \<exists>L'. fixed_inv a b n L' st' \<and> dyn_ok a (fixed_territory a b n) L' st' out 4 \<and> map u32_of_bytes (contents st' out 4) = vs \<and>
        L' - own_block (dyns st' out) 4 = L
     else ok = 0 \<and> fixed_inv a b n L st' \<and> dyns st' out = zero_dyn)"
  using assms
proof (cases rule: fixed.to_runes_run [where H = H and k = k])
  case (refused st')
  then show ?thesis by (intro exI [of _ 0] exI [of _ st']) simp
next
  case (decoded st' L')
  moreover have "map u32_of_bytes (map bytes_of_u32 vs) = vs" by (simp add: u32_bytes comp_def)
  ultimately show ?thesis by (intro exI [of _ 1] exI [of _ st']) auto
qed

theorem string_to_runes_decodes_witness:
  "\<exists>ok st'. loke_rt_v1_string_to_runes (providers sample_host 0) 0x10 (sample_ops\<lparr>elem_size := 4, elem_drop := None\<rparr>) 0x100 2 4096 (base sample_text) = (Inr ok, st') \<and>
    (if ok = 1 then map u32_of_bytes (contents st' 0x10 4) = [0x61, 0x61] else ok = 0)"
proof -
  have enc: "concat (map loke_rt_encode_rune [0x61, 0x61]) = [0x61, 0x61]" "list_all scalar [0x61, 0x61]" by code_simp+
  have "load (mem (base sample_text)) 0x100 2 = [0x61, 0x61]" by (simp add: load_def sample_text_def upt_rec)
  moreover have "span 0x100 2 \<subseteq> - fixed_territory 4096 4176 144 \<union> spans {}" "0x10 \<in> - fixed_territory 4096 4176 144 \<union> spans {}"
    using sample_readable [of "0x100" 2 "spans {}"] sample_away [of "0x10"] by simp_all
  moreover have "pow2 (sane_container_align (elem_align (sample_ops\<lparr>elem_size := 4, elem_drop := None\<rparr>)))" using sample_ops_align by simp
  moreover have two: "length [0x61, 0x61 :: u8] = 2" by simp
  ultimately obtain ok st' where
    "loke_rt_v1_string_to_runes (providers sample_host 0) 0x10 (sample_ops\<lparr>elem_size := 4, elem_drop := None\<rparr>) 0x100 (int 2) 4096 (base sample_text) = (Inr ok, st')"
    and "if ok = 1 then \<exists>L'. fixed_inv 4096 4176 144 L' st' \<and> dyn_ok 4096 (fixed_territory 4096 4176 144) L' st' 0x10 4 \<and>
        map u32_of_bytes (contents st' 0x10 4) = [0x61, 0x61] \<and> L' - own_block (dyns st' 0x10) 4 = {}
     else ok = 0 \<and> fixed_inv 4096 4176 144 {} st' \<and> dyns st' 0x10 = zero_dyn"
    using string_to_runes_decodes [OF sample_text_inv enc(2) enc(1) [symmetric], of "0x100" "sample_ops\<lparr>elem_size := 4, elem_drop := None\<rparr>" "0x10" sample_host 0, unfolded two]
    by (auto simp: INT64_MAX_def)
  then show ?thesis by (intro exI [of _ ok] exI [of _ st']) (auto split: if_splits)
qed

end
