(* ===== verification/Loke_Float.thy ===== *)
theory Loke_Float
  imports Complex_Main Loke_Alloc
begin

text \<open>
  The shortest spelling of a float, from \<^verbatim>\<open>runtime/format.c\<close>: the search over precisions, the candidate one
  unit up, and the layout of the digits.  Floating-point values and the C library's conversions are a
  parameter; what the spellings denote is computed over the rationals.
\<close>

section \<open>Definitions\<close>

subsection \<open>Library text functions\<close>

text \<open>\<^verbatim>\<open>atoi\<close>, and the spellings \<^verbatim>\<open>%d\<close> and \<^verbatim>\<open>%+03d\<close> of \<^verbatim>\<open>snprintf\<close> into a buffer of 8 bytes.\<close>

definition is_digit :: "char \<Rightarrow> bool" where
  "is_digit c \<longleftrightarrow> (48 :: nat) \<le> of_char c \<and> of_char c \<le> (57 :: nat)"

definition digits_value :: "string \<Rightarrow> nat" where
  "digits_value s = foldl (\<lambda>n c. n * 10 + (of_char c - 48)) 0 s"

definition atoi :: "string \<Rightarrow> int" where
  "atoi s = (case s of
     [] \<Rightarrow> 0
   | c # cs \<Rightarrow> if c = CHR ''-'' then - int (digits_value (takeWhile is_digit cs))
       else if c = CHR ''+'' then int (digits_value (takeWhile is_digit cs))
       else int (digits_value (takeWhile is_digit s)))"

definition percent_d :: "int \<Rightarrow> string" where
  "percent_d n = (if n < 0 then ''-'' else []) @ decimal (nat \<bar>n\<bar>)"

definition percent_plus_03d :: "int \<Rightarrow> string" where
  "percent_plus_03d n =
     (let d = decimal (nat \<bar>n\<bar>) in (if n < 0 then ''-'' else ''+'') @ (if length d < 2 then CHR ''0'' # d else d))"

subsection \<open>One unit up\<close>

text \<open>The digits are visited from the last one leftwards, so the mantissa is reversed; the flag says that
  the carry left the leading digit.\<close>

fun spell_up_from :: "string \<Rightarrow> string \<times> bool" where
  "spell_up_from [] = ([], False)"
| "spell_up_from (d # ds) =
     (if d = CHR ''.'' then apfst ((#) d) (spell_up_from ds)
      else if d \<noteq> CHR ''9'' then (char_of (of_char d + 1 :: nat) # ds, False)
      else if ds = [] \<or> hd ds = CHR ''-'' then (CHR ''1'' # ds, True)
      else apfst ((#) (CHR ''0'')) (spell_up_from ds))"

definition spell_up :: "string \<Rightarrow> string" where
  "spell_up sci =
     (let mantissa = takeWhile (\<lambda>c. c \<noteq> CHR ''e'') sci;
          exponent = tl (dropWhile (\<lambda>c. c \<noteq> CHR ''e'') sci);
          (digits, carried) = spell_up_from (rev mantissa)
      in rev digits @ ''e'' @ (if carried then take 7 (percent_plus_03d (atoi exponent + 1)) else exponent))"

subsection \<open>The general layout\<close>

function trim_zeros :: "string \<Rightarrow> string" where
  "trim_zeros ds = (if length ds > 1 \<and> last ds = CHR ''0'' then trim_zeros (butlast ds) else ds)"
  by pat_completeness auto
termination
  by (relation "measure length") auto

declare trim_zeros.simps [simp del]

definition spell_general :: "string \<Rightarrow> string" where
  "spell_general sci =
     (let negative = (sci \<noteq> [] \<and> hd sci = CHR ''-'');
          p = (if negative then tl sci else sci);
          sign = (if negative then ''-'' else []);
          ds = filter (\<lambda>c. c \<noteq> CHR ''.'') (takeWhile (\<lambda>c. c \<noteq> CHR ''e'') p);
          exponent = atoi (tl (dropWhile (\<lambda>c. c \<noteq> CHR ''e'') p));
          ds = trim_zeros ds;
          count = length ds
      in if exponent < -4 \<or> exponent \<ge> 17
         then sign @ [hd ds] @ (if count > 1 then CHR ''.'' # tl ds else []) @ take 7 (CHR ''e'' # percent_d exponent)
         else if exponent < 0
         then sign @ ''0.'' @ replicate (nat (- exponent) - 1) (CHR ''0'') @ ds
         else sign @ concat (map (\<lambda>i. (if i = nat exponent + 1 then ''.'' else []) @ [if i < count then ds ! i else CHR ''0''])
             [0..<max (nat exponent + 1) count]) @ (if count \<le> nat exponent + 1 then ''.0'' else []))"

subsection \<open>Floats\<close>

text \<open>Floating-point values and the C library functions on them are parameters: a value of type \<open>'d\<close> is a
  \<^verbatim>\<open>double\<close>, with the \<^verbatim>\<open>%.*e\<close> and \<^verbatim>\<open>%.*f\<close> spellings and \<^verbatim>\<open>strtod\<close> in the "C" locale.\<close>

record 'd float_host =
  isnan :: "'d \<Rightarrow> bool"
  isinf :: "'d \<Rightarrow> bool"
  is_negative :: "'d \<Rightarrow> bool"
  same_double :: "'d \<Rightarrow> 'd \<Rightarrow> bool"
  to_float :: "'d \<Rightarrow> 'd"
  spell_e :: "nat \<Rightarrow> 'd \<Rightarrow> string"
  spell_f :: "nat \<Rightarrow> 'd \<Rightarrow> string"
  strtod :: "string \<Rightarrow> 'd"
  strtod_rest :: "string \<Rightarrow> string"
  frexp_exponent :: "'d \<Rightarrow> int"
  ldexp :: "'d \<Rightarrow> int \<Rightarrow> 'd"
  nearbyint :: "'d \<Rightarrow> 'd"

definition LOKE_RT_FLOAT_SPELLING_MAX :: nat where
  "LOKE_RT_FLOAT_SPELLING_MAX = 32"

definition nearest_f16 :: "'d float_host \<Rightarrow> 'd \<Rightarrow> 'd" where
  "nearest_f16 F x =
     (let exponent = frexp_exponent F x; unit = (if exponent - 11 < -24 then -24 else exponent - 11)
      in ldexp F (nearbyint F (ldexp F x (- unit))) unit)"

definition reads_back :: "'d float_host \<Rightarrow> string \<Rightarrow> 'd \<Rightarrow> int \<Rightarrow> bool" where
  "reads_back F sci v bits =
     (let back = strtod F sci in
      if bits = 16 then same_double F (nearest_f16 F back) v
      else if bits = 32 then same_double F (to_float F back) (to_float F v)
      else same_double F back v)"

text \<open>The loop over precisions, from \<open>precision\<close> with \<open>n\<close> more to come up to the widest.\<close>

primrec spell_precise :: "'d float_host \<Rightarrow> 'd \<Rightarrow> int \<Rightarrow> nat \<Rightarrow> nat \<Rightarrow> string" where
  "spell_precise F v bits precision 0 = take 31 (spell_e F (precision - 1) v)"
| "spell_precise F v bits precision (Suc n) =
     (let sci = take 31 (spell_e F (precision - 1) v) in
      if reads_back F sci v bits then sci
      else let sci = spell_up sci in
        if reads_back F sci v bits then sci else spell_precise F v bits (precision + 1) n)"

definition spell_float :: "'d float_host \<Rightarrow> 'd \<Rightarrow> int \<Rightarrow> string" where
  "spell_float F v bits =
     (if isnan F v then ''nan''
      else if isinf F v then (if is_negative F v then ''-inf'' else ''inf'')
      else let widest = (if bits = 16 then 5 else if bits = 32 then 9 else 17)
        in spell_general (spell_precise F v bits 1 (widest - 1)))"

section \<open>The number a text denotes\<close>

definition text_value :: "string \<Rightarrow> rat" where
  "text_value s =
     (let negative = (s \<noteq> [] \<and> hd s = CHR ''-'');
          p = (if negative then tl s else s);
          mantissa = takeWhile (\<lambda>c. c \<noteq> CHR ''e'') p;
          exponent = (if CHR ''e'' \<in> set p then atoi (tl (dropWhile (\<lambda>c. c \<noteq> CHR ''e'') p)) else 0);
          whole = takeWhile (\<lambda>c. c \<noteq> CHR ''.'') mantissa;
          fraction = tl (dropWhile (\<lambda>c. c \<noteq> CHR ''.'') mantissa)
      in (if negative then -1 else 1) * of_nat (digits_value (whole @ fraction)) * 10 powi (exponent - int (length fraction)))"

text \<open>The form of a \<^verbatim>\<open>%.*e\<close> spelling: a digit, a point and the other digits if there are any, and the exponent
  with its sign and at least two digits.\<close>

definition digit_string :: "string \<Rightarrow> bool" where
  "digit_string ds \<longleftrightarrow> list_all is_digit ds"

definition sci_text :: "bool \<Rightarrow> string \<Rightarrow> int \<Rightarrow> string" where
  "sci_text negative ds e = (if negative then ''-'' else []) @ hd ds # (if tl ds = [] then [] else CHR ''.'' # tl ds) @ CHR ''e'' # percent_plus_03d e"

lemma not_digit: "is_digit c \<Longrightarrow> c \<noteq> CHR ''.'' \<and> c \<noteq> CHR ''e'' \<and> c \<noteq> CHR ''-'' \<and> c \<noteq> CHR ''+''"
  by (auto simp: is_digit_def)

lemma digit_string_simps [simp]:
  "digit_string []" "digit_string (c # s) \<longleftrightarrow> is_digit c \<and> digit_string s" "digit_string (s @ t) \<longleftrightarrow> digit_string s \<and> digit_string t"
  "is_digit (CHR ''0'')" "digit_string (replicate k (CHR ''0''))"
  by (auto simp: digit_string_def is_digit_def list_all_iff)

lemma digits_value_append: "digits_value (xs @ ys) = digits_value xs * 10 ^ length ys + digits_value ys"
proof (induction ys rule: rev_induct)
  case (snoc y ys)
  then show ?case by (simp add: digits_value_def algebra_simps flip: append_assoc)
qed (simp add: digits_value_def)

lemma digits_value_zeros [simp]: "digits_value (replicate k (CHR ''0'')) = 0"
  by (induction k) (simp_all add: digits_value_def)

lemma takeWhile_no: "list_all (\<lambda>c. c \<noteq> x) s \<Longrightarrow> takeWhile (\<lambda>c. c \<noteq> x) (s @ x # r) = s \<and> dropWhile (\<lambda>c. c \<noteq> x) (s @ x # r) = x # r"
  by (induction s) auto

lemma takeWhile_all: "list_all (\<lambda>c. c \<noteq> x) s \<Longrightarrow> takeWhile (\<lambda>c. c \<noteq> x) s = s \<and> dropWhile (\<lambda>c. c \<noteq> x) s = []"
  by (induction s) auto

lemma decimal_digits: "digit_string (decimal n)" "decimal n \<noteq> []" "digits_value (decimal n) = n"
proof (induction n rule: decimal.induct)
  case (1 n)
  {
    case 1
    then show ?case using "1.IH"(1) by (subst decimal.simps) (auto simp: digit_string_def is_digit_def)
  next
    case 2
    then show ?case by (subst decimal.simps) simp
  next
    case 3
    then show ?case using "1.IH"(3)
      by (subst decimal.simps) (auto simp: digits_value_append, auto simp: digits_value_def)
  }
qed

lemma takeWhile_digits: "digit_string s \<Longrightarrow> takeWhile is_digit s = s"
  by (simp add: digit_string_def list_all_iff takeWhile_eq_all_conv)

lemma atoi_percent: "atoi (percent_d e) = e" "atoi (percent_plus_03d e) = e"
proof -
  obtain c cs where d: "decimal (nat \<bar>e\<bar>) = c # cs" using decimal_digits(2) by (metis neq_Nil_conv)
  then have c: "is_digit c" using decimal_digits(1) [of "nat \<bar>e\<bar>"] by (simp add: digit_string_def)
  note v = decimal_digits [of "nat \<bar>e\<bar>"]
  show "atoi (percent_d e) = e"
    using v(3) not_digit [OF c] d takeWhile_digits [OF v(1), unfolded d] by (auto simp del: takeWhile_eq_all_conv takeWhile.simps simp: atoi_def percent_d_def)
  have z: "digit_string (CHR ''0'' # decimal (nat \<bar>e\<bar>))" "digits_value (CHR ''0'' # decimal (nat \<bar>e\<bar>)) = nat \<bar>e\<bar>"
    using v digits_value_append [of "''0''" "decimal (nat \<bar>e\<bar>)"] by (simp_all add: digit_string_def is_digit_def) (simp add: digits_value_def)
  define D where "D = decimal (nat \<bar>e\<bar>)"
  have "percent_plus_03d e = (if e < 0 then ''-'' else ''+'') @ (if length D < 2 then CHR ''0'' # D else D)"
    by (simp add: percent_plus_03d_def D_def Let_def)
  then show "atoi (percent_plus_03d e) = e"
    using v(3) z(2) takeWhile_digits [OF v(1)] takeWhile_digits [OF z(1)] unfolding D_def [symmetric]
    by (simp add: atoi_def del: takeWhile.simps takeWhile_eq_all_conv)
qed

abbreviation sign_text :: "bool \<Rightarrow> string" where
  "sign_text negative \<equiv> (if negative then ''-'' else [])"

abbreviation sign_of :: "bool \<Rightarrow> rat" where
  "sign_of negative \<equiv> (if negative then -1 else 1)"

lemma digit_string_no: "digit_string s \<Longrightarrow> list_all (\<lambda>c. c \<noteq> CHR ''.'') s \<and> list_all (\<lambda>c. c \<noteq> CHR ''e'') s"
  using not_digit by (auto simp: digit_string_def list_all_iff)

lemma text_value_parts:
  assumes w: "digit_string w" "w \<noteq> []" and f: "digit_string f"
  shows "text_value (sign_text n @ w @ CHR ''.'' # f @ CHR ''e'' # x) = sign_of n * of_nat (digits_value (w @ f)) * 10 powi (atoi x - int (length f))"
    and "text_value (sign_text n @ w @ CHR ''e'' # x) = sign_of n * of_nat (digits_value w) * 10 powi (atoi x)"
    and "text_value (sign_text n @ w @ CHR ''.'' # f) = sign_of n * of_nat (digits_value (w @ f)) * 10 powi (- int (length f))"
proof -
  have hd: "hd (sign_text n @ w @ r) = CHR ''-'' \<longleftrightarrow> n" for r
    using w not_digit by (cases w) (auto simp: digit_string_def)
  have p: "(if n then tl (sign_text n @ w @ r) else sign_text n @ w @ r) = w @ r" for r by simp
  have e1: "list_all (\<lambda>c. c \<noteq> CHR ''e'') (w @ CHR ''.'' # f)" using digit_string_no [OF w(1)] digit_string_no [OF f] by simp
  note t1 = takeWhile_no [OF e1, of x] and t2 = takeWhile_no [OF conjunct1 [OF digit_string_no [OF w(1)]], of f]
    and t3 = takeWhile_no [OF conjunct2 [OF digit_string_no [OF w(1)]], of x] and t4 = takeWhile_all [OF conjunct1 [OF digit_string_no [OF w(1)]]]
    and t5 = takeWhile_all [OF e1]
  have ne: "sign_text n @ w @ r \<noteq> []" for r using w(2) by simp
  show "text_value (sign_text n @ w @ CHR ''.'' # f @ CHR ''e'' # x) = sign_of n * of_nat (digits_value (w @ f)) * 10 powi (atoi x - int (length f))"
    unfolding text_value_def Let_def hd p using ne t1 t2 by simp
  show "text_value (sign_text n @ w @ CHR ''e'' # x) = sign_of n * of_nat (digits_value w) * 10 powi (atoi x)"
    unfolding text_value_def Let_def hd p using ne t3 by (simp add: t4 [THEN conjunct1] t4 [THEN conjunct2])
  have "CHR ''e'' \<notin> set (w @ CHR ''.'' # f)" using e1 by (auto simp: list_all_iff)
  then show "text_value (sign_text n @ w @ CHR ''.'' # f) = sign_of n * of_nat (digits_value (w @ f)) * 10 powi (- int (length f))"
    unfolding text_value_def Let_def hd p using ne t2 by (simp add: t5 [THEN conjunct1] t5 [THEN conjunct2])
qed

lemma sci_text_value:
  assumes "digit_string ds" and "ds \<noteq> []"
  shows "text_value (sci_text n ds e) = sign_of n * of_nat (digits_value ds) * 10 powi (e - int (length ds - 1))"
proof (cases "tl ds = []")
  case True
  then obtain d where "ds = [d]" using assms(2) by (cases ds) auto
  then show ?thesis using text_value_parts(2) [of ds "[]" n "percent_plus_03d e"] assms by (simp add: sci_text_def atoi_percent digit_string_def)
next
  case False
  then obtain d r where ds: "ds = d # r" "r \<noteq> []" using assms(2) by (cases ds) auto
  then show ?thesis using text_value_parts(1) [of "[d]" r n "percent_plus_03d e"] assms by (simp add: sci_text_def atoi_percent digit_string_def)
qed

lemma trim_zeros_run: "\<exists>k. ds = trim_zeros ds @ replicate k (CHR ''0'')" "ds \<noteq> [] \<Longrightarrow> trim_zeros ds \<noteq> []"
proof (induction ds rule: trim_zeros.induct)
  case (1 ds)
  {
    case 1
    show ?case
    proof (cases "length ds > 1 \<and> last ds = CHR ''0''")
      case True
      with "1.IH"(1) obtain k where "butlast ds = trim_zeros (butlast ds) @ replicate k (CHR ''0'')" by blast
      moreover have "ds = butlast ds @ [CHR ''0'']" using True by (metis append_butlast_last_id length_greater_0_conv less_trans zero_less_one)
      ultimately have "ds = trim_zeros (butlast ds) @ replicate (Suc k) (CHR ''0'')" by (metis append.assoc replicate_append_same replicate_Suc)
      with True show ?thesis by (subst trim_zeros.simps) (simp del: replicate_Suc, blast)
    qed (subst trim_zeros.simps, auto intro: exI [of _ 0])
  next
    case 2
    show ?case
    proof (cases "length ds > 1 \<and> last ds = CHR ''0''")
      case True
      then have "butlast ds \<noteq> []" by (cases ds rule: rev_cases) auto
      with "1.IH"(2) True show ?thesis by (subst trim_zeros.simps) simp
    qed (subst trim_zeros.simps, use 2 in auto)
  }
qed

lemma tens: "(10 :: rat) powi a * 10 ^ k = 10 powi (a + int k)"
  by (simp add: power_int_add)

section \<open>The general layout keeps the number\<close>

lemma sci_text_parts:
  fixes e :: int
  assumes "digit_string ds" and "ds \<noteq> []"
  defines "p \<equiv> hd ds # (if tl ds = [] then [] else CHR ''.'' # tl ds) @ CHR ''e'' # percent_plus_03d e"
  shows "sci_text n ds e = sign_text n @ p" and "hd p \<noteq> CHR ''-''"
    and "filter (\<lambda>c. c \<noteq> CHR ''.'') (takeWhile (\<lambda>c. c \<noteq> CHR ''e'') p) = ds"
    and "dropWhile (\<lambda>c. c \<noteq> CHR ''e'') p = CHR ''e'' # percent_plus_03d e"
proof -
  show "sci_text n ds e = sign_text n @ p" by (simp add: sci_text_def p_def)
  obtain d r where ds: "ds = d # r" using assms(2) by (cases ds) auto
  have d: "is_digit d" "digit_string r" using assms(1) by (simp_all add: ds digit_string_def)
  show "hd p \<noteq> CHR ''-''" using not_digit [OF d(1)] by (simp add: p_def ds)
  have ok: "list_all (\<lambda>c. c \<noteq> CHR ''e'') (d # (if r = [] then [] else CHR ''.'' # r))"
    using not_digit [OF d(1)] digit_string_no [OF d(2)] by auto
  have p: "p = (d # (if r = [] then [] else CHR ''.'' # r)) @ CHR ''e'' # percent_plus_03d e" by (simp add: p_def ds)
  show "dropWhile (\<lambda>c. c \<noteq> CHR ''e'') p = CHR ''e'' # percent_plus_03d e" unfolding p using takeWhile_no [OF ok] by blast
  have "takeWhile (\<lambda>c. c \<noteq> CHR ''e'') p = d # (if r = [] then [] else CHR ''.'' # r)" unfolding p using takeWhile_no [OF ok] by blast
  moreover have "filter (\<lambda>c. c \<noteq> CHR ''.'') r = r" using digit_string_no [OF d(2)] by (simp add: list_all_iff)
  ultimately show "filter (\<lambda>c. c \<noteq> CHR ''.'') (takeWhile (\<lambda>c. c \<noteq> CHR ''e'') p) = ds"
    using not_digit [OF d(1)] by (simp add: ds)
qed

definition fixed_digits :: "string \<Rightarrow> nat \<Rightarrow> string" where
  "fixed_digits ds n = (if length ds \<le> n then ds @ replicate (n - length ds) (CHR ''0'') @ ''.0'' else take n ds @ CHR ''.'' # drop n ds)"

lemma fixed_layout:
  "concat (map (\<lambda>i. (if i = n then ''.'' else []) @ [if i < length ds then ds ! i else CHR ''0'']) [0..<max n (length ds)]) @
     (if length ds \<le> n then ''.0'' else []) = fixed_digits ds n"
proof -
  let ?g = "\<lambda>i. if i < length ds then ds ! i else CHR ''0''"
  have plain: "concat (map (\<lambda>i. (if i = n then ''.'' else []) @ [?g i]) is) = map ?g is" if "n \<notin> set is" for "is"
    using that by (induction "is") auto
  show ?thesis
  proof (cases "length ds \<le> n")
    case True
    have "map ?g [0..<n] = ds @ replicate (n - length ds) (CHR ''0'')"
      using True by (intro nth_equalityI) (auto simp: nth_append)
    with True plain [of "[0..<n]"] show ?thesis by (simp add: fixed_digits_def max_def)
  next
    case False
    then have split: "[0..<max n (length ds)] = [0..<n] @ n # [Suc n..<length ds]"
      by (metis le_add_diff_inverse less_imp_le max.absorb2 not_le upt_add_eq_append upt_conv_Cons zero_le)
    have "map ?g [0..<n] = take n ds" using False by (intro nth_equalityI) auto
    moreover have "?g n # map ?g [Suc n..<length ds] = drop n ds"
      using False by (intro nth_equalityI) (auto simp: nth_Cons split: nat.splits)
    ultimately show ?thesis
      using False plain [of "[0..<n]"] plain [of "[Suc n..<length ds]"] unfolding split by (simp add: fixed_digits_def)
  qed
qed

lemma decimal_length: "n < 10 ^ k \<Longrightarrow> 0 < k \<Longrightarrow> length (decimal n) \<le> k"
proof (induction n arbitrary: k rule: decimal.induct)
  case (1 n)
  show ?case
  proof (cases "n < 10")
    case True
    then show ?thesis using "1.prems" by (subst decimal.simps) simp
  next
    case False
    then have "k \<noteq> 1" using "1.prems" by auto
    then obtain j where j: "k = Suc j" "0 < j" using "1.prems"(2) by (cases k) auto
    then have "n div 10 < 10 ^ j" using "1.prems"(1) by (simp add: div_less_iff_less_mult mult.commute)
    from "1.IH" [OF False this j(2)] False j show ?thesis by (subst decimal.simps) simp
  qed
qed

lemma exponent_text: "\<bar>e\<bar> < 1000 \<Longrightarrow> length (percent_d e) \<le> 4 \<and> length (percent_plus_03d e) \<le> 4"
  using decimal_length [of "nat \<bar>e\<bar>" 3] by (auto simp: percent_d_def percent_plus_03d_def Let_def nat_less_iff)

text \<open>The three layouts.\<close>

lemma spell_general_sci:
  assumes ds: "digit_string ds" "ds \<noteq> []" and e: "\<bar>e\<bar> < 1000"
  defines "t \<equiv> trim_zeros ds"
  shows "spell_general (sci_text n ds e) = sign_text n @
    (if e < -4 \<or> 17 \<le> e then hd t # (if tl t = [] then [] else CHR ''.'' # tl t) @ CHR ''e'' # percent_d e
     else if e < 0 then ''0.'' @ replicate (nat (- e) - 1) (CHR ''0'') @ t
     else fixed_digits t (nat e + 1))"
proof -
  note p = sci_text_parts [OF ds, where e = e]
  have ne: "t \<noteq> []" unfolding t_def using ds(2) by (rule trim_zeros_run(2))
  have hd: "sci_text n ds e \<noteq> [] \<and> hd (sci_text n ds e) = CHR ''-'' \<longleftrightarrow> n" using p(2) unfolding p(1) by simp
  have tl: "(if n then tl (sci_text n ds e) else sci_text n ds e) = hd ds # (if tl ds = [] then [] else CHR ''.'' # tl ds) @ CHR ''e'' # percent_plus_03d e"
    unfolding p(1) by simp
  have cnt: "1 < length t \<longleftrightarrow> tl t \<noteq> []" using ne by (cases t) auto
  have take: "take 7 (CHR ''e'' # percent_d e) = CHR ''e'' # percent_d e" using exponent_text [OF e] by simp
  show ?thesis
    unfolding spell_general_def Let_def hd tl p(3,4) list.sel atoi_percent t_def [symmetric] cnt take fixed_layout
    by simp
qed

theorem spell_general_value:
  assumes ds: "digit_string ds" "ds \<noteq> []" and e: "\<bar>e\<bar> < 1000"
  shows "text_value (spell_general (sci_text n ds e)) = text_value (sci_text n ds e)"
proof -
  define t where "t = trim_zeros ds"
  obtain k where k: "ds = t @ replicate k (CHR ''0'')" using trim_zeros_run(1) [of ds] by (auto simp: t_def)
  have "digit_string (t @ replicate k (CHR ''0''))" using ds(1) k by simp
  moreover have "t \<noteq> []" using trim_zeros_run(2) [OF ds(2)] by (simp add: t_def)
  ultimately have t: "digit_string t" "t \<noteq> []" by (simp_all add: digit_string_def)
  let ?c = "int (length t)" and ?v = "sign_of n * of_nat (digits_value t)"
  have goal: "text_value (sci_text n ds e) = ?v * 10 powi (e + 1 - ?c)"
  proof -
    have "int (length ds - 1) = ?c + int k - 1" using t(2) by (simp add: k of_nat_diff Suc_leI)
    moreover have "(of_nat (digits_value ds) :: rat) = of_nat (digits_value t) * 10 ^ k" unfolding k by (simp add: digits_value_append)
    moreover have "(10 :: rat) powi (e - (?c + int k - 1)) * 10 ^ k = 10 powi (e + 1 - ?c)" using tens [of "e - (?c + int k - 1)" k] by (simp add: add_diff_eq)
    ultimately show ?thesis unfolding sci_text_value [OF ds] by (simp add: mult.assoc mult.commute [of "10 ^ k"])
  qed
  consider (exp) "e < -4 \<or> 17 \<le> e" | (small) "-4 \<le> e" "e < 0" | (fixed) "0 \<le> e" "e < 17" by linarith
  then show ?thesis
  proof cases
    case exp
    obtain d r where dr: "t = d # r" using t(2) by (cases t) auto
    have d: "digit_string [d]" "digit_string r" using t(1) by (simp_all add: dr digit_string_def)
    have "text_value (sign_text n @ hd t # (if tl t = [] then [] else CHR ''.'' # tl t) @ CHR ''e'' # percent_d e) = ?v * 10 powi (e + 1 - ?c)"
    proof (cases "r = []")
      case True
      then show ?thesis using text_value_parts(2) [OF d(1) _ d(2), of n "percent_d e"] by (simp add: dr atoi_percent)
    next
      case False
      then show ?thesis using text_value_parts(1) [OF d(1) _ d(2), of n "percent_d e"] by (simp add: dr atoi_percent algebra_simps)
    qed
    with exp show ?thesis unfolding goal spell_general_sci [OF assms] t_def [symmetric] by simp
  next
    case small
    have f: "digit_string (replicate (nat (- e) - 1) (CHR ''0'') @ t)" using t(1) by simp
    have z: "digit_string ''0''" by simp
    have "digits_value (''0'' @ replicate (nat (- e) - 1) (CHR ''0'') @ t) = digits_value t"
      using digits_value_zeros [of "Suc (nat (- e) - 1)"] digits_value_append [of "replicate (Suc (nat (- e) - 1)) (CHR ''0'')" t] by simp
    moreover have "- int (length (replicate (nat (- e) - 1) (CHR ''0'') @ t)) = e + 1 - ?c" using small by (simp add: of_nat_diff)
    ultimately have "text_value (sign_text n @ ''0'' @ CHR ''.'' # replicate (nat (- e) - 1) (CHR ''0'') @ t) = ?v * 10 powi (e + 1 - ?c)"
      using text_value_parts(3) [OF z _ f, of n] by (simp add: algebra_simps)
    with small show ?thesis unfolding goal spell_general_sci [OF assms] t_def [symmetric] by simp
  next
    case fixed
    define N where "N = nat e + 1"
    have N: "int N = e + 1" using fixed by (simp add: N_def)
    have "text_value (sign_text n @ fixed_digits t N) = ?v * 10 powi (e + 1 - ?c)"
    proof (cases "length t \<le> N")
      case True
      have w: "digit_string (t @ replicate (N - length t) (CHR ''0''))" "digit_string ''0''" "t @ replicate (N - length t) (CHR ''0'') \<noteq> []"
        using t by simp_all
      have zeros: "replicate (N - length t) (CHR ''0'') @ ''0'' = replicate (Suc (N - length t)) (CHR ''0'')" by (simp add: replicate_append_same)
      have "(of_nat (digits_value ((t @ replicate (N - length t) (CHR ''0'')) @ ''0'')) :: rat) = of_nat (digits_value t) * 10 ^ Suc (N - length t)"
        unfolding append_assoc zeros by (simp only: digits_value_append digits_value_zeros length_replicate add_0_right of_nat_mult of_nat_power of_nat_numeral)
      moreover have "(10 :: rat) ^ Suc (N - length t) * 10 powi (- 1) = 10 powi (e + 1 - ?c)"
        using True N tens [of "- 1" "Suc (N - length t)"] by (simp add: mult.commute of_nat_diff algebra_simps)
      ultimately show ?thesis
        using text_value_parts(3) [OF w(1,3,2), of n] True by (simp add: fixed_digits_def mult.assoc)
    next
      case False
      have w: "digit_string (take N t)" "digit_string (drop N t)" using t(1) by (auto simp: digit_string_def list_all_iff dest: in_set_takeD in_set_dropD)
      have ne: "take N t \<noteq> []" using t(2) by (simp add: N_def)
      have "- int (length (drop N t)) = e + 1 - ?c" using False N by (simp add: of_nat_diff)
      then show ?thesis using text_value_parts(3) [OF w(1) ne w(2), of n] False by (simp add: fixed_digits_def)
    qed
    with fixed show ?thesis unfolding goal spell_general_sci [OF assms] t_def [symmetric] N_def by simp
  qed
qed

section \<open>One unit up is one unit up\<close>

lemma up_digit:
  assumes "is_digit x" and "x \<noteq> CHR ''9''"
  defines "y \<equiv> char_of (of_char x + 1 :: nat)"
  shows "is_digit y" and "of_char y = (of_char x + 1 :: nat)"
proof -
  have "of_char x \<noteq> (57 :: nat)"
  proof
    assume "of_char x = (57 :: nat)"
    then have "of_char x = (of_char (CHR ''9'') :: nat)" by simp
    with assms(2) show False by (simp only: of_char_eq_iff)
  qed
  with assms(1) have "of_char x + 1 < (256 :: nat)" "of_char x + 1 \<le> (57 :: nat)" by (simp_all add: is_digit_def)
  then show "of_char y = (of_char x + 1 :: nat)" by (simp add: y_def of_char_of)
  with assms(1) \<open>of_char x + 1 \<le> (57 :: nat)\<close> show "is_digit y" by (simp add: is_digit_def)
qed

lemma nines_then: "is_digit x \<Longrightarrow> x \<noteq> CHR ''9'' \<Longrightarrow>
    spell_up_from (replicate k (CHR ''9'') @ x # rest) = (replicate k (CHR ''0'') @ char_of (of_char x + 1 :: nat) # rest, False)"
proof (induction k)
  case 0
  then show ?case using not_digit [of x] by simp
next
  case (Suc k)
  have "hd (replicate k (CHR ''9'') @ x # rest) \<noteq> CHR ''-''" using not_digit [OF Suc.prems(1)] by (cases k) auto
  with Suc show ?case by simp
qed

lemma nines_point: "spell_up_from (replicate k (CHR ''9'') @ CHR ''.'' # rest) = apfst (\<lambda>r. replicate k (CHR ''0'') @ CHR ''.'' # r) (spell_up_from rest)"
proof (induction k)
  case (Suc k)
  have "hd (replicate k (CHR ''9'') @ CHR ''.'' # rest) \<noteq> CHR ''-''" by (cases k) auto
  with Suc show ?case by (simp add: prod.map_comp apfst_def map_prod_def split: prod.splits)
qed simp

lemma leading_nine: "spell_up_from (CHR ''9'' # sign_text n) = (CHR ''1'' # sign_text n, True)"
  by simp

lemma nines_value: "digits_value (replicate k (CHR ''9'')) + 1 = 10 ^ k"
proof (induction k)
  case (Suc k)
  then show ?case using digits_value_append [of "replicate k (CHR ''9'')" "''9''"]
    by (simp add: replicate_append_same) (simp add: digits_value_def)
qed (simp add: digits_value_def)

lemma last_other: "list_all is_digit r \<Longrightarrow> (\<exists>p x k. r = p @ x # replicate k (CHR ''9'') \<and> is_digit x \<and> x \<noteq> CHR ''9'') \<or> r = replicate (length r) (CHR ''9'')"
proof (induction r rule: rev_induct)
  case (snoc y r)
  then have y: "is_digit y" and r: "list_all is_digit r" by simp_all
  show ?case
  proof (cases "y = CHR ''9''")
    case True
    from snoc.IH [OF r] show ?thesis
    proof (elim disjE exE conjE)
      fix p x k assume "r = p @ x # replicate k (CHR ''9'')" "is_digit x" "x \<noteq> CHR ''9''"
      then show ?thesis using True by (intro disjI1 exI [of _ p] exI [of _ x] exI [of _ "Suc k"]) (simp add: replicate_append_same)
    next
      assume "r = replicate (length r) (CHR ''9'')"
      then obtain k where "r = replicate k (CHR ''9'')" by blast
      then show ?thesis using True by (simp add: replicate_append_same)
    qed
  next
    case False
    then show ?thesis using y by (intro disjI1 exI [of _ r] exI [of _ y] exI [of _ 0]) simp
  qed
qed simp

lemma bump_value:
  assumes "is_digit x" "x \<noteq> CHR ''9''"
  shows "digits_value (p @ char_of (of_char x + 1 :: nat) # replicate k (CHR ''0'')) = digits_value (p @ x # replicate k (CHR ''9'')) + 1"
proof -
  have one: "digits_value (c # r) = (of_char c - 48) * 10 ^ length r + digits_value r" for c r
    using digits_value_append [of "[c]" r] by (simp add: digits_value_def)
  have "of_char (char_of (of_char x + 1 :: nat)) - 48 = (of_char x - 48) + (1 :: nat)"
    using up_digit(2) [OF assms] assms(1) unfolding is_digit_def by linarith
  moreover define a :: nat where "a = of_char x - 48"
  ultimately have "digits_value (p @ char_of (of_char x + 1 :: nat) # replicate k (CHR ''0'')) = digits_value p * 10 ^ Suc k + (a + 1) * 10 ^ k"
      "digits_value (p @ x # replicate k (CHR ''9'')) = digits_value p * 10 ^ Suc k + (a * 10 ^ k + digits_value (replicate k (CHR ''9'')))"
    by (simp_all only: digits_value_append one length_replicate length_Cons digits_value_zeros add_0_right)
  then show ?thesis using nines_value [of k] by (simp add: algebra_simps)
qed

text \<open>The mantissa of a spelling, one unit up.\<close>

lemma spell_up_digits:
  fixes n :: bool
  assumes ds: "digit_string ds" "ds \<noteq> []"
  defines "m \<equiv> \<lambda>ds. sign_text n @ hd ds # (if tl ds = [] then [] else CHR ''.'' # tl ds)"
  obtains (up) ds' where "spell_up_from (rev (m ds)) = (rev (m ds'), False)" and "digit_string ds'" and "length ds' = length ds"
      and "digits_value ds' = digits_value ds + 1"
  | (carried) ds' where "spell_up_from (rev (m ds)) = (rev (m ds'), True)" and "digit_string ds'" and "length ds' = length ds"
      and "10 * digits_value ds' = digits_value ds + 1"
proof -
  obtain d r where dr: "ds = d # r" using ds(2) by (cases ds) auto
  have d: "is_digit d" "list_all is_digit r" using ds(1) by (simp_all add: dr digit_string_def)
  have rsgn: "rev (sign_text n) = sign_text n" by simp
  from last_other [OF d(2)] show thesis
  proof (elim disjE exE conjE)
    fix p x k assume r: "r = p @ x # replicate k (CHR ''9'')" and x: "is_digit x" "x \<noteq> CHR ''9''"
    let ?y = "char_of (of_char x + 1 :: nat)"
    let ?ds = "d # p @ ?y # replicate k (CHR ''0'')"
    have "spell_up_from (rev (m ds)) = (rev (m ?ds), False)"
      using nines_then [OF x, of k "rev p @ CHR ''.'' # d # rev (sign_text n)"] by (simp add: m_def dr r)
    moreover have "digit_string ?ds" using d up_digit(1) [OF x] by (simp add: r flip: digit_string_def)
    moreover have "digits_value ?ds = digits_value ds + 1" using bump_value [OF x, of "d # p" k] by (simp add: dr r)
    ultimately show thesis by (intro that(1) [of ?ds]) (simp_all add: dr r)
  next
    assume r: "r = replicate (length r) (CHR ''9'')"
    define k where "k = length r"
    have r: "r = replicate k (CHR ''9'')" using r by (simp add: k_def)
    show thesis
    proof (cases "d = CHR ''9''")
      case True
      let ?ds = "CHR ''1'' # replicate k (CHR ''0'')"
      have "spell_up_from (rev (m ds)) = (rev (m ?ds), True)"
        using nines_point [of k "CHR ''9'' # sign_text n"] leading_nine [of n] unfolding m_def dr True r by (cases "k = 0") auto
      moreover have "digit_string ?ds" by (simp add: is_digit_def)
      moreover have "10 * digits_value ?ds = digits_value ds + 1"
        using nines_value [of "Suc k"] digits_value_append [of "''1''" "replicate k (CHR ''0'')"] by (simp add: dr True r digits_value_def [of "''1''"])
      ultimately show thesis by (intro that(2) [of ?ds]) (simp_all add: dr r)
    next
      case False
      let ?y = "char_of (of_char d + 1 :: nat)"
      let ?ds = "?y # replicate k (CHR ''0'')"
      have "spell_up_from (d # sign_text n) = (?y # sign_text n, False)" using False not_digit [OF d(1)] by simp
      then have "spell_up_from (rev (m ds)) = (rev (m ?ds), False)"
        using nines_point [of k "d # sign_text n"] unfolding m_def dr r by (cases "k = 0") auto
      moreover have "digit_string ?ds" using up_digit(1) [OF d(1) False] by simp
      moreover have "digits_value ?ds = digits_value ds + 1" using bump_value [OF d(1) False, of "[]" k] by (simp add: dr r)
      ultimately show thesis by (intro that(1) [of ?ds]) (simp_all add: dr r)
    qed
  qed
qed


lemma sci_text_split: "sci_text n ds e = (sign_text n @ hd ds # (if tl ds = [] then [] else CHR ''.'' # tl ds)) @ CHR ''e'' # percent_plus_03d e"
  by (simp add: sci_text_def)

lemma mantissa_no_e: "digit_string ds \<Longrightarrow> ds \<noteq> [] \<Longrightarrow> list_all (\<lambda>c. c \<noteq> CHR ''e'') (sign_text n @ hd ds # (if tl ds = [] then [] else CHR ''.'' # tl ds))"
  using not_digit digit_string_no [of "tl ds"] by (cases ds) auto

lemma percent_plus_take: "\<bar>e\<bar> < 1000 \<Longrightarrow> take 7 (percent_plus_03d e) = percent_plus_03d e"
  using exponent_text [of e] by simp

lemma spell_up_sci:
  assumes ds: "digit_string ds" "ds \<noteq> []" and e: "\<bar>e\<bar> < 999"
  obtains ds' e' where "spell_up (sci_text n ds e) = sci_text n ds' e'" and "digit_string ds'" and "length ds' = length ds" and "\<bar>e'\<bar> < 1000"
    and "text_value (sci_text n ds' e') = text_value (sci_text n ds e) + sign_of n * 10 powi (e - int (length ds - 1))"
proof -
  note parts = takeWhile_no [OF mantissa_no_e [OF ds, of n], of "percent_plus_03d e"]
  from ds show thesis
  proof (cases rule: spell_up_digits [where n = n])
    case (up ds')
    then have ne: "ds' \<noteq> []" using ds(2) by auto
    have "spell_up (sci_text n ds e) = sci_text n ds' e"
      using parts up(1) unfolding spell_up_def sci_text_split by simp
    moreover have "text_value (sci_text n ds' e) = text_value (sci_text n ds e) + sign_of n * 10 powi (e - int (length ds - 1))"
      unfolding sci_text_value [OF ds] sci_text_value [OF up(2) ne] up(3,4) by (simp add: algebra_simps)
    ultimately show thesis using that [of ds' e] up(2,3) e by simp
  next
    case (carried ds')
    then have ne: "ds' \<noteq> []" using ds(2) by auto
    have e': "\<bar>e + 1\<bar> < 1000" using e by linarith
    have "spell_up (sci_text n ds e) = sci_text n ds' (e + 1)"
      using parts carried(1) percent_plus_take [OF e'] unfolding spell_up_def sci_text_split by (simp add: atoi_percent)
    moreover have "text_value (sci_text n ds' (e + 1)) = text_value (sci_text n ds e) + sign_of n * 10 powi (e - int (length ds - 1))"
    proof -
      have "(10 :: rat) powi (e + 1 - int (length ds - 1)) = 10 * 10 powi (e - int (length ds - 1))"
        using tens [of "e - int (length ds - 1)" 1] by (simp add: algebra_simps)
      moreover have "(10 :: rat) * of_nat (digits_value ds') = of_nat (digits_value ds) + 1"
        using arg_cong [OF carried(4), of "of_nat :: nat \<Rightarrow> rat"] by simp
      ultimately have "of_nat (digits_value ds') * 10 powi (e + 1 - int (length ds - 1)) = (of_nat (digits_value ds) + 1) * (10 :: rat) powi (e - int (length ds - 1))"
        by (metis mult.assoc mult.commute)
      then show ?thesis
        unfolding sci_text_value [OF ds] sci_text_value [OF carried(2) ne] carried(3) mult.assoc by (simp only: distrib_left distrib_right mult_1)
    qed
    ultimately show thesis using that [of ds' "e + 1"] carried(2,3) e' by simp
  qed
qed

section \<open>Well-formed numbers\<close>

definition exponent_ok :: "string \<Rightarrow> bool" where
  "exponent_ok s = (let d = (if s \<noteq> [] \<and> (hd s = CHR ''-'' \<or> hd s = CHR ''+'') then tl s else s) in d \<noteq> [] \<and> digit_string d)"

definition float_text :: "string \<Rightarrow> bool" where
  "float_text s =
     (let p = (if s \<noteq> [] \<and> hd s = CHR ''-'' then tl s else s);
          mantissa = takeWhile (\<lambda>c. c \<noteq> CHR ''e'') p;
          exponent = dropWhile (\<lambda>c. c \<noteq> CHR ''e'') p;
          whole = takeWhile (\<lambda>c. c \<noteq> CHR ''.'') mantissa;
          fraction = dropWhile (\<lambda>c. c \<noteq> CHR ''.'') mantissa
      in whole \<noteq> [] \<and> digit_string whole \<and> digit_string (tl fraction) \<and> (exponent = [] \<or> exponent_ok (tl exponent)))"

lemma float_text_parts:
  assumes w: "digit_string w" "w \<noteq> []" and f: "digit_string f"
  shows "exponent_ok x \<Longrightarrow> float_text (sign_text n @ w @ CHR ''.'' # f @ CHR ''e'' # x)"
    and "exponent_ok x \<Longrightarrow> float_text (sign_text n @ w @ CHR ''e'' # x)"
    and "float_text (sign_text n @ w @ CHR ''.'' # f)"
proof -
  have hd: "hd (sign_text n @ w @ r) = CHR ''-'' \<longleftrightarrow> n" for r
    using w not_digit by (cases w) auto
  have p: "(if n then tl (sign_text n @ w @ r) else sign_text n @ w @ r) = w @ r" for r by simp
  have e1: "list_all (\<lambda>c. c \<noteq> CHR ''e'') (w @ CHR ''.'' # f)" using digit_string_no [OF w(1)] digit_string_no [OF f] by simp
  note t1 = takeWhile_no [OF e1, of x] and t2 = takeWhile_no [OF conjunct1 [OF digit_string_no [OF w(1)]], of f]
    and t3 = takeWhile_no [OF conjunct2 [OF digit_string_no [OF w(1)]], of x] and t4 = takeWhile_all [OF conjunct1 [OF digit_string_no [OF w(1)]]]
    and t5 = takeWhile_all [OF e1]
  have ne: "sign_text n @ w @ r \<noteq> []" for r using w(2) by simp
  show "float_text (sign_text n @ w @ CHR ''.'' # f @ CHR ''e'' # x)" if "exponent_ok x"
    unfolding float_text_def Let_def hd p using ne t1 t2 w f that by simp
  show "float_text (sign_text n @ w @ CHR ''e'' # x)" if "exponent_ok x"
    unfolding float_text_def Let_def hd p using ne t3 w that by (simp add: t4 [THEN conjunct1] t4 [THEN conjunct2])
  show "float_text (sign_text n @ w @ CHR ''.'' # f)"
    unfolding float_text_def Let_def hd p using ne t2 w f by (simp add: t5 [THEN conjunct1] t5 [THEN conjunct2] del: dropWhile_eq_Nil_conv)
qed

lemma exponent_ok_percent: "exponent_ok (percent_d e)" "exponent_ok (percent_plus_03d e)"
proof -
  obtain c cs where d: "decimal (nat \<bar>e\<bar>) = c # cs" using decimal_digits(2) by (metis neq_Nil_conv)
  then have c: "is_digit c" "digit_string cs" using decimal_digits(1) [of "nat \<bar>e\<bar>"] by simp_all
  show "exponent_ok (percent_d e)" "exponent_ok (percent_plus_03d e)"
    using not_digit [OF c(1)] c d by (auto simp: exponent_ok_def percent_d_def percent_plus_03d_def Let_def)
qed

lemma sci_text_float: "digit_string ds \<Longrightarrow> ds \<noteq> [] \<Longrightarrow> float_text (sci_text n ds e)"
  using float_text_parts(1) [of "[hd ds]" "tl ds" "percent_plus_03d e" n] float_text_parts(2) [of "[hd ds]" "[]" "percent_plus_03d e" n]
  by (cases ds) (auto simp: sci_text_def exponent_ok_percent)

text \<open>The layout of a number of at most 17 digits: a well-formed number, marked as a float by its point or its
  exponent, with the sign of the spelling it came from, in at most 24 bytes.\<close>

lemma spell_general_form:
  fixes n :: bool
  assumes ds: "digit_string ds" "ds \<noteq> []" "length ds \<le> 17" and e: "\<bar>e\<bar> < 1000"
  defines "s \<equiv> spell_general (sci_text n ds e)"
  shows "float_text s" and "length s \<le> 24" and "CHR ''.'' \<in> set s \<or> CHR ''e'' \<in> set s" and "hd s = CHR ''-'' \<longleftrightarrow> n"
proof -
  define t where "t = trim_zeros ds"
  obtain k where k: "ds = t @ replicate k (CHR ''0'')" using trim_zeros_run(1) [of ds] by (auto simp: t_def)
  then have t: "digit_string t" "length t \<le> 17" using ds(1,3) by simp_all
  have ne: "t \<noteq> []" using trim_zeros_run(2) [OF ds(2)] by (simp add: t_def)
  then obtain d r where dr: "t = d # r" by (cases t) auto
  have d: "digit_string [d]" "digit_string r" "d \<noteq> CHR ''-''" using t(1) not_digit by (auto simp: dr)
  note form = spell_general_sci [OF ds(1,2) e, of n, folded t_def s_def]
  have len: "length (percent_d e) \<le> 4" using exponent_text [OF e] by simp
  consider (exp) "e < -4 \<or> 17 \<le> e" | (small) "-4 \<le> e" "e < 0" | (fixed) "0 \<le> e" "e < 17" by linarith
  then have "float_text s \<and> length s \<le> 24 \<and> (CHR ''.'' \<in> set s \<or> CHR ''e'' \<in> set s) \<and> (hd s = CHR ''-'' \<longleftrightarrow> n)"
  proof cases
    case exp
    then have s: "s = sign_text n @ [d] @ (if r = [] then [] else CHR ''.'' # r) @ CHR ''e'' # percent_d e" using form by (simp add: dr)
    have "float_text s" unfolding s using float_text_parts(1,2) [OF d(1) _ d(2) exponent_ok_percent(1), of n e] by auto
    with s len t(2) d(3) show ?thesis by (auto simp: dr)
  next
    case small
    then have s: "s = sign_text n @ ''0'' @ CHR ''.'' # replicate (nat (- e) - 1) (CHR ''0'') @ t" using form by simp
    have "float_text s" unfolding s by (rule float_text_parts(3)) (simp_all add: t(1))
    with s t(2) small show ?thesis by auto
  next
    case fixed
    define N where "N = nat e + 1"
    have N: "N \<le> 17" "0 < N" using fixed by (simp_all add: N_def)
    have s: "s = sign_text n @ fixed_digits t N" using form fixed by (simp add: N_def)
    show ?thesis
    proof (cases "length t \<le> N")
      case True
      then have s: "s = sign_text n @ (t @ replicate (N - length t) (CHR ''0'')) @ CHR ''.'' # ''0''" unfolding s by (simp add: fixed_digits_def)
      have "float_text s" unfolding s by (rule float_text_parts(3)) (simp_all add: t(1) ne)
      with s t(2) N True d(3) show ?thesis by (auto simp: dr)
    next
      case False
      then have s: "s = sign_text n @ take N t @ CHR ''.'' # drop N t" unfolding s by (simp add: fixed_digits_def)
      have "digit_string (take N t @ drop N t)" using t(1) by simp
      then have "digit_string (take N t)" "digit_string (drop N t)" by (simp_all only: digit_string_simps)
      then have "float_text s" unfolding s using N(2) ne by (intro float_text_parts(3)) simp_all
      moreover have "take N t = d # take (N - 1) r" using N(2) by (cases N) (simp_all add: dr)
      ultimately show ?thesis using s t(2) N d(3) by auto
    qed
  qed
  then show "float_text s" and "length s \<le> 24" and "CHR ''.'' \<in> set s \<or> CHR ''e'' \<in> set s" and "hd s = CHR ''-'' \<longleftrightarrow> n"
    by simp_all
qed


section \<open>Spelling a float\<close>

text \<open>What the code relies on of the C library.  A reading depends only on the number and the sign of a well-formed
  text; a finite value has the scientific form at every precision; and the widest precision reads back.\<close>

definition strtod_by_value :: "'d float_host \<Rightarrow> bool" where
  "strtod_by_value F \<longleftrightarrow> (\<forall>s t. float_text s \<and> float_text t \<and> text_value s = text_value t \<and> (hd s = CHR ''-'' \<longleftrightarrow> hd t = CHR ''-'') \<longrightarrow> strtod F s = strtod F t)"

definition spells_scientific :: "'d float_host \<Rightarrow> 'd \<Rightarrow> bool" where
  "spells_scientific F v \<longleftrightarrow> (\<forall>p. \<exists>n ds e. spell_e F p v = sci_text n ds e \<and> digit_string ds \<and> length ds = Suc p \<and> \<bar>e\<bar> < 999)"

definition widest_of :: "int \<Rightarrow> nat" where
  "widest_of bits = (if bits = 16 then 5 else if bits = 32 then 9 else 17)"

lemma sci_text_short:
  assumes "digit_string ds" "ds \<noteq> []" "length ds \<le> 17" "\<bar>e\<bar> < 1000"
  shows "take 31 (sci_text n ds e) = sci_text n ds e"
  using assms exponent_text [of e] by (cases ds) (auto simp: sci_text_def)

lemma spell_precise_result:
  assumes sci: "spells_scientific F v" and W: "precision + k = W" "0 < precision" "W \<le> 17"
    and widest: "reads_back F (spell_e F (W - 1) v) v bits"
  shows "\<exists>n ds e. spell_precise F v bits precision k = sci_text n ds e \<and> digit_string ds \<and> precision \<le> length ds \<and> length ds \<le> W \<and> \<bar>e\<bar> < 1000 \<and>
    reads_back F (sci_text n ds e) v bits \<and>
    (\<forall>p. precision \<le> p \<and> p < length ds \<longrightarrow> \<not> reads_back F (spell_e F (p - 1) v) v bits \<and> \<not> reads_back F (spell_up (spell_e F (p - 1) v)) v bits)"
  using W(1,2)
proof (induction k arbitrary: precision)
  case 0
  from sci obtain n ds e where s: "spell_e F (precision - 1) v = sci_text n ds e" "digit_string ds" "length ds = Suc (precision - 1)" "\<bar>e\<bar> < 999"
    unfolding spells_scientific_def by blast
  then have "take 31 (sci_text n ds e) = sci_text n ds e" using 0 W(3) by (intro sci_text_short) auto
  with s 0 widest show ?case by (intro exI [of _ n] exI [of _ ds] exI [of _ e]) auto
next
  case (Suc k)
  from sci obtain n ds e where s: "spell_e F (precision - 1) v = sci_text n ds e" "digit_string ds" "length ds = Suc (precision - 1)" "\<bar>e\<bar> < 999"
    unfolding spells_scientific_def by blast
  have t: "take 31 (sci_text n ds e) = sci_text n ds e" using s Suc.prems W(3) by (intro sci_text_short) auto
  have ne: "ds \<noteq> []" and len: "length ds = precision" using s(3) Suc.prems(2) by auto
  from spell_up_sci [OF s(2) ne s(4), of n] obtain ds' e' where
    u: "spell_up (sci_text n ds e) = sci_text n ds' e'" "digit_string ds'" "length ds' = length ds" "\<bar>e'\<bar> < 1000" by metis
  show ?case
  proof (cases "reads_back F (sci_text n ds e) v bits \<or> reads_back F (sci_text n ds' e') v bits")
    case True
    then show ?thesis
    proof (cases "reads_back F (sci_text n ds e) v bits")
      case True
      then show ?thesis using s t len Suc.prems by (intro exI [of _ n] exI [of _ ds] exI [of _ e]) (auto simp: Let_def)
    next
      case False
      with True show ?thesis using s t u len Suc.prems by (intro exI [of _ n] exI [of _ ds'] exI [of _ e']) (auto simp: Let_def)
    qed
  next
    case False
    have "precision + 1 + k = W" "0 < precision + 1" using Suc.prems by simp_all
    from Suc.IH [OF this] obtain n' ds2 e2 where r: "spell_precise F v bits (precision + 1) k = sci_text n' ds2 e2" "digit_string ds2" "precision + 1 \<le> length ds2"
      "length ds2 \<le> W" "\<bar>e2\<bar> < 1000" "reads_back F (sci_text n' ds2 e2) v bits"
      "\<And>p. precision + 1 \<le> p \<Longrightarrow> p < length ds2 \<Longrightarrow> \<not> reads_back F (spell_e F (p - 1) v) v bits \<and> \<not> reads_back F (spell_up (spell_e F (p - 1) v)) v bits"
      by blast
    have "spell_precise F v bits precision (Suc k) = sci_text n' ds2 e2" using False s(1) t u(1) r(1) by (simp add: Let_def)
    moreover have "\<not> reads_back F (spell_e F (p - 1) v) v bits \<and> \<not> reads_back F (spell_up (spell_e F (p - 1) v)) v bits"
      if "precision \<le> p" "p < length ds2" for p
      using r(7) [of p] that False s(1) u(1) by (cases "p = precision") auto
    ultimately show ?thesis using r(2-6) by (intro exI [of _ n'] exI [of _ ds2] exI [of _ e2]) simp
  qed
qed



text \<open>A host whose values are rationals and which knows the spellings of 5.\<close>

definition fives :: "rat float_host" where
  "fives = \<lparr>isnan = (\<lambda>_. False), isinf = (\<lambda>_. False), is_negative = (\<lambda>v. v < 0), same_double = (=), to_float = id,
     spell_e = (\<lambda>p v. sci_text False (CHR ''5'' # replicate p (CHR ''0'')) 0), spell_f = (\<lambda>p v. ''5''), strtod = text_value, strtod_rest = (\<lambda>_. []),
     frexp_exponent = (\<lambda>_. 0), ldexp = (\<lambda>v e. v * 2 powi e), nearbyint = id\<rparr>"


text \<open>C36. The other candidate of the search is one unit up: on a scientific spelling of any number of digits the
  carry gives a scientific spelling of as many digits, whose number is greater in magnitude by exactly one
  unit in the last digit, also when the carry leaves the leading digit and moves the exponent.\<close>

theorem spell_up_next:
  assumes "digit_string ds" and "ds \<noteq> []" and "\<bar>e\<bar> < 999"
  shows "\<exists>ds' e'. spell_up (sci_text n ds e) = sci_text n ds' e' \<and> digit_string ds' \<and> length ds' = length ds \<and>
    text_value (spell_up (sci_text n ds e)) = text_value (sci_text n ds e) + (if n then -1 else 1) * 10 powi (e - int (length ds - 1))"
  using spell_up_sci [OF assms, of n] by metis

theorem spell_up_next_witness:
  "spell_up ''9.99e+05'' = ''1.00e+06'' \<and> text_value (spell_up (sci_text False ''999'' 5)) = text_value (sci_text False ''999'' 5) + 10 powi 3"
proof
  show "spell_up ''9.99e+05'' = ''1.00e+06''" by code_simp
  show "text_value (spell_up (sci_text False ''999'' 5)) = text_value (sci_text False ''999'' 5) + 10 powi 3"
    using spell_up_next [of "''999''" 5 False] by (auto simp: is_digit_def)
qed

end
