(* ===== verification/Loke_Format.thy ===== *)
theory Loke_Format
  imports Loke_Utf8
begin

text \<open>
  The byte sink and the scalar spellings of \<^verbatim>\<open>runtime/format.c\<close> other than floats: integers in any base,
  booleans, runes, pointers and quoted text.  A buffer of the C code is the list of the bytes written to
  it; that the list is never longer than the array is part of the properties.
\<close>

unbundle bit_operations_syntax

section \<open>Definitions\<close>

subsection \<open>The byte sink\<close>

text \<open>A writer is a borrowed dynamic value: the address of the sink and its witness table.  The write slot
  of the table is code of the generated program, the parameter \<open>sink\<close>.\<close>

record writer_v1 =
  wr_data :: addr
  wr_witness :: addr

record options_v1 =
  opt_base :: int
  opt_uppercase :: int

type_synonym 's sink = "writer_v1 \<Rightarrow> u8 list \<Rightarrow> ('s, unit) proc"

definition loke_rt_v1_fmt_bytes :: "'s sink \<Rightarrow> writer_v1 \<Rightarrow> u8 list \<Rightarrow> ('s, unit) proc" where
  "loke_rt_v1_fmt_bytes sink w bytes =
     (if wr_witness w = 0 then stop (Panic ''call through a nil dyn view'')
      else if bytes \<noteq> [] then sink w bytes else return ())"

definition ascii :: "string \<Rightarrow> u8 list" where
  "ascii s = map of_char s"

subsection \<open>Integers\<close>

definition base_of :: "options_v1 option \<Rightarrow> int" where
  "base_of o' = (case o' of None \<Rightarrow> 10 | Some o' \<Rightarrow> if opt_base o' < 2 \<or> opt_base o' > 36 then 10 else opt_base o')"

definition upper_of :: "options_v1 option \<Rightarrow> bool" where
  "upper_of o' = (case o' of None \<Rightarrow> False | Some o' \<Rightarrow> opt_uppercase o' \<noteq> 0)"

definition digits :: "bool \<Rightarrow> u8 list" where
  "digits uppercase = ascii (if uppercase then ''0123456789ABCDEFGHIJKLMNOPQRSTUVWXYZ''
                             else ''0123456789abcdefghijklmnopqrstuvwxyz'')"

text \<open>The loop that produces digits, least significant first; \<open>None\<close> when it does not end or divides by
  zero.\<close>

partial_function (option) spell_scratch :: "u8 list \<Rightarrow> u128 \<Rightarrow> u128 \<Rightarrow> u8 list \<Rightarrow> u8 list option" where
  "spell_scratch ds base value scratch =
     (if base = 0 then None
      else let scratch = scratch @ [ds ! unat (value mod base)]; value = value div base in
        if value \<noteq> 0 then spell_scratch ds base value scratch else Some scratch)"

definition spell_unsigned128 :: "u128 \<Rightarrow> int \<Rightarrow> bool \<Rightarrow> u8 list option" where
  "spell_unsigned128 value base uppercase =
     map_option rev (spell_scratch (digits uppercase) (word_of_int base) value [])"

definition spell_unsigned :: "u64 \<Rightarrow> int \<Rightarrow> bool \<Rightarrow> u8 list option" where
  "spell_unsigned value base uppercase = spell_unsigned128 (ucast value) base uppercase"

definition write_spelling :: "'s sink \<Rightarrow> writer_v1 \<Rightarrow> u8 list option \<Rightarrow> ('s, unit) proc" where
  "write_spelling sink w b = (case b of None \<Rightarrow> stop Diverge | Some b \<Rightarrow> loke_rt_v1_fmt_bytes sink w b)"

definition loke_rt_v1_fmt_u64 :: "'s sink \<Rightarrow> writer_v1 \<Rightarrow> u64 \<Rightarrow> options_v1 option \<Rightarrow> ('s, unit) proc" where
  "loke_rt_v1_fmt_u64 sink w value o' = write_spelling sink w (spell_unsigned value (base_of o') (upper_of o'))"

definition loke_rt_v1_fmt_i64 :: "'s sink \<Rightarrow> writer_v1 \<Rightarrow> int \<Rightarrow> options_v1 option \<Rightarrow> ('s, unit) proc" where
  "loke_rt_v1_fmt_i64 sink w value o' =
     (let magnitude = (if value < 0 then word_of_int (- (value + 1)) + 1 else word_of_int value);
          sign = (if value < 0 then ascii ''-'' else [])
      in write_spelling sink w (map_option ((@) sign) (spell_unsigned magnitude (base_of o') (upper_of o'))))"

definition halves :: "u64 \<Rightarrow> u64 \<Rightarrow> u128" where
  "halves low high = push_bit 64 (ucast high) OR ucast low"

definition loke_rt_v1_fmt_u128 :: "'s sink \<Rightarrow> writer_v1 \<Rightarrow> u64 \<Rightarrow> u64 \<Rightarrow> options_v1 option \<Rightarrow> ('s, unit) proc" where
  "loke_rt_v1_fmt_u128 sink w low high o' =
     write_spelling sink w (spell_unsigned128 (halves low high) (base_of o') (upper_of o'))"

definition loke_rt_v1_fmt_i128 :: "'s sink \<Rightarrow> writer_v1 \<Rightarrow> u64 \<Rightarrow> u64 \<Rightarrow> options_v1 option \<Rightarrow> ('s, unit) proc" where
  "loke_rt_v1_fmt_i128 sink w low high o' =
     (let bits = halves low high;
          negative = (drop_bit 63 high \<noteq> 0);
          magnitude = (if negative then NOT bits + 1 else bits);
          sign = (if negative then ascii ''-'' else [])
      in write_spelling sink w (map_option ((@) sign) (spell_unsigned128 magnitude (base_of o') (upper_of o'))))"

subsection \<open>Booleans, runes and pointers\<close>

definition loke_rt_v1_fmt_bool :: "'s sink \<Rightarrow> writer_v1 \<Rightarrow> int \<Rightarrow> ('s, unit) proc" where
  "loke_rt_v1_fmt_bool sink w value = loke_rt_v1_fmt_bytes sink w (ascii (if value \<noteq> 0 then ''true'' else ''false''))"

definition replacement_bytes :: "u8 list" where
  "replacement_bytes = [0xEF, 0xBF, 0xBD]"

definition loke_rt_v1_fmt_rune :: "'s sink \<Rightarrow> writer_v1 \<Rightarrow> u32 \<Rightarrow> ('s, unit) proc" where
  "loke_rt_v1_fmt_rune sink w value =
     (let used = loke_rt_encode_rune value in loke_rt_v1_fmt_bytes sink w (if used = [] then replacement_bytes else used))"

definition loke_rt_v1_fmt_ptr :: "'s sink \<Rightarrow> writer_v1 \<Rightarrow> addr \<Rightarrow> ('s, unit) proc" where
  "loke_rt_v1_fmt_ptr sink w value =
     (if value = 0 then loke_rt_v1_fmt_bytes sink w (ascii ''<nil>'')
      else write_spelling sink w (map_option ((@) (ascii ''0x'')) (spell_unsigned value 16 True)))"

subsection \<open>Quoted text\<close>

definition hex_digit :: "u8 \<Rightarrow> u8" where
  "hex_digit d = ascii ''0123456789ABCDEF'' ! unat d"

definition escape_of :: "u8 \<Rightarrow> u8 \<Rightarrow> u8 list option" where
  "escape_of quote b =
     (if b = 0x5C \<or> b = quote then Some [0x5C, b]
      else if b = 0x0A then Some [0x5C, 0x6E]
      else if b = 0x0D then Some [0x5C, 0x72]
      else if b = 0x09 then Some [0x5C, 0x74]
      else if b < 0x20 \<or> b = 0x7F then Some [0x5C, 0x78, hex_digit (drop_bit 4 b), hex_digit (b AND 15)]
      else None)"

text \<open>The loop over the bytes; \<open>pending\<close> is the run of bytes since \<open>start\<close> that are written as they are.\<close>

fun quote_from :: "'s sink \<Rightarrow> writer_v1 \<Rightarrow> u8 \<Rightarrow> u8 list \<Rightarrow> u8 list \<Rightarrow> ('s, unit) proc" where
  "quote_from sink w quote pending [] = loke_rt_v1_fmt_bytes sink w pending"
| "quote_from sink w quote pending (b # bytes) = (case escape_of quote b of
     None \<Rightarrow> quote_from sink w quote (pending @ [b]) bytes
   | Some escape \<Rightarrow> bind (loke_rt_v1_fmt_bytes sink w pending) (\<lambda>_.
       bind (loke_rt_v1_fmt_bytes sink w escape) (\<lambda>_. quote_from sink w quote [] bytes)))"

definition fmt_quoted :: "'s sink \<Rightarrow> writer_v1 \<Rightarrow> u8 list \<Rightarrow> u8 \<Rightarrow> ('s, unit) proc" where
  "fmt_quoted sink w bytes quote =
     bind (loke_rt_v1_fmt_bytes sink w [quote]) (\<lambda>_. bind (quote_from sink w quote [] bytes) (\<lambda>_.
     loke_rt_v1_fmt_bytes sink w [quote]))"

definition loke_rt_v1_fmt_quoted :: "'s sink \<Rightarrow> writer_v1 \<Rightarrow> u8 list \<Rightarrow> ('s, unit) proc" where
  "loke_rt_v1_fmt_quoted sink w bytes = fmt_quoted sink w bytes 0x22"

definition loke_rt_v1_fmt_quoted_rune :: "'s sink \<Rightarrow> writer_v1 \<Rightarrow> u32 \<Rightarrow> ('s, unit) proc" where
  "loke_rt_v1_fmt_quoted_rune sink w value =
     (let used = loke_rt_encode_rune value in fmt_quoted sink w (if used = [] then replacement_bytes else used) 0x27)"

section \<open>Numerals\<close>

text \<open>What a numeral in a base denotes.\<close>

definition digit_value :: "u8 \<Rightarrow> nat" where
  "digit_value c = (let n = unat c in
     if 48 \<le> n \<and> n \<le> 57 then n - 48 else if 65 \<le> n \<and> n \<le> 90 then n - 55 else if 97 \<le> n \<and> n \<le> 122 then n - 87 else 36)"

definition numeral_value :: "nat \<Rightarrow> u8 list \<Rightarrow> nat" where
  "numeral_value base bs = foldl (\<lambda>n c. n * base + digit_value c) 0 bs"

definition numeral_ok :: "nat \<Rightarrow> u8 list \<Rightarrow> bool" where
  "numeral_ok base bs \<longleftrightarrow> bs \<noteq> [] \<and> list_all (\<lambda>c. digit_value c < base) bs \<and> (1 < length bs \<longrightarrow> 0 < digit_value (hd bs))"

lemma digit_value_digits: "d < 36 \<Longrightarrow> digit_value (digits uppercase ! d) = d"
proof -
  have "list_all (\<lambda>d. digit_value (digits True ! d) = d \<and> digit_value (digits False ! d) = d) [0..<36]" by code_simp
  then show "d < 36 \<Longrightarrow> ?thesis" by (cases uppercase) (auto simp: list_all_iff)
qed

lemma numeral_value_snoc: "numeral_value base (bs @ [c]) = numeral_value base bs * base + digit_value c"
  by (simp add: numeral_value_def)

lemma spell_scratch_run:
  assumes b: "unat base = b" "2 \<le> b" "b \<le> 36"
  obtains r where "spell_scratch (digits up) base value scratch = Some (scratch @ rev r)" and "numeral_ok b r"
    and "numeral_value b r = unat value" and "length r = 1 \<or> b ^ (length r - 1) \<le> unat value"
proof -
  have "\<exists>r. spell_scratch (digits up) base v scratch = Some (scratch @ rev r) \<and> numeral_ok b r \<and>
      numeral_value b r = unat v \<and> (length r = 1 \<or> b ^ (length r - 1) \<le> unat v)" for v scratch
  proof (induction "unat v" arbitrary: v scratch rule: less_induct)
    case less
    let ?c = "digits up ! unat (v mod base)"
    have nz: "base \<noteq> 0" using b by auto
    have m: "unat (v mod base) = unat v mod b" "unat (v div base) = unat v div b" by (simp_all add: unat_mod unat_div b(1))
    have c: "digit_value ?c = unat v mod b"
      unfolding m using b by (intro digit_value_digits less_le_trans [OF mod_less_divisor]) auto
    show ?case
    proof (cases "v div base = 0")
      case True
      then have "unat v div b = 0" using m(2) by simp
      then have small: "unat v < b" using b(2) by (simp add: div_eq_0_iff)
      have "spell_scratch (digits up) base v scratch = Some (scratch @ rev [?c])"
        using True nz by (subst spell_scratch.simps) simp
      moreover have "numeral_ok b [?c]" "numeral_value b [?c] = unat v"
        using c small by (simp_all add: numeral_ok_def numeral_value_def)
      ultimately show ?thesis by (intro exI [of _ "[?c]"]) simp
    next
      case False
      have pos: "0 < unat v div b" using False m(2) by (metis gr0I unat_eq_zero)
      have lt: "unat (v div base) < unat v" unfolding m using b(2) pos by (simp add: div_greater_zero_iff)
      from less [OF lt, of "scratch @ [?c]"] obtain r where
        r: "spell_scratch (digits up) base (v div base) (scratch @ [?c]) = Some ((scratch @ [?c]) @ rev r)" "numeral_ok b r"
          "numeral_value b r = unat v div b" "length r = 1 \<or> b ^ (length r - 1) \<le> unat v div b"
        unfolding m by blast
      have "spell_scratch (digits up) base v scratch = Some (scratch @ rev (r @ [?c]))"
        using False nz r(1) by (subst spell_scratch.simps) simp
      moreover have "0 < digit_value (hd r)"
      proof (cases "length r = 1")
        case True
        then obtain c where "r = [c]" by (auto simp: length_Suc_conv)
        then show ?thesis using r(3) pos by (simp add: numeral_value_def)
      qed (use r(2) in \<open>auto simp: numeral_ok_def neq_Nil_conv\<close>)
      then have "numeral_ok b (r @ [?c])" using r(2) c b(2) by (auto simp: numeral_ok_def)
      moreover have "numeral_value b (r @ [?c]) = unat v" using r(3) c by (simp add: numeral_value_snoc)
      moreover have "b ^ length r \<le> unat v"
      proof -
        have le: "b ^ (length r - 1) \<le> unat v div b" using r(4) pos by auto
        have ne: "r \<noteq> []" using r(2) by (simp add: numeral_ok_def)
        then have "b ^ length r = b ^ (length r - 1) * b" by (cases r) simp_all
        also have "\<dots> \<le> unat v div b * b" using le by simp
        also have "\<dots> \<le> unat v" by simp
        finally show ?thesis .
      qed
      ultimately show ?thesis by (intro exI [of _ "r @ [?c]"]) simp
    qed
  qed
  then show thesis using that by blast
qed

lemma spell_unsigned128_run:
  assumes "2 \<le> base" and "base \<le> 36"
  obtains r where "spell_unsigned128 v base up = Some r" and "numeral_ok (nat base) r" and "numeral_value (nat base) r = unat v"
    and "length r = 1 \<or> nat base ^ (length r - 1) \<le> unat v"
proof -
  have "uint (word_of_int base :: u128) = base" using assms by (simp add: uint_word_of_int)
  then have "unat (word_of_int base :: u128) = nat base" by (metis nat_uint_eq)
  then show thesis
  proof (rule spell_scratch_run [of _ _ up v "[]"])
    fix r assume "spell_scratch (digits up) (word_of_int base) v [] = Some ([] @ rev r)" "numeral_ok (nat base) r"
      "numeral_value (nat base) r = unat v" "length r = 1 \<or> nat base ^ (length r - 1) \<le> unat v"
    then show thesis by (intro that [of r]) (simp_all add: spell_unsigned128_def)
  qed (use assms in simp_all)
qed

lemma spelling_length:
  fixes b :: nat
  assumes "length r = 1 \<or> b ^ (length r - 1) \<le> n" and "n < b ^ k" and "2 \<le> b" and "0 < k"
  shows "length r \<le> k"
proof (rule ccontr)
  assume "\<not> length r \<le> k"
  then have "k \<le> length r - 1" "length r \<noteq> 1" using assms(4) by auto
  then have "b ^ k \<le> b ^ (length r - 1)" using assms(3) by (intro power_increasing) auto
  then show False using assms(1,2) \<open>length r \<noteq> 1\<close> by simp
qed

lemma base_of_range: "2 \<le> base_of o'" "base_of o' \<le> 36"
  by (auto simp: base_of_def split: option.splits)

lemma base_power: "(2 :: nat) ^ k \<le> nat (base_of o') ^ k"
  using base_of_range(1) [of o'] by (intro power_mono) auto

lemma unat_u64_128: "unat (ucast (w :: u64) :: u128) = unat w"
  using unat_u64_lt [of w] by (simp add: unsigned_ucast_eq take_bit_nat_eq_self_iff del: unat_u64_lt)

lemma unat_u128_lt: "unat (w :: u128) < 2 ^ 128"
  by (rule order.strict_trans2 [OF unsigned_less]) simp

lemma unat_halves: "unat (halves low high) = unat high * 2 ^ 64 + unat low"
proof -
  have "halves low high = push_bit 64 (ucast high) + ucast low"
    unfolding halves_def by (rule disjunctive_add [symmetric]) (auto simp: bit_simps dest: bit_imp_le_length)
  moreover have "(push_bit 64 (ucast high) :: u128) = ucast high * 2 ^ 64" by (simp add: push_bit_eq_mult)
  moreover have "unat high < 2 ^ 64" "unat low < 2 ^ 64" by (rule unat_u64_lt)+
  ultimately show ?thesis by (simp add: unat_word_ariths unat_u64_128)
qed

lemma sint_u128: "sint (v :: u128) = (if uint v < 2 ^ 127 then uint v else uint v - 2 ^ 128)"
proof -
  have v: "0 \<le> uint v" "uint v < 2 ^ 128" using uint_bounded [of v] by simp_all
  have "uint v div 2 ^ 127 = (if uint v < 2 ^ 127 then 0 else 1)"
  proof (cases "uint v < 2 ^ 127")
    case False
    then have "uint v = (uint v - 2 ^ 127) + 1 * 2 ^ 127" by simp
    then have "uint v div 2 ^ 127 = (uint v - 2 ^ 127) div 2 ^ 127 + 1" by (metis div_mult_self1 power_not_zero zero_neq_numeral add.commute)
    with False v show ?thesis by simp
  qed (use v in simp)
  then have b: "bit (uint v) 127 \<longleftrightarrow> 2 ^ 127 \<le> uint v" by (simp add: bit_iff_odd)
  show ?thesis unfolding sint_uint signed_take_bit_eq_take_bit_minus
    using b v by (simp add: take_bit_int_eq_self)
qed

lemma neg_u128: "uint (NOT (v::u128) + 1) = (if v = 0 then 0 else 2 ^ 128 - uint v)"
proof (cases "v = 0")
  case False
  have v: "0 \<le> uint v" "uint v < 2 ^ 128" using uint_bounded [of v] by simp_all
  then have "0 < uint v" using False by (metis uint_0_iff order_le_less)
  have "NOT v + 1 = - v" by (simp add: minus_eq_not_plus_1)
  then have "uint (NOT v + 1) = (- uint v) mod 2 ^ 128" by (simp add: uint_word_ariths)
  also have "\<dots> = (2 ^ 128 - uint v) mod 2 ^ 128" by (metis mod_add_self1 diff_conv_add_uminus)
  also have "\<dots> = 2 ^ 128 - uint v" by (rule mod_pos_pos_trivial) (use v \<open>0 < uint v\<close> in simp_all)
  finally show ?thesis using False by simp
qed (simp add: minus_eq_not_plus_1 [symmetric])

section \<open>Properties of the integer spellings\<close>

text \<open>The integer a signed spelling denotes.\<close>

definition signed_value :: "nat \<Rightarrow> u8 list \<Rightarrow> int" where
  "signed_value base bs = (if bs \<noteq> [] \<and> hd bs = 0x2D then - int (numeral_value base (tl bs)) else int (numeral_value base bs))"

definition signed_ok :: "nat \<Rightarrow> u8 list \<Rightarrow> bool" where
  "signed_ok base bs \<longleftrightarrow> numeral_ok base bs \<or> (\<exists>ds. bs = 0x2D # ds \<and> numeral_ok base ds \<and> 0 < numeral_value base ds)"

lemma minus_no_digit: "digit_value 0x2D = 36"
  by code_simp

lemma signed_plain: "base \<le> 36 \<Longrightarrow> numeral_ok base bs \<Longrightarrow> signed_value base bs = int (numeral_value base bs)"
  using minus_no_digit by (cases bs) (auto simp: signed_value_def numeral_ok_def)

lemma ascii_minus: "ascii ''-'' = [0x2D]"
  by code_simp

text \<open>The spelling of a magnitude below \<open>2 ^ k\<close>, and of its negation.\<close>

lemma spell_magnitude:
  assumes "unat v < 2 ^ k" and "0 < k"
  obtains r where "spell_unsigned128 v (base_of o') up = Some r" and "numeral_ok (nat (base_of o')) r"
    and "numeral_value (nat (base_of o')) r = unat v" and "length r \<le> k"
proof (rule spell_unsigned128_run [OF base_of_range, of v o' up])
  fix r assume r: "spell_unsigned128 v (base_of o') up = Some r" "numeral_ok (nat (base_of o')) r"
    "numeral_value (nat (base_of o')) r = unat v" "length r = 1 \<or> nat (base_of o') ^ (length r - 1) \<le> unat v"
  have "length r \<le> k"
    using r(4) _ _ assms(2)
  proof (rule spelling_length)
    show "unat v < nat (base_of o') ^ k" using assms(1) base_power [of k o'] by (rule less_le_trans)
    show "2 \<le> nat (base_of o')" using base_of_range(1) [of o'] by simp
  qed
  with r(1-3) show thesis by (rule that)
qed

lemma signed_minus: "numeral_ok base r \<Longrightarrow> 0 < numeral_value base r \<Longrightarrow>
    signed_ok base (0x2D # r) \<and> signed_value base (0x2D # r) = - int (numeral_value base r)"
  by (simp add: signed_ok_def signed_value_def)

lemma signed_positive: "numeral_ok (nat (base_of o')) r \<Longrightarrow>
    signed_ok (nat (base_of o')) r \<and> signed_value (nat (base_of o')) r = int (numeral_value (nat (base_of o')) r)"
  using base_of_range(2) [of o'] by (simp add: signed_ok_def signed_plain)

lemma fmt_i64_run:
  assumes "i64 i"
  obtains bs where "loke_rt_v1_fmt_i64 sink w i o' = loke_rt_v1_fmt_bytes sink w bs" and "length bs \<le> 66"
    and "signed_ok (nat (base_of o')) bs" and "signed_value (nat (base_of o')) bs = i"
proof -
  define m :: u64 where "m = (if i < 0 then word_of_int (- (i + 1)) + 1 else word_of_int i)"
  have m: "unat m = nat \<bar>i\<bar>"
  proof (cases "i < 0")
    case True
    then have "unat (word_of_int (- (i + 1)) :: u64) = nat (- (i + 1))"
      using assms by (intro unat_word_of_int) (simp_all add: i64_def)
    moreover have "unat (word_of_int (- (i + 1)) + 1 :: u64) = unat (word_of_int (- (i + 1)) :: u64) + 1"
      using calculation assms True by (subst unat_plus_exact) (simp_all add: i64_def nat_less_iff)
    ultimately show ?thesis using True by (simp add: m_def nat_diff_distrib)
  next
    case False
    then show ?thesis using assms by (simp add: m_def unat_word_of_i64)
  qed
  have "unat (ucast m :: u128) < 2 ^ 64" "(0 :: nat) < 64" using unat_u64_lt [of m] by (simp_all only: unat_u64_128)
  then obtain r where r: "spell_unsigned128 (ucast m) (base_of o') (upper_of o') = Some r" "numeral_ok (nat (base_of o')) r"
      "numeral_value (nat (base_of o')) r = unat (ucast m :: u128)" "length r \<le> 64"
    by (rule spell_magnitude)
  have rv: "numeral_value (nat (base_of o')) r = nat \<bar>i\<bar>" using r(3) m by (simp add: unat_u64_128)
  have run: "loke_rt_v1_fmt_i64 sink w i o' = loke_rt_v1_fmt_bytes sink w (if i < 0 then 0x2D # r else r)"
    using r(1) by (simp add: loke_rt_v1_fmt_i64_def m_def [symmetric] Let_def spell_unsigned_def write_spelling_def ascii_minus)
  show thesis
  proof (cases "i < 0")
    case True
    then show thesis using that [of "0x2D # r"] run r(4) rv signed_minus [OF r(2)] by simp
  next
    case False
    then show thesis using that [of r] run r(4) rv signed_positive [OF r(2)] by simp
  qed
qed

lemma fmt_i128_run:
  obtains bs where "loke_rt_v1_fmt_i128 sink w low high o' = loke_rt_v1_fmt_bytes sink w bs" and "length bs \<le> 129"
    and "signed_ok (nat (base_of o')) bs" and "signed_value (nat (base_of o')) bs = sint (halves low high)"
proof -
  define v where "v = halves low high"
  define neg where "neg \<longleftrightarrow> drop_bit 63 high \<noteq> 0"
  define m where "m = (if neg then NOT v + 1 else v)"
  have neg_iff: "neg \<longleftrightarrow> 2 ^ 127 \<le> uint v"
  proof -
    have "unat (drop_bit 63 high) = unat high div 2 ^ 63" by (simp add: drop_bit_eq_div unat_div)
    then have "neg \<longleftrightarrow> 2 ^ 63 \<le> unat high" by (auto simp: neg_def unat_eq_zero [symmetric] div_eq_0_iff)
    also have "\<dots> \<longleftrightarrow> 2 ^ 127 \<le> unat v"
      using unat_u64_lt [of low] by (simp add: v_def unat_halves) linarith
    also have "\<dots> \<longleftrightarrow> 2 ^ 127 \<le> uint v" by (simp only: nat_uint_eq [symmetric] le_nat_iff [OF uint_ge_0] of_nat_power of_nat_numeral)
    finally show ?thesis .
  qed
  have v: "0 \<le> uint v" "uint v < 2 ^ 128" using uint_bounded [of v] by simp_all
  have m_eq: "int (unat m) = \<bar>sint v\<bar>"
    using neg_iff v by (auto simp: m_def sint_u128 neg_u128)
  have sgn: "neg \<longleftrightarrow> sint v < 0" using neg_iff v by (simp add: sint_u128)
  have "unat m < 2 ^ 128" by (rule unat_u128_lt)
  then obtain r where r: "spell_unsigned128 m (base_of o') (upper_of o') = Some r" "numeral_ok (nat (base_of o')) r"
      "numeral_value (nat (base_of o')) r = unat m" "length r \<le> 128"
    by (rule spell_magnitude) simp
  have run: "loke_rt_v1_fmt_i128 sink w low high o' = loke_rt_v1_fmt_bytes sink w (if neg then 0x2D # r else r)"
    using r(1) by (simp add: loke_rt_v1_fmt_i128_def v_def [symmetric] neg_def [symmetric] m_def [symmetric] Let_def write_spelling_def ascii_minus)
  show thesis
  proof (cases neg)
    case True
    then have "0 < numeral_value (nat (base_of o')) r" using sgn m_eq r(3) by linarith
    then show thesis using that [of "0x2D # r"] run r(3,4) True sgn m_eq signed_minus [OF r(2)] by (simp add: v_def)
  next
    case False
    then show thesis using that [of r] run r(3,4) sgn m_eq signed_positive [OF r(2)] by (simp add: v_def)
  qed
qed

text \<open>C34. Printing an integer of any width up to 128 bits hands the sink one numeral: in the base of the
  options (10 when the options name no base from 2 to 36), with a minus sign exactly for a negative value,
  no leading zero, reading back as the value. The fixed buffer of each width holds it, the most negative
  value included, and the digit loop ends.\<close>

theorem fmt_integers_read_back:
  "(\<exists>bs. loke_rt_v1_fmt_u64 sink w u o' = loke_rt_v1_fmt_bytes sink w bs \<and> length bs \<le> 64 \<and>
     numeral_ok (nat (base_of o')) bs \<and> numeral_value (nat (base_of o')) bs = unat u) \<and>
   (i64 i \<longrightarrow> (\<exists>bs. loke_rt_v1_fmt_i64 sink w i o' = loke_rt_v1_fmt_bytes sink w bs \<and> length bs \<le> 66 \<and>
     signed_ok (nat (base_of o')) bs \<and> signed_value (nat (base_of o')) bs = i)) \<and>
   (\<exists>bs. loke_rt_v1_fmt_u128 sink w low high o' = loke_rt_v1_fmt_bytes sink w bs \<and> length bs \<le> 128 \<and>
     numeral_ok (nat (base_of o')) bs \<and> numeral_value (nat (base_of o')) bs = unat high * 2 ^ 64 + unat low) \<and>
   (\<exists>bs. loke_rt_v1_fmt_i128 sink w low high o' = loke_rt_v1_fmt_bytes sink w bs \<and> length bs \<le> 129 \<and>
     signed_ok (nat (base_of o')) bs \<and> signed_value (nat (base_of o')) bs = sint (halves low high))"
proof (intro conjI impI)
  have "unat (ucast u :: u128) < 2 ^ 64" using unat_u64_lt [of u] by (simp only: unat_u64_128)
  then show "\<exists>bs. loke_rt_v1_fmt_u64 sink w u o' = loke_rt_v1_fmt_bytes sink w bs \<and> length bs \<le> 64 \<and>
      numeral_ok (nat (base_of o')) bs \<and> numeral_value (nat (base_of o')) bs = unat u"
    by (rule spell_magnitude [where o' = o' and up = "upper_of o'"])
      (auto simp: loke_rt_v1_fmt_u64_def spell_unsigned_def write_spelling_def unat_u64_128)
  have "unat (halves low high) < 2 ^ 128" by (rule unat_u128_lt)
  then show "\<exists>bs. loke_rt_v1_fmt_u128 sink w low high o' = loke_rt_v1_fmt_bytes sink w bs \<and> length bs \<le> 128 \<and>
     numeral_ok (nat (base_of o')) bs \<and> numeral_value (nat (base_of o')) bs = unat high * 2 ^ 64 + unat low"
    by (rule spell_magnitude [where o' = o' and up = "upper_of o'"])
      (auto simp: loke_rt_v1_fmt_u128_def write_spelling_def unat_halves)
qed (blast intro: fmt_i64_run fmt_i128_run)+

theorem fmt_integers_read_back_witness:
  "\<exists>bs. loke_rt_v1_fmt_i64 (\<lambda>w bs. modify (\<lambda>out. out @ bs)) \<lparr>wr_data = 1, wr_witness = 1\<rparr> (- (2 ^ 63)) None =
      loke_rt_v1_fmt_bytes (\<lambda>w bs. modify (\<lambda>out. out @ bs)) \<lparr>wr_data = 1, wr_witness = 1\<rparr> bs \<and> length bs \<le> 66 \<and>
    signed_ok 10 bs \<and> signed_value 10 bs = - (2 ^ 63)"
proof -
  have "i64 (- (2 ^ 63))" "nat (base_of None) = 10" by (simp_all add: i64_def INT64_MAX_def base_of_def)
  with conjunct1 [OF conjunct2 [OF fmt_integers_read_back [where i = "- (2 ^ 63)" and o' = None]]] show ?thesis
    by (auto simp del: power_numeral)
qed

section \<open>Quoted text\<close>

definition escaped :: "u8 \<Rightarrow> u8 \<Rightarrow> u8 list" where
  "escaped quote b = (case escape_of quote b of None \<Rightarrow> [b] | Some e \<Rightarrow> e)"

text \<open>A reader of the quoted form: the bytes up to the closing quote, and what follows it.\<close>

fun unquote :: "u8 \<Rightarrow> u8 list \<Rightarrow> (u8 list \<times> u8 list) option" where
  "unquote quote [] = None"
| "unquote quote (b # bs) =
     (if b = quote then Some ([], bs)
      else if b \<noteq> 0x5C then map_option (apfst ((#) b)) (unquote quote bs)
      else (case bs of
          [] \<Rightarrow> None
        | e # rest \<Rightarrow>
            if e = 0x78 then (case rest of
                h # l # rest' \<Rightarrow> map_option (apfst ((#) (of_nat (16 * digit_value h + digit_value l)))) (unquote quote rest')
              | _ \<Rightarrow> None)
            else map_option (apfst ((#) (if e = 0x6E then 0x0A else if e = 0x72 then 0x0D else if e = 0x74 then 0x09 else e)))
              (unquote quote rest)))"

lemma digit_value_hex: "unat d < 16 \<Longrightarrow> digit_value (hex_digit d) = unat d"
proof -
  have "list_all (\<lambda>n. digit_value (ascii ''0123456789ABCDEF'' ! n) = n) [0..<16]" by code_simp
  then show "unat d < 16 \<Longrightarrow> ?thesis" by (auto simp: list_all_iff hex_digit_def)
qed

lemma nibble: "unat (drop_bit 4 (b :: u8)) < 16" "unat (b AND 15) < 16"
proof -
  have "unat b < 256" by (rule order.strict_trans2 [OF unsigned_less]) simp
  then show "unat (drop_bit 4 b) < 16" by (simp add: drop_bit_eq_div unat_div)
  have "b AND 15 = b AND mask 4" by (simp add: mask_eq_exp_minus_1)
  then show "unat (b AND 15) < 16" by (simp add: take_bit_eq_mask [symmetric] take_bit_eq_mod unat_mod)
qed

lemma hex_pair: "of_nat (16 * digit_value (hex_digit (drop_bit 4 b)) + digit_value (hex_digit (b AND 15))) = b"
proof -
  have "unat b < 256" by (rule order.strict_trans2 [OF unsigned_less]) simp
  moreover have "unat (drop_bit 4 b) = unat b div 16" by (simp add: drop_bit_eq_div unat_div)
  moreover have "b AND 15 = b AND mask 4" by (simp add: mask_eq_exp_minus_1)
  then have "unat (b AND 15) = unat b mod 16" by (simp add: unsigned_and_eq take_bit_eq_mask [symmetric] take_bit_eq_mod unat_mod)
  ultimately have "16 * digit_value (hex_digit (drop_bit 4 b)) + digit_value (hex_digit (b AND 15)) = unat b"
    by (simp add: digit_value_hex)
  then show ?thesis by simp
qed

lemma unquote_escaped:
  assumes "quote = 0x22 \<or> quote = 0x27"
  shows "unquote quote (escaped quote b @ rest) = map_option (apfst ((#) b)) (unquote quote rest)"
  using assms hex_pair [of b] by (auto simp: escaped_def escape_of_def)

lemma writes_bytes:
  "wr_witness w \<noteq> 0 \<Longrightarrow> loke_rt_v1_fmt_bytes (\<lambda>w bs. modify (\<lambda>out. out @ bs)) w bs out = (Inr (), out @ bs)"
  by (simp add: loke_rt_v1_fmt_bytes_def rt_simps)

lemma quote_from_run:
  "wr_witness w \<noteq> 0 \<Longrightarrow> quote_from (\<lambda>w bs. modify (\<lambda>out. out @ bs)) w quote pending bytes out =
    (Inr (), out @ pending @ concat (map (escaped quote) bytes))"
  by (induction bytes arbitrary: pending out) (simp_all add: writes_bytes bind_def escaped_def split: option.split)

lemma unquote_concat:
  assumes "quote = 0x22 \<or> quote = 0x27"
  shows "unquote quote (concat (map (escaped quote) bytes) @ quote # rest) = Some (bytes, rest)"
  by (induction bytes) (simp_all add: unquote_escaped [OF assms])

text \<open>C35. Text printed as a literal reads back: between quotes of either kind, every byte sequence is
  written in a form from which a reader that knows the escapes recovers exactly those bytes and the end
  of the literal, however the sequence was split into writes; no quote, control byte or newline of the
  text reaches the sink as it is. A write through a nil writer is a panic before any byte.\<close>

theorem fmt_quoted_reads_back:
  assumes "quote = 0x22 \<or> quote = 0x27"
  shows "if wr_witness w = 0 then fmt_quoted (\<lambda>w bs. modify (\<lambda>out. out @ bs)) w bytes quote out = (Inl (Panic ''call through a nil dyn view''), out)
    else \<exists>body. fmt_quoted (\<lambda>w bs. modify (\<lambda>out. out @ bs)) w bytes quote out = (Inr (), out @ quote # body @ [quote]) \<and>
      (\<forall>rest. unquote quote (body @ quote # rest) = Some (bytes, rest)) \<and> list_all (\<lambda>b. 0x20 \<le> b \<and> b \<noteq> 0x7F) body"
proof (cases "wr_witness w = 0")
  case True
  then show ?thesis by (simp add: fmt_quoted_def loke_rt_v1_fmt_bytes_def bind_def rt_simps)
next
  case False
  have "list_all (\<lambda>b. 0x20 \<le> b \<and> b \<noteq> 0x7F) (escaped quote b)" for b
  proof -
    have "list_all (\<lambda>d. 0x20 \<le> ascii ''0123456789ABCDEF'' ! d \<and> ascii ''0123456789ABCDEF'' ! d \<noteq> 0x7F) [0..<16]" by code_simp
    moreover have "unat (drop_bit 4 b) < 16" "unat (b AND 15) < 16" by (rule nibble)+
    ultimately have "0x20 \<le> hex_digit (drop_bit 4 b) \<and> hex_digit (drop_bit 4 b) \<noteq> 0x7F" "0x20 \<le> hex_digit (b AND 15) \<and> hex_digit (b AND 15) \<noteq> 0x7F"
      by (simp_all add: list_all_iff hex_digit_def)
    with assms show ?thesis by (auto simp: escaped_def escape_of_def not_less)
  qed
  then have "list_all (\<lambda>b. 0x20 \<le> b \<and> b \<noteq> 0x7F) (concat (map (escaped quote) bytes))" by (induction bytes) simp_all
  with False show ?thesis
    using unquote_concat [OF assms]
    by (simp add: fmt_quoted_def bind_def writes_bytes quote_from_run)
qed

theorem fmt_quoted_reads_back_witness:
  "\<exists>body. fmt_quoted (\<lambda>w bs. modify (\<lambda>out. out @ bs)) \<lparr>wr_data = 1, wr_witness = 1\<rparr> [0x22, 0x0A, 0x61] 0x22 [] = (Inr (), 0x22 # body @ [0x22]) \<and>
    (\<forall>rest. unquote 0x22 (body @ 0x22 # rest) = Some ([0x22, 0x0A, 0x61], rest))"
  using fmt_quoted_reads_back [of "0x22" "\<lparr>wr_data = 1, wr_witness = 1\<rparr>" "[0x22, 0x0A, 0x61]" "[]"] by auto

end
