(* ===== verification/Loke_Numeric.thy ===== *)
theory Loke_Numeric
  imports Loke_Float Loke_Format
begin

text \<open>
  The numeric locale that float text goes through, and the float operations of \<^verbatim>\<open>runtime/format.c\<close> that use it.
\<close>

section \<open>Definitions\<close>

definition LOKE_RT_NUMERIC_REJECTED :: int where "LOKE_RT_NUMERIC_REJECTED = 1"
definition LOKE_RT_NUMERIC_OUT_OF_MEMORY :: int where "LOKE_RT_NUMERIC_OUT_OF_MEMORY = 2"
definition LOKE_RT_NUMERIC_UNAVAILABLE :: int where "LOKE_RT_NUMERIC_UNAVAILABLE = 3"

text \<open>The shared handle, the locales that are made and not freed, and the rest of the program.\<close>

record 's numeric_rt =
  cached :: addr
  live_locales :: "addr set"
  rest :: 's

text \<open>\<^verbatim>\<open>_create_locale\<close>, which answers a handle or 0 and whether \<^verbatim>\<open>errno\<close> is \<^verbatim>\<open>ENOMEM\<close>, and what the other threads do
  between the load and the compare-exchange.\<close>

record 's numeric_host =
  create_locale :: "'s \<Rightarrow> (addr \<times> bool) \<times> 's"
  others :: "'s numeric_rt \<Rightarrow> 's numeric_rt"

definition try_c_numeric :: "'s numeric_host \<Rightarrow> ('s numeric_rt, addr \<times> int) proc" where
  "try_c_numeric H st =
     (if cached st \<noteq> 0 then (Inr (cached st, 0), st)
      else case create_locale H (rest st) of ((made, no_memory), r) \<Rightarrow>
        if made = 0 then (Inr (0, if no_memory then LOKE_RT_NUMERIC_OUT_OF_MEMORY else LOKE_RT_NUMERIC_UNAVAILABLE), st\<lparr>rest := r\<rparr>)
        else let st = others H (st\<lparr>rest := r, live_locales := insert made (live_locales st)\<rparr>) in
          if cached st \<noteq> 0 then (Inr (cached st, 0), st\<lparr>live_locales := live_locales st - {made}\<rparr>)
          else (Inr (made, 0), st\<lparr>cached := made\<rparr>))"

definition c_numeric :: "'s numeric_host \<Rightarrow> ('s numeric_rt, addr) proc" where
  "c_numeric H = bind (try_c_numeric H) (\<lambda>(made, failure).
     if made = 0 then stop (Panic ''cannot create the \"C\" numeric locale for float text'') else return made)"

text \<open>The answer, and the value stored through the pointer, if one is stored.\<close>

definition loke_rt_v1_try_parse_f64 :: "'s numeric_host \<Rightarrow> 'd float_host \<Rightarrow> string \<Rightarrow> ('s numeric_rt, int \<times> 'd option) proc" where
  "loke_rt_v1_try_parse_f64 H F text = bind (try_c_numeric H) (\<lambda>(loc, failure).
     if loc = 0 then return (failure, None)
     else return (if strtod_rest F text = [] then 0 else LOKE_RT_NUMERIC_REJECTED, Some (strtod F text)))"

definition fmt_float :: "'s numeric_host \<Rightarrow> 'd float_host \<Rightarrow> 's numeric_rt sink \<Rightarrow> writer_v1 \<Rightarrow> 'd \<Rightarrow> int \<Rightarrow> ('s numeric_rt, unit) proc" where
  "fmt_float H F sink w v bits =
     bind (if isnan F v \<or> isinf F v then return 0 else c_numeric H) (\<lambda>loc.
     loke_rt_v1_fmt_bytes sink w (ascii (spell_float F v bits)))"

text \<open>The answer, and the bytes left in \<^verbatim>\<open>out\<close>.\<close>

definition loke_rt_v1_try_spell_f64 :: "'s numeric_host \<Rightarrow> 'd float_host \<Rightarrow> 'd \<Rightarrow> ('s numeric_rt, int \<times> u8 list) proc" where
  "loke_rt_v1_try_spell_f64 H F v =
     (let spelled = ascii (spell_float F v 64) in
      if \<not> isnan F v \<and> \<not> isinf F v
      then bind (try_c_numeric H) (\<lambda>(loc, failure).
        if loc = 0 then return (- failure, []) else return (int (length spelled), spelled))
      else return (int (length spelled), spelled))"

definition loke_rt_v1_fmt_f64 :: "'s numeric_host \<Rightarrow> 'd float_host \<Rightarrow> 's numeric_rt sink \<Rightarrow> writer_v1 \<Rightarrow> 'd \<Rightarrow> ('s numeric_rt, unit) proc" where
  "loke_rt_v1_fmt_f64 H F sink w v = fmt_float H F sink w v 64"

definition loke_rt_v1_fmt_f32 :: "'s numeric_host \<Rightarrow> 'd float_host \<Rightarrow> 's numeric_rt sink \<Rightarrow> writer_v1 \<Rightarrow> 'd \<Rightarrow> ('s numeric_rt, unit) proc" where
  "loke_rt_v1_fmt_f32 H F sink w v = fmt_float H F sink w v 32"

definition loke_rt_v1_fmt_f16 :: "'s numeric_host \<Rightarrow> 'd float_host \<Rightarrow> 's numeric_rt sink \<Rightarrow> writer_v1 \<Rightarrow> 'd \<Rightarrow> ('s numeric_rt, unit) proc" where
  "loke_rt_v1_fmt_f16 H F sink w v = fmt_float H F sink w v 16"

text \<open>\<^verbatim>\<open>_snprintf_s_l\<close> with \<^verbatim>\<open>_TRUNCATE\<close> answers a negative count when the text does not fit.\<close>

definition loke_rt_v1_fmt_fixed :: "'s numeric_host \<Rightarrow> 'd float_host \<Rightarrow> 's numeric_rt sink \<Rightarrow> writer_v1 \<Rightarrow> 'd \<Rightarrow> int \<Rightarrow> ('s numeric_rt, unit) proc" where
  "loke_rt_v1_fmt_fixed H F sink w v places =
     (if isnan F v \<or> isinf F v then fmt_float H F sink w v 64
      else let places = (if places < 0 then 0 else if places > 40 then 40 else places) in
        bind (c_numeric H) (\<lambda>loc.
        let text = spell_f F (nat places) v; used = (if length text < 352 then int (length text) else -1) in
        if used > 0 then loke_rt_v1_fmt_bytes sink w (ascii text) else return ()))"

text \<open>The two process sinks: what has been handed to each stream.\<close>

record std_streams =
  stdout_bytes :: "u8 list"
  stderr_bytes :: "u8 list"

definition LOKE_RT_STDERR :: addr where "LOKE_RT_STDERR = 2"

definition loke_rt_v1_write_std :: "addr \<Rightarrow> u8 list \<Rightarrow> (std_streams, unit) proc" where
  "loke_rt_v1_write_std state bytes =
     (if bytes \<noteq> []
      then if state = LOKE_RT_STDERR then modify (\<lambda>st. st\<lparr>stderr_bytes := stderr_bytes st @ bytes\<rparr>)
        else modify (\<lambda>st. st\<lparr>stdout_bytes := stdout_bytes st @ bytes\<rparr>)
      else return ())"

section \<open>Properties\<close>

text \<open>What every thread keeps of the shared handle: once it is set it stays.\<close>

definition keeps_cached :: "'s numeric_rt \<Rightarrow> 's numeric_rt \<Rightarrow> bool" where
  "keeps_cached st st' \<longleftrightarrow> (cached st \<noteq> 0 \<longrightarrow> cached st' = cached st)"


text \<open>A thread that loses the race: another one publishes the locale 7 first.\<close>

definition lost_race :: "unit numeric_host" where
  "lost_race = \<lparr>create_locale = (\<lambda>s. ((5, False), s)), others = (\<lambda>st. if cached st = 0 then st\<lparr>cached := 7, live_locales := insert 7 (live_locales st)\<rparr> else st)\<rparr>"


text \<open>Printing a float and spelling it into a buffer agree: \<^verbatim>\<open>fmt_f64\<close> writes exactly the bytes that
  \<^verbatim>\<open>try_spell_f64\<close> answers, in one write, and panics exactly where the other answers a negative code; NaN and the infinities
  need no locale, so neither fails on them.\<close>

lemma fmt_f64_matches_try_spell:
  "case loke_rt_v1_try_spell_f64 H F v st of
     (Inr (used, out), st') \<Rightarrow>
       (if used < 0 then loke_rt_v1_fmt_f64 H F sink w v st = (Inl (Panic ''cannot create the \"C\" numeric locale for float text''), st') \<and>
          \<not> isnan F v \<and> \<not> isinf F v
        else used = int (length out) \<and> out = ascii (spell_float F v 64) \<and> loke_rt_v1_fmt_f64 H F sink w v st = loke_rt_v1_fmt_bytes sink w out st')
   | (Inl e, st') \<Rightarrow> False"
  by (auto simp: loke_rt_v1_try_spell_f64_def loke_rt_v1_fmt_f64_def fmt_float_def c_numeric_def try_c_numeric_def bind_def rt_simps Let_def
      LOKE_RT_NUMERIC_OUT_OF_MEMORY_def LOKE_RT_NUMERIC_UNAVAILABLE_def split: prod.splits if_splits)

end
