(* ===== verification/Loke_Args.thy ===== *)
theory Loke_Args
  imports Loke_Utf8
begin

text \<open>
  Process arguments, from \<^verbatim>\<open>runtime/args.c\<close>: the conversion of the wide argument vector to UTF-8, the getters, and
  the choice of a test.  A C string is the list of its bytes with the terminator.
\<close>

unbundle bit_operations_syntax

section \<open>Definitions\<close>

type_synonym u16 = "16 word"

text \<open>A wide argument is the run of code units at the pointer, up to and including a zero.\<close>

definition units_of :: "u16 list \<Rightarrow> u16 list" where
  "units_of wide = takeWhile (\<lambda>u. u \<noteq> 0) wide"

fun convert :: "u16 list \<Rightarrow> u8 list" where
  "convert [] = []"
| "convert (u # us) =
     (let code_point = ucast u :: u32 in
      if code_point \<ge> 0xD800 \<and> code_point \<le> 0xDBFF
      then (case us of
          [] \<Rightarrow> loke_rt_encode_rune 0xFFFD
        | v # vs \<Rightarrow> if v \<ge> 0xDC00 \<and> v \<le> 0xDFFF
            then loke_rt_encode_rune (0x10000 + push_bit 10 (code_point - 0xD800) + (ucast v - 0xDC00)) @ convert vs
            else loke_rt_encode_rune 0xFFFD @ convert us)
      else if code_point \<ge> 0xDC00 \<and> code_point \<le> 0xDFFF then loke_rt_encode_rune 0xFFFD @ convert us
      else loke_rt_encode_rune code_point @ convert us)"

text \<open>\<^verbatim>\<open>malloc\<close> is a parameter that answers whether there is room.  The result is the C string with its terminator.\<close>

definition to_utf8 :: "(u64 \<Rightarrow> 'h \<Rightarrow> bool \<times> 'h) \<Rightarrow> u16 list \<Rightarrow> ('h, u8 list) proc" where
  "to_utf8 malloc wide h =
     (let units = of_nat (length (units_of wide)); bytes = units * 4 + 1 in
      case malloc bytes h of
        (False, h) \<Rightarrow> (Inl (Abort ''cannot convert the argument vector''), h)
      | (True, h) \<Rightarrow> (Inr (convert (units_of wide) @ [0]), h))"

record 'h args_rt =
  arg_count :: int
  arg_values :: "u8 list list"
  binary_mode :: bool
  args_heap :: 'h

text \<open>The conversion loop, which appends to the table.\<close>

fun convert_args :: "(u64 \<Rightarrow> 'h \<Rightarrow> bool \<times> 'h) \<Rightarrow> u16 list list \<Rightarrow> ('h args_rt, unit) proc" where
  "convert_args malloc [] st = (Inr (), st)"
| "convert_args malloc (wide # argv) st = (case to_utf8 malloc wide (args_heap st) of
     (Inl e, h) \<Rightarrow> (Inl e, st\<lparr>args_heap := h\<rparr>)
   | (Inr bs, h) \<Rightarrow> convert_args malloc argv (st\<lparr>args_heap := h, arg_values := arg_values st @ [bs]\<rparr>))"

definition loke_rt_v1_args_init :: "(u64 \<Rightarrow> 'h \<Rightarrow> bool \<times> 'h) \<Rightarrow> int \<Rightarrow> u16 list list \<Rightarrow> ('h args_rt, unit) proc" where
  "loke_rt_v1_args_init malloc argc argv st =
     (let argc = (if argc < 0 then 0 else argc) in
      case malloc (word_of_int (if argc = 0 then 1 else argc) * 8) (args_heap st) of
        (False, h) \<Rightarrow> (Inl (Abort ''cannot convert the argument vector''), st\<lparr>binary_mode := True, arg_count := argc, args_heap := h\<rparr>)
      | (True, h) \<Rightarrow> convert_args malloc (take (nat argc) argv)
          (st\<lparr>binary_mode := True, arg_count := argc, arg_values := [], args_heap := h\<rparr>))"

definition loke_rt_v1_args_count :: "'h args_rt \<Rightarrow> int" where
  "loke_rt_v1_args_count st = arg_count st"

definition loke_rt_v1_args_at :: "'h args_rt \<Rightarrow> int \<Rightarrow> u8 list" where
  "loke_rt_v1_args_at st index = (if index < 0 \<or> index \<ge> arg_count st then [0] else arg_values st ! nat index)"

definition strlen :: "u8 list \<Rightarrow> nat" where
  "strlen s = length (takeWhile (\<lambda>b. b \<noteq> 0) s)"

definition loke_rt_v1_args_len :: "'h args_rt \<Rightarrow> int \<Rightarrow> int" where
  "loke_rt_v1_args_len st index = (if index < 0 \<or> index \<ge> arg_count st then 0 else int (strlen (arg_values st ! nat index)))"

text \<open>The choice of a test.  The process ends with status 2 after a message, or the call answers an index.\<close>

datatype selection = Exit_2 "u8 list option" | Chosen int

definition c_text :: "u8 list \<Rightarrow> u8 list" where
  "c_text s = takeWhile (\<lambda>b. b \<noteq> 0) s"

fun find_name :: "u8 list \<Rightarrow> u8 list list \<Rightarrow> int \<Rightarrow> int option" where
  "find_name name [] index = None"
| "find_name name (n # names) index = (if c_text name = c_text n then Some index else find_name name names (index + 1))"

definition loke_rt_v1_test_select :: "u8 list list \<Rightarrow> 'h args_rt \<Rightarrow> selection \<times> 'h args_rt" where
  "loke_rt_v1_test_select names st =
     (if arg_count st < 2 then (Chosen (-1), st)
      else if arg_count st = 2 then
        (case find_name (arg_values st ! 1) names 0 of
           Some index \<Rightarrow> (Chosen index, st\<lparr>arg_count := 1\<rparr>)
         | None \<Rightarrow> (Exit_2 (Some (arg_values st ! 1)), st))
      else (Exit_2 None, st))"

section \<open>UTF-16\<close>

text \<open>The encoding of a scalar value in UTF-16.\<close>

definition utf16 :: "u32 \<Rightarrow> u16 list" where
  "utf16 v = (if unat v < 65536 then [ucast v]
     else let n = unat v - 65536 in [of_nat (55296 + n div 1024), of_nat (56320 + n mod 1024)])"

lemma unat16: "unat (u :: u16) < 65536" "unat (ucast u :: u32) = unat u"
proof -
  show lt: "unat u < 65536" by (rule order.strict_trans2 [OF unsigned_less]) simp
  then show "unat (ucast u :: u32) = unat u" by (simp add: unsigned_ucast_eq take_bit_nat_eq_self)
qed

lemma scalar_unat: "scalar v \<longleftrightarrow> unat v \<le> 1114111 \<and> \<not> (55296 \<le> unat v \<and> unat v \<le> 57343)"
  unfolding scalar_def uint_nat by linarith

lemma u32_of_nat: "n < 2 ^ 32 \<Longrightarrow> unat (of_nat n :: u32) = n"
  by (simp add: unat_of_nat take_bit_eq_mod)

lemma u16_of_nat: "n < 2 ^ 16 \<Longrightarrow> unat (of_nat n :: u16) = n"
  by (simp add: unat_of_nat take_bit_eq_mod)

definition pair_code :: "u16 \<Rightarrow> u16 \<Rightarrow> nat" where
  "pair_code u v = 65536 + (unat u - 55296) * 1024 + (unat v - 56320)"

abbreviation high_unit :: "u16 \<Rightarrow> bool" where
  "high_unit u \<equiv> 55296 \<le> unat u \<and> unat u \<le> 56319"

abbreviation low_unit :: "u16 \<Rightarrow> bool" where
  "low_unit u \<equiv> 56320 \<le> unat u \<and> unat u \<le> 57343"

lemma pair_code_range: "high_unit u \<Longrightarrow> low_unit v \<Longrightarrow> 65536 \<le> pair_code u v \<and> pair_code u v \<le> 1114111"
  unfolding pair_code_def by auto

lemma pair_word: "high_unit u \<Longrightarrow> low_unit v \<Longrightarrow> unat (of_nat (pair_code u v) :: u32) = pair_code u v"
  using pair_code_range [of u v] by (intro u32_of_nat) auto

lemma surrogate_pair:
  assumes "high_unit u" "low_unit v"
  shows "0x10000 + push_bit 10 (ucast u - 0xD800) + (ucast v - 0xDC00) = (of_nat (pair_code u v) :: u32)"
proof -
  have "(ucast u :: u32) - 0xD800 = of_nat (unat u - 55296)" using assms(1) by simp
  moreover have "(ucast v :: u32) - 0xDC00 = of_nat (unat v - 56320)" using assms(2) by simp
  ultimately show ?thesis unfolding pair_code_def
    by (simp only: push_bit_eq_mult of_nat_add of_nat_mult) simp
qed

text \<open>The code points the loop encodes.\<close>

fun code_points :: "u16 list \<Rightarrow> u32 list" where
  "code_points [] = []"
| "code_points (u # us) =
     (if high_unit u
      then (case us of
          [] \<Rightarrow> [0xFFFD]
        | v # vs \<Rightarrow> if low_unit v then of_nat (pair_code u v) # code_points vs else 0xFFFD # code_points us)
      else if low_unit u then 0xFFFD # code_points us
      else ucast u # code_points us)"

lemma unit_range:
  "(ucast u :: u32) \<ge> 0xD800 \<and> (ucast u :: u32) \<le> 0xDBFF \<longleftrightarrow> high_unit u"
  "(ucast u :: u32) \<ge> 0xDC00 \<and> (ucast u :: u32) \<le> 0xDFFF \<longleftrightarrow> low_unit u"
  "u \<ge> 0xDC00 \<and> u \<le> 0xDFFF \<longleftrightarrow> low_unit u" for u :: u16
  by (simp_all add: word_le_nat_alt unat16)

lemma convert_code_points: "convert us = encode_runes (code_points us)"
proof (induction us rule: convert.induct)
  case (2 u us)
  note IH = 2
  show ?case
  proof (cases "high_unit u")
    case True
    show ?thesis
    proof (cases us)
      case Nil
      then show ?thesis using True unfolding convert.simps code_points.simps unit_range Let_def by simp
    next
      case (Cons v vs)
      then show ?thesis
        using True IH(1,2) [OF refl, unfolded unit_range, OF True] surrogate_pair [OF True, of v]
        unfolding Cons convert.simps(2) [of u] code_points.simps(2) [of u] unit_range Let_def by (auto simp: Cons)
    qed
  next
    case False
    then show ?thesis using IH(3,4) [OF refl, unfolded unit_range, OF False] unfolding convert.simps code_points.simps unit_range Let_def by auto
  qed
qed simp

lemma code_points_all:
  assumes P: "\<And>u v. high_unit u \<Longrightarrow> low_unit v \<Longrightarrow> P (of_nat (pair_code u v))" "P 0xFFFD"
    "\<And>u. u \<in> set us \<Longrightarrow> \<not> high_unit u \<Longrightarrow> \<not> low_unit u \<Longrightarrow> P (ucast u)"
  shows "list_all P (code_points us)"
  using P(3)
proof (induction us rule: code_points.induct)
  case (2 u us)
  then show ?case using P(1,2) by (auto split: list.split)
qed simp

lemma code_points_scalar: "list_all scalar (code_points us)"
proof (rule code_points_all)
  show "scalar (of_nat (pair_code u v))" if "high_unit u" "low_unit v" for u v
    using pair_code_range [OF that] unfolding scalar_unat pair_word [OF that] by linarith
  show "scalar 0xFFFD" by (simp add: scalar_unat)
  show "scalar (ucast u)" if "\<not> high_unit u" "\<not> low_unit u" for u :: u16
    using that unat16(1) [of u] unfolding scalar_unat unat16(2) by linarith
qed

lemma code_points_nonzero: "0 \<notin> set us \<Longrightarrow> 0 \<notin> set (code_points us)"
proof -
  assume us: "0 \<notin> set us"
  have "list_all (\<lambda>v. unat v \<noteq> 0) (code_points us)"
  proof (rule code_points_all)
    show "unat (of_nat (pair_code u v) :: u32) \<noteq> 0" if "high_unit u" "low_unit v" for u v
      unfolding pair_word [OF that] using pair_code_range [OF that] by linarith
    show "unat (0xFFFD :: u32) \<noteq> 0" by simp
    show "unat (ucast u :: u32) \<noteq> 0" if "u \<in> set us" for u
      unfolding unat16(2) using that us unat_eq_zero [of u] by metis
  qed
  then show ?thesis by (auto simp: list_all_iff)
qed

lemma code_points_length: "length (code_points us) \<le> length us"
  by (induction us rule: code_points.induct) (auto split: list.split)

lemma encode_rune_nonzero: "scalar v \<Longrightarrow> v \<noteq> 0 \<Longrightarrow> 0 \<notin> set (loke_rt_encode_rune v)"
proof -
  assume v: "scalar v" "v \<noteq> 0"
  have "0 < uint v" using v(2) by (metis order_le_less uint_ge_0 uint_0_iff)
  moreover have "0 \<le> uint v mod 64" "0 \<le> uint v div 64 mod 64" "0 \<le> uint v div 4096 mod 64" by simp_all
  ultimately have "0 \<notin> set (utf8_code (uint v))" by (auto simp: utf8_code_def pos_imp_zdiv_nonneg_iff)
  then have "0 \<notin> set (map uint (loke_rt_encode_rune v))" by (simp add: encode_rune_utf8 [OF v(1)])
  then show "0 \<notin> set (loke_rt_encode_rune v)" by (metis image_eqI list.set_map uint_0_eq)
qed

lemma encode_runes_nonzero: "list_all scalar vs \<Longrightarrow> 0 \<notin> set vs \<Longrightarrow> 0 \<notin> set (encode_runes vs)"
  using encode_rune_nonzero by (induction vs) auto

text \<open>Well-formed UTF-16 keeps its code points.\<close>

lemma code_points_utf16: "scalar v \<Longrightarrow> code_points (utf16 v @ us) = v # code_points us"
proof (cases "unat v < 65536")
  case True
  assume "scalar v"
  have u: "unat (ucast v :: u16) = unat v" using True by (simp add: unsigned_ucast_eq take_bit_nat_eq_self)
  have "ucast (ucast v :: u16) = v" by (intro word_unat_eq_iff [THEN iffD2]) (simp only: unat16(2) u)
  with True \<open>scalar v\<close> u show ?thesis by (auto simp: utf16_def scalar_unat)
next
  case False
  assume "scalar v"
  define n where "n = unat v - 65536"
  have n: "n < 1048576" "unat v = n + 65536" using False \<open>scalar v\<close> by (simp_all add: n_def scalar_unat)
  have d: "n div 1024 < 1024" "n mod 1024 < 1024" using n(1) by (simp_all add: div_less_iff_less_mult)
  define a b :: u16 where "a = of_nat (55296 + n div 1024)" and "b = of_nat (56320 + n mod 1024)"
  have ab: "unat a = 55296 + n div 1024" "unat b = 56320 + n mod 1024"
    unfolding a_def b_def using d by (intro u16_of_nat, simp)+
  have "pair_code a b = unat v" using n(2) by (simp add: pair_code_def ab)
  then have "of_nat (pair_code a b) = v" by simp
  moreover have "utf16 v = [a, b]" using False by (simp add: utf16_def Let_def a_def b_def n_def)
  ultimately show ?thesis using ab d by simp
qed

lemma code_points_utf16s: "list_all scalar vs \<Longrightarrow> code_points (concat (map utf16 vs)) = vs"
  by (induction vs) (simp_all add: code_points_utf16)


section \<open>The argument table\<close>

lemma takeWhile_text: "0 \<notin> set bs \<Longrightarrow> takeWhile (\<lambda>b. b \<noteq> 0) (bs @ [0]) = (bs :: u8 list)"
  by (induction bs) auto

lemma units_nonzero: "0 \<notin> set (units_of wide)"
  by (auto simp: units_of_def dest: set_takeWhileD)

lemma converted:
  fixes wide :: "u16 list"
  defines "bs \<equiv> convert (units_of wide)"
  shows "0 \<notin> set bs" and "length bs \<le> 4 * length (units_of wide)" and "loke_rt_v1_utf8_valid (Some bs) (int (length bs))"
    and "list_all scalar vs \<Longrightarrow> units_of wide = concat (map utf16 vs) \<Longrightarrow> bs = encode_runes vs"
proof -
  note c = code_points_scalar [of "units_of wide"]
  show "0 \<notin> set bs" unfolding bs_def convert_code_points by (intro encode_runes_nonzero c code_points_nonzero units_nonzero)
  show "length bs \<le> 4 * length (units_of wide)"
    unfolding bs_def convert_code_points using encode_runes_length code_points_length by (meson le_trans mult_le_mono2)
  show "loke_rt_v1_utf8_valid (Some bs) (int (length bs))"
    unfolding utf8_valid_encoded bs_def convert_code_points using c by blast
  show "list_all scalar vs \<Longrightarrow> units_of wide = concat (map utf16 vs) \<Longrightarrow> bs = encode_runes vs"
    unfolding bs_def convert_code_points by (simp add: code_points_utf16s)
qed

lemma convert_args_result:
  "case convert_args malloc argv st of
     (Inl e, st') \<Rightarrow> e = Abort ''cannot convert the argument vector'' \<and> (\<exists>n h. \<not> fst (malloc n h))
   | (Inr u, st') \<Rightarrow> arg_values st' = arg_values st @ map (\<lambda>wide. convert (units_of wide) @ [0]) argv \<and>
       arg_count st' = arg_count st \<and> binary_mode st' = binary_mode st"
proof (induction malloc argv st rule: convert_args.induct)
  case (2 malloc wide argv st)
  let ?n = "of_nat (length (units_of wide)) * 4 + 1 :: u64"
  show ?case
  proof (cases "malloc ?n (args_heap st)")
    case (Pair b h)
    show ?thesis
    proof (cases b)
      case True
      then have "to_utf8 malloc wide (args_heap st) = (Inr (convert (units_of wide) @ [0]), h)" using Pair by (simp add: to_utf8_def)
      with "2.IH" show ?thesis by (auto split: prod.splits sum.splits)
    next
      case False
      then have "to_utf8 malloc wide (args_heap st) = (Inl (Abort ''cannot convert the argument vector''), h)" using Pair by (simp add: to_utf8_def)
      moreover have "\<not> fst (malloc ?n (args_heap st))" using Pair False by simp
      ultimately show ?thesis by auto
    qed
  qed
qed simp



end
