(* ===== verification/Loke_Atomic.thy ===== *)
theory Loke_Atomic
  imports Loke_State Loke_Format
begin

text \<open>
  The 128-bit atomic operations of \<^verbatim>\<open>runtime/atomic.c\<close>.  An operation is the list of the steps it takes: the gate,
  the barriers, and accesses to memory one byte at a time.  Threads interleave these steps freely; the properties
  are that the calls are indivisible, and what one call does to memory.  Interleavings are sequentially
  consistent: the orderings a caller may ask for decide only where a barrier stands.
\<close>

unbundle bit_operations_syntax

section \<open>Definitions\<close>

subsection \<open>Micro-steps\<close>

text \<open>The local variables of an operation, and the steps it is made of: taking and releasing the gate, a
  barrier (taken when its condition holds), and a single access to memory.  The accesses are one byte wide:
  nothing is assumed about how a copy of 16 bytes is carried out.\<close>

type_synonym memory = "addr \<Rightarrow> u8"

record regs =
  a_low :: u64
  a_high :: u64
  b_low :: u64
  b_high :: u64
  r_low :: u64
  r_high :: u64
  same :: bool

datatype micro = Lock | Barrier "regs \<Rightarrow> bool" | Act "regs \<times> memory \<Rightarrow> regs \<times> memory" | Unlock

definition LOKE_RT_ORDER_RELAXED :: int where "LOKE_RT_ORDER_RELAXED = 0"
definition LOKE_RT_ORDER_ACQUIRE :: int where "LOKE_RT_ORDER_ACQUIRE = 1"
definition LOKE_RT_ORDER_RELEASE :: int where "LOKE_RT_ORDER_RELEASE = 2"
definition LOKE_RT_ORDER_ACQ_REL :: int where "LOKE_RT_ORDER_ACQ_REL = 3"
definition LOKE_RT_ORDER_SEQ_CST :: int where "LOKE_RT_ORDER_SEQ_CST = 4"

definition order_acquires :: "int \<Rightarrow> bool" where
  "order_acquires order \<longleftrightarrow> order = LOKE_RT_ORDER_ACQUIRE \<or> order = LOKE_RT_ORDER_ACQ_REL \<or> order = LOKE_RT_ORDER_SEQ_CST"

definition order_releases :: "int \<Rightarrow> bool" where
  "order_releases order \<longleftrightarrow> order = LOKE_RT_ORDER_RELEASE \<or> order = LOKE_RT_ORDER_ACQ_REL \<or> order = LOKE_RT_ORDER_SEQ_CST"

definition enter :: "int \<Rightarrow> micro list" where
  "enter order = [Lock, Barrier (\<lambda>_. order_acquires order)]"

definition leave :: "(regs \<Rightarrow> int) \<Rightarrow> micro list" where
  "leave order = [Barrier (\<lambda>r. order_releases (order r)), Unlock]"

definition LOKE_RT_ATOMIC128_BYTES :: nat where "LOKE_RT_ATOMIC128_BYTES = 16"

text \<open>A \<^verbatim>\<open>memcpy\<close> of 16 bytes, done when the condition on the locals holds.\<close>

definition copy_bytes :: "(regs \<Rightarrow> bool) \<Rightarrow> addr \<Rightarrow> addr \<Rightarrow> nat \<Rightarrow> micro list" where
  "copy_bytes c dst src n =
     map (\<lambda>k. Act (\<lambda>(r, m). (r, if c r then m(dst + of_nat k := m (src + of_nat k)) else m))) [0..<n]"

definition compare_bytes :: "addr \<Rightarrow> addr \<Rightarrow> nat \<Rightarrow> micro list" where
  "compare_bytes p q n =
     Act (\<lambda>(r, m). (r\<lparr>same := True\<rparr>, m)) #
     map (\<lambda>k. Act (\<lambda>(r, m). (r\<lparr>same := same r \<and> m (p + of_nat k) = m (q + of_nat k)\<rparr>, m))) [0..<n]"

text \<open>Eight bytes to and from a local variable, least significant first.\<close>

definition set_byte :: "u64 \<Rightarrow> nat \<Rightarrow> u8 \<Rightarrow> u64" where
  "set_byte w k b = (w AND NOT (push_bit (8 * k) 255)) OR push_bit (8 * k) (ucast b)"

definition byte_of :: "u64 \<Rightarrow> nat \<Rightarrow> u8" where
  "byte_of w k = ucast (drop_bit (8 * k) w)"

definition read_half :: "((u64 \<Rightarrow> u64) \<Rightarrow> regs \<Rightarrow> regs) \<Rightarrow> addr \<Rightarrow> nat \<Rightarrow> micro list" where
  "read_half upd p n = map (\<lambda>k. Act (\<lambda>(r, m). (upd (\<lambda>w. set_byte w k (m (p + of_nat k))) r, m))) [0..<n]"

definition write_half :: "(regs \<Rightarrow> u64) \<Rightarrow> addr \<Rightarrow> nat \<Rightarrow> micro list" where
  "write_half sel p n = map (\<lambda>k. Act (\<lambda>(r, m). (r, m(p + of_nat k := byte_of (sel r) k)))) [0..<n]"

definition read_halves :: "((u64 \<Rightarrow> u64) \<Rightarrow> regs \<Rightarrow> regs) \<Rightarrow> ((u64 \<Rightarrow> u64) \<Rightarrow> regs \<Rightarrow> regs) \<Rightarrow> addr \<Rightarrow> micro list" where
  "read_halves low high p = read_half low p 8 @ read_half high (p + 8) 8"

definition write_halves :: "addr \<Rightarrow> (regs \<Rightarrow> u64) \<Rightarrow> (regs \<Rightarrow> u64) \<Rightarrow> micro list" where
  "write_halves p low high = write_half low p 8 @ write_half high (p + 8) 8"

subsection \<open>Operations\<close>

definition loke_rt_v1_atomic128_load :: "addr \<Rightarrow> addr \<Rightarrow> int \<Rightarrow> micro list" where
  "loke_rt_v1_atomic128_load address out order =
     enter order @ copy_bytes (\<lambda>_. True) out address LOKE_RT_ATOMIC128_BYTES @ leave (\<lambda>_. order)"

definition loke_rt_v1_atomic128_store :: "addr \<Rightarrow> addr \<Rightarrow> int \<Rightarrow> micro list" where
  "loke_rt_v1_atomic128_store address v order =
     enter order @ copy_bytes (\<lambda>_. True) address v LOKE_RT_ATOMIC128_BYTES @ leave (\<lambda>_. order)"

definition loke_rt_v1_atomic128_exchange :: "addr \<Rightarrow> addr \<Rightarrow> addr \<Rightarrow> int \<Rightarrow> micro list" where
  "loke_rt_v1_atomic128_exchange address v out order =
     enter order @ copy_bytes (\<lambda>_. True) out address LOKE_RT_ATOMIC128_BYTES @
     copy_bytes (\<lambda>_. True) address v LOKE_RT_ATOMIC128_BYTES @ leave (\<lambda>_. order)"

text \<open>The answer is \<open>same\<close>.\<close>

definition loke_rt_v1_atomic128_compare_exchange :: "addr \<Rightarrow> addr \<Rightarrow> addr \<Rightarrow> int \<Rightarrow> int \<Rightarrow> micro list" where
  "loke_rt_v1_atomic128_compare_exchange address expected desired success failure =
     enter success @ compare_bytes address expected LOKE_RT_ATOMIC128_BYTES @
     copy_bytes same address desired LOKE_RT_ATOMIC128_BYTES @
     copy_bytes (\<lambda>r. \<not> same r) expected address LOKE_RT_ATOMIC128_BYTES @
     leave (\<lambda>r. if same r then success else failure)"

definition loke_rt_v1_atomic128_rmw :: "(regs \<Rightarrow> regs) \<Rightarrow> addr \<Rightarrow> addr \<Rightarrow> addr \<Rightarrow> int \<Rightarrow> micro list" where
  "loke_rt_v1_atomic128_rmw body address v out order =
     enter order @
     read_halves a_low_update a_high_update address @
     read_halves b_low_update b_high_update v @
     [Act (\<lambda>(r, m). (body r, m))] @
     write_halves out a_low a_high @
     write_halves address r_low r_high @
     leave (\<lambda>_. order)"

definition add_body :: "regs \<Rightarrow> regs" where
  "add_body r = (let low = a_low r + b_low r in
     r\<lparr>r_low := low, r_high := a_high r + b_high r + (if low < a_low r then 1 else 0)\<rparr>)"

definition sub_body :: "regs \<Rightarrow> regs" where
  "sub_body r = r\<lparr>r_low := a_low r - b_low r, r_high := a_high r - b_high r - (if a_low r < b_low r then 1 else 0)\<rparr>"

definition and_body :: "regs \<Rightarrow> regs" where
  "and_body r = r\<lparr>r_low := a_low r AND b_low r, r_high := a_high r AND b_high r\<rparr>"

definition or_body :: "regs \<Rightarrow> regs" where
  "or_body r = r\<lparr>r_low := a_low r OR b_low r, r_high := a_high r OR b_high r\<rparr>"

definition xor_body :: "regs \<Rightarrow> regs" where
  "xor_body r = r\<lparr>r_low := a_low r XOR b_low r, r_high := a_high r XOR b_high r\<rparr>"

datatype rmw = Add | Sub | And | Or | Xor

fun body_of :: "rmw \<Rightarrow> regs \<Rightarrow> regs" where
  "body_of Add = add_body"
| "body_of Sub = sub_body"
| "body_of And = and_body"
| "body_of Or = or_body"
| "body_of Xor = xor_body"

subsection \<open>Calls and threads\<close>

datatype call =
    Load addr addr int
  | Store addr addr int
  | Exchange addr addr addr int
  | Compare_exchange addr addr addr int int
  | Rmw rmw addr addr addr int

fun code_of :: "call \<Rightarrow> micro list" where
  "code_of (Load address out order) = loke_rt_v1_atomic128_load address out order"
| "code_of (Store address v order) = loke_rt_v1_atomic128_store address v order"
| "code_of (Exchange address v out order) = loke_rt_v1_atomic128_exchange address v out order"
| "code_of (Compare_exchange address expected desired success failure) =
     loke_rt_v1_atomic128_compare_exchange address expected desired success failure"
| "code_of (Rmw op address v out order) = loke_rt_v1_atomic128_rmw (body_of op) address v out order"

definition regs0 :: regs where
  "regs0 = \<lparr>a_low = 0, a_high = 0, b_low = 0, b_high = 0, r_low = 0, r_high = 0, same = False\<rparr>"

text \<open>A call by a thread that runs alone: its answer and memory afterwards.\<close>

fun run :: "micro list \<Rightarrow> regs \<times> memory \<Rightarrow> regs \<times> memory" where
  "run [] s = s"
| "run (Act f # code) s = run code (f s)"
| "run (c # code) s = run code s"

definition apply_call :: "call \<Rightarrow> memory \<Rightarrow> bool \<times> memory" where
  "apply_call c m = apfst same (run (code_of c) (regs0, m))"

record thread =
  todo :: "call list"
  current :: "call option"
  code :: "micro list"
  locals :: regs
  answers :: "bool list"

record machine =
  gate :: nat
  shared :: memory
  threads :: "nat \<Rightarrow> thread"

text \<open>One step of one thread.  \<^verbatim>\<open>__sync_lock_test_and_set\<close> writes 1 and takes the gate when it was 0.\<close>

inductive step :: "machine \<Rightarrow> machine \<Rightarrow> bool" where
  start: "code (threads s t) = [] \<Longrightarrow> todo (threads s t) = c # cs \<Longrightarrow>
    step s (s\<lparr>threads := (threads s)(t := (threads s t)\<lparr>todo := cs, current := Some c, code := code_of c, locals := regs0\<rparr>)\<rparr>)"
| acquire: "code (threads s t) = Lock # k \<Longrightarrow> gate s = 0 \<Longrightarrow>
    step s (s\<lparr>gate := 1, threads := (threads s)(t := (threads s t)\<lparr>code := k\<rparr>)\<rparr>)"
| spin: "code (threads s t) = Lock # k \<Longrightarrow> gate s \<noteq> 0 \<Longrightarrow> step s (s\<lparr>gate := 1\<rparr>)"
| barrier: "code (threads s t) = Barrier b # k \<Longrightarrow>
    step s (s\<lparr>threads := (threads s)(t := (threads s t)\<lparr>code := k\<rparr>)\<rparr>)"
| act: "code (threads s t) = Act f # k \<Longrightarrow> f (locals (threads s t), shared s) = (r, m) \<Longrightarrow>
    step s (s\<lparr>shared := m, threads := (threads s)(t := (threads s t)\<lparr>code := k, locals := r\<rparr>)\<rparr>)"
| release: "code (threads s t) = Unlock # k \<Longrightarrow>
    step s (s\<lparr>gate := 0, threads := (threads s)(t := (threads s t)\<lparr>code := k, current := None,
      answers := answers (threads s t) @ [same (locals (threads s t))]\<rparr>)\<rparr>)"

section \<open>A critical section per call\<close>

definition quiet :: "micro \<Rightarrow> bool" where
  "quiet c \<longleftrightarrow> (case c of Lock \<Rightarrow> False | Unlock \<Rightarrow> False | _ \<Rightarrow> True)"

lemma run_append: "run (xs @ ys) s = run ys (run xs s)"
  by (induction xs s rule: run.induct) simp_all

lemmas op_defs = loke_rt_v1_atomic128_load_def loke_rt_v1_atomic128_store_def loke_rt_v1_atomic128_exchange_def
  loke_rt_v1_atomic128_compare_exchange_def loke_rt_v1_atomic128_rmw_def enter_def leave_def

lemma code_shape: "\<exists>body. code_of c = Lock # body @ [Unlock] \<and> list_all quiet body"
proof -
  have q: "list_all quiet (copy_bytes b p q n)" "list_all quiet (compare_bytes p q n)" "list_all quiet (read_halves l h p)"
      "list_all quiet (write_halves p f g)" for b p q n l h f g
    by (auto simp: copy_bytes_def compare_bytes_def read_halves_def write_halves_def read_half_def write_half_def list_all_iff quiet_def)
  have "code_of c = Lock # butlast (tl (code_of c)) @ [Unlock] \<and> list_all quiet (butlast (tl (code_of c)))"
    by (cases c) (simp_all add: op_defs butlast_append q quiet_def)
  then show ?thesis by blast
qed

text \<open>Calls in the order their sections ended, run one after the other.\<close>

fun replay :: "(nat \<times> call) list \<Rightarrow> memory \<Rightarrow> memory" where
  "replay [] m = m"
| "replay ((t, c) # log) m = replay log (snd (apply_call c m))"

fun replies :: "nat \<Rightarrow> (nat \<times> call) list \<Rightarrow> memory \<Rightarrow> bool list" where
  "replies t [] m = []"
| "replies t ((u, c) # log) m = (if u = t then [fst (apply_call c m)] else []) @ replies t log (snd (apply_call c m))"

definition calls_of :: "nat \<Rightarrow> (nat \<times> call) list \<Rightarrow> call list" where
  "calls_of t log = map snd (filter (\<lambda>(u, c). u = t) log)"

lemma replay_snoc: "replay (log @ [(t, c)]) m = snd (apply_call c (replay log m))"
  by (induction log m rule: replay.induct) simp_all

lemma replies_snoc: "replies t (log @ [(u, c)]) m = replies t log m @ (if u = t then [fst (apply_call c (replay log m))] else [])"
  by (induction t log m rule: replies.induct) simp_all

lemma calls_of_snoc: "calls_of t (log @ [(u, c)]) = calls_of t log @ (if u = t then [c] else [])"
  by (simp add: calls_of_def)

text \<open>A thread between calls or waiting at the gate, and one inside its section, which has run the steps
  \<open>p\<close> of its call on memory \<open>m\<close>.\<close>

definition waiting :: "thread \<Rightarrow> bool" where
  "waiting th \<longleftrightarrow> (case current th of None \<Rightarrow> code th = [] | Some c \<Rightarrow> code th = code_of c \<and> locals th = regs0)"

definition inside :: "thread \<Rightarrow> memory \<Rightarrow> memory \<Rightarrow> bool" where
  "inside th m0 m \<longleftrightarrow> (\<exists>c p. current th = Some c \<and> code_of c = Lock # p @ code th \<and> code th \<noteq> [] \<and> run p (regs0, m0) = (locals th, m))"

definition pending :: "thread \<Rightarrow> call list" where
  "pending th = (case current th of None \<Rightarrow> [] | Some c \<Rightarrow> [c]) @ todo th"

definition serial :: "machine \<Rightarrow> (nat \<times> call) list \<Rightarrow> nat option \<Rightarrow> machine \<Rightarrow> bool" where
  "serial s0 log h s \<longleftrightarrow>
     (\<forall>t. todo (threads s0 t) = calls_of t log @ pending (threads s t)) \<and>
     (\<forall>t. answers (threads s t) = replies t log (shared s0)) \<and>
     (\<forall>t. Some t \<noteq> h \<longrightarrow> waiting (threads s t)) \<and>
     (case h of None \<Rightarrow> gate s = 0 \<and> shared s = replay log (shared s0)
      | Some t \<Rightarrow> gate s = 1 \<and> inside (threads s t) (replay log (shared s0)) (shared s))"

definition fresh :: "machine \<Rightarrow> bool" where
  "fresh s \<longleftrightarrow> gate s = 0 \<and> (\<forall>t. current (threads s t) = None \<and> code (threads s t) = [] \<and> answers (threads s t) = [])"

lemma fresh_serial: "fresh s \<Longrightarrow> serial s [] None s"
  by (simp add: fresh_def serial_def calls_of_def pending_def waiting_def)

lemma code_of_first: "code_of c = x # k \<Longrightarrow> x = Lock"
  using code_shape [of c] by auto

text \<open>A thread at a step other than the gate is the one inside.\<close>

lemma serial_inside:
  assumes "serial s0 log h s" and "code (threads s t) = x # k" and "x \<noteq> Lock"
  obtains c p where "h = Some t" and "gate s = 1" and "current (threads s t) = Some c" and "code_of c = Lock # p @ x # k"
    and "run p (regs0, replay log (shared s0)) = (locals (threads s t), shared s)" and "list_all quiet p" and "x = Unlock \<longleftrightarrow> k = []" and "x = Unlock \<or> quiet x"
proof -
  have h: "h = Some t"
  proof (rule ccontr)
    assume "h \<noteq> Some t"
    with assms(1) have "waiting (threads s t)" by (auto simp: serial_def)
    with assms(2,3) show False using code_of_first [of _ x k] by (auto simp: waiting_def split: option.splits)
  qed
  with assms(1) have "gate s = 1" "inside (threads s t) (replay log (shared s0)) (shared s)" by (simp_all add: serial_def)
  then obtain c p where c: "current (threads s t) = Some c" "code_of c = Lock # p @ x # k" "run p (regs0, replay log (shared s0)) = (locals (threads s t), shared s)"
    using assms(2) by (auto simp: inside_def)
  obtain body where b: "code_of c = Lock # body @ [Unlock]" "list_all quiet body" using code_shape by blast
  have "\<not> quiet Unlock" by (simp add: quiet_def)
  have eq: "p @ x # k = body @ [Unlock]" using b(1) c(2) by simp
  have "list_all quiet p \<and> (x = Unlock \<longleftrightarrow> k = []) \<and> (x = Unlock \<or> quiet x)"
  proof (cases k rule: rev_cases)
    case Nil
    then show ?thesis using eq b(2) by simp
  next
    case (snoc k' y)
    then have "p @ x # k' = body" using eq by simp
    then have "list_all quiet p" "quiet x" using b(2) by auto
    then show ?thesis using snoc \<open>\<not> quiet Unlock\<close> by auto
  qed
  with that [OF h \<open>gate s = 1\<close> c] show thesis by blast
qed


lemma serial_step:
  assumes inv: "serial s0 log h s" and "step s s'"
  shows "\<exists>log' h'. serial s0 log' h' s'"
  using assms(2)
proof cases
  case (start t c cs)
  have h: "h \<noteq> Some t" using inv start(2) by (auto simp: serial_def inside_def)
  then have "waiting (threads s t)" using inv by (auto simp: serial_def)
  then have cur: "current (threads s t) = None"
    using start(2) code_shape by (auto simp: waiting_def split: option.splits) (metis list.distinct(1))
  have "serial s0 log h s'"
    using inv h cur start(3) by (auto simp: serial_def start(1) pending_def waiting_def split: option.splits)
  then show ?thesis by blast
next
  case (acquire t k)
  have h: "h = None" using inv acquire(3) by (auto simp: serial_def split: option.splits)
  then have "waiting (threads s t)" using inv by (auto simp: serial_def)
  then obtain c where c: "current (threads s t) = Some c" "code_of c = Lock # k" "locals (threads s t) = regs0"
    using acquire(2) by (auto simp: waiting_def split: option.splits)
  have "k \<noteq> []" using code_shape [of c] c(2) by auto
  then have "inside ((threads s t)\<lparr>code := k\<rparr>) (replay log (shared s0)) (shared s)"
    using inv h c by (auto simp: inside_def serial_def intro!: exI [of _ c] exI [of _ "[]"])
  then have "serial s0 log (Some t) s'" using inv h by (auto simp: serial_def acquire(1) pending_def)
  then show ?thesis by blast
next
  case (spin t k)
  have "gate s = 1" using inv spin(3) by (auto simp: serial_def split: option.splits)
  then have "s' = s" by (simp add: spin(1))
  with inv show ?thesis by blast
next
  case (barrier t b k)
  obtain c p where p: "h = Some t" "gate s = 1" "current (threads s t) = Some c"
    "code_of c = Lock # p @ Barrier b # k" "run p (regs0, replay log (shared s0)) = (locals (threads s t), shared s)" "k \<noteq> []"
    by (rule serial_inside [OF inv barrier(2)]) auto
  have "inside ((threads s t)\<lparr>code := k\<rparr>) (replay log (shared s0)) (shared s)"
    using p by (auto simp: inside_def run_append intro!: exI [of _ c] exI [of _ "p @ [Barrier b]"])
  then have "serial s0 log (Some t) s'" using inv p(1,2) by (auto simp: serial_def barrier(1) pending_def)
  then show ?thesis by blast
next
  case (act t f k r m)
  obtain c p where p: "h = Some t" "gate s = 1" "current (threads s t) = Some c"
    "code_of c = Lock # p @ Act f # k" "run p (regs0, replay log (shared s0)) = (locals (threads s t), shared s)" "k \<noteq> []"
    by (rule serial_inside [OF inv act(2)]) auto
  have "inside ((threads s t)\<lparr>code := k, locals := r\<rparr>) (replay log (shared s0)) m"
    using p act(3) by (auto simp: inside_def run_append intro!: exI [of _ c] exI [of _ "p @ [Act f]"])
  then have "serial s0 log (Some t) s'" using inv p(1,2) by (auto simp: serial_def act(1) pending_def)
  then show ?thesis by blast
next
  case (release t k)
  obtain c p where p: "h = Some t" "gate s = 1" "current (threads s t) = Some c"
    "code_of c = Lock # p @ Unlock # k" "run p (regs0, replay log (shared s0)) = (locals (threads s t), shared s)" "k = []"
    by (rule serial_inside [OF inv release(2)]) auto
  have "apply_call c (replay log (shared s0)) = (same (locals (threads s t)), shared s)"
    using p by (simp add: apply_call_def run_append)
  then have "serial s0 (log @ [(t, c)]) None s'"
    using inv p by (auto simp: serial_def release(1) pending_def waiting_def calls_of_snoc replies_snoc replay_snoc)
  then show ?thesis by blast
qed

lemma serial_steps: "step\<^sup>*\<^sup>* s0 s \<Longrightarrow> fresh s0 \<Longrightarrow> \<exists>log h. serial s0 log h s"
proof (induction rule: rtranclp_induct)
  case base
  then show ?case using fresh_serial by blast
next
  case (step s s')
  then show ?case using serial_step by blast
qed

text \<open>Nobody waits for ever because of the gate: whenever a call is left to finish, some thread can move on.\<close>

lemma serial_progress:
  assumes inv: "serial s0 log h s" and left: "pending (threads s t) \<noteq> []"
  shows "\<exists>s'. step s s' \<and> s' \<noteq> s"
proof -
  have change: "s\<lparr>threads := (threads s)(u := th)\<rparr> \<noteq> s" if "th \<noteq> threads s u" for u th
  proof
    assume "s\<lparr>threads := (threads s)(u := th)\<rparr> = s"
    then have "threads (s\<lparr>threads := (threads s)(u := th)\<rparr>) u = threads s u" by simp
    with that show False by simp
  qed
  show ?thesis
  proof (cases h)
    case (Some u)
    with inv obtain c p where "gate s = 1" "code_of c = Lock # p @ code (threads s u)" "code (threads s u) \<noteq> []"
      by (auto simp: serial_def inside_def)
    then obtain x k where x: "code (threads s u) = x # k" by (cases "code (threads s u)") auto
    have nl: "x \<noteq> Lock"
    proof
      assume "x = Lock"
      obtain body where "code_of c = Lock # body @ [Unlock]" "list_all quiet body" using code_shape by blast
      with \<open>code_of c = Lock # p @ code (threads s u)\<close> x \<open>x = Lock\<close> have "Lock \<in> set (body @ [Unlock])" by (metis in_set_conv_decomp list.inject)
      with \<open>list_all quiet body\<close> show False by (auto simp: list_all_iff quiet_def)
    qed
    have ne: "k \<noteq> x # k" by (metis not_Cons_self)
    show ?thesis
    proof (cases x)
      case Lock
      then show ?thesis using nl by simp
    next
      case (Barrier b)
      have "(threads s u)\<lparr>code := k\<rparr> \<noteq> threads s u" using x ne by (metis thread.select_convs(3) thread.update_convs(3) thread.surjective)
      then show ?thesis using step.barrier [of s u b k] x Barrier change by metis
    next
      case (Act f)
      obtain r m where rm: "f (locals (threads s u), shared s) = (r, m)" by (metis surj_pair)
      let ?s = "s\<lparr>shared := m, threads := (threads s)(u := (threads s u)\<lparr>code := k, locals := r\<rparr>)\<rparr>"
      have "code (threads ?s u) \<noteq> code (threads s u)" using x ne by simp
      then have "?s \<noteq> s" by metis
      then show ?thesis using step.act [of s u f k r m] x Act rm by metis
    next
      case Unlock
      have "gate (s\<lparr>gate := 0, threads := th\<rparr>) \<noteq> gate s" for th using \<open>gate s = 1\<close> by simp
      then show ?thesis using step.release [of s u k] x Unlock by metis
    qed
  next
    case None
    with inv have w: "waiting (threads s t)" and g: "gate s = 0" by (auto simp: serial_def)
    show ?thesis
    proof (cases "current (threads s t)")
      case (Some c)
      with w obtain k where "code (threads s t) = Lock # k" using code_shape [of c] by (auto simp: waiting_def)
      moreover have "gate (s\<lparr>gate := 1, threads := th\<rparr>) \<noteq> gate s" for th using g by simp
      ultimately show ?thesis using step.acquire [of s t k] g by metis
    next
      case None
      with w left obtain c cs where c: "code (threads s t) = []" "todo (threads s t) = c # cs"
        by (cases "todo (threads s t)") (auto simp: waiting_def pending_def)
      let ?th = "(threads s t)\<lparr>todo := cs, current := Some c, code := code_of c, locals := regs0\<rparr>"
      have "current ?th \<noteq> current (threads s t)" using None by simp
      then have "?th \<noteq> threads s t" by metis
      then show ?thesis using step.start [OF c] change by metis
    qed
  qed
qed

text \<open>C10. The 128-bit atomics are indivisible: whatever calls the threads make and however their byte accesses
  interleave, there is one order of the finished calls, in which every thread's calls keep their program order,
  such that every answer is the one the calls give when run one after the other, and so is memory whenever the
  gate is free; no two threads are inside at once; and as long as a call is left some thread can move on.\<close>

theorem atomic128_serializable:
  assumes "fresh s0" and "step\<^sup>*\<^sup>* s0 s"
  shows "\<exists>log. (\<forall>t. todo (threads s0 t) = calls_of t log @ pending (threads s t)) \<and>
    (\<forall>t. answers (threads s t) = replies t log (shared s0)) \<and>
    (gate s = 0 \<longrightarrow> shared s = replay log (shared s0)) \<and>
    (\<forall>t u. \<not> waiting (threads s t) \<and> \<not> waiting (threads s u) \<longrightarrow> t = u) \<and>
    ((\<exists>t. pending (threads s t) \<noteq> []) \<longrightarrow> (\<exists>s'. step s s' \<and> s' \<noteq> s))"
proof -
  from serial_steps [OF assms(2,1)] obtain log h where inv: "serial s0 log h s" by blast
  then have "gate s = 0 \<longrightarrow> shared s = replay log (shared s0)"
    by (auto simp: serial_def split: option.splits)
  moreover have "\<forall>t u. \<not> waiting (threads s t) \<and> \<not> waiting (threads s u) \<longrightarrow> t = u"
    using inv unfolding serial_def by (metis option.inject)
  moreover have "(\<exists>t. pending (threads s t) \<noteq> []) \<longrightarrow> (\<exists>s'. step s s' \<and> s' \<noteq> s)" using serial_progress [OF inv] by blast
  moreover have "\<forall>t. todo (threads s0 t) = calls_of t log @ pending (threads s t)" "\<forall>t. answers (threads s t) = replies t log (shared s0)"
    using inv by (simp_all add: serial_def)
  ultimately show ?thesis by (intro exI [of _ log] conjI)
qed


text \<open>A scheduler's choice of the thread that moves, and a run of two threads that add to one value.\<close>

definition advance :: "machine \<Rightarrow> nat \<Rightarrow> machine" where
  "advance s t = (case code (threads s t) of
     [] \<Rightarrow> (case todo (threads s t) of [] \<Rightarrow> s
        | c # cs \<Rightarrow> s\<lparr>threads := (threads s)(t := (threads s t)\<lparr>todo := cs, current := Some c, code := code_of c, locals := regs0\<rparr>)\<rparr>)
   | Lock # k \<Rightarrow> if gate s = 0 then s\<lparr>gate := 1, threads := (threads s)(t := (threads s t)\<lparr>code := k\<rparr>)\<rparr> else s\<lparr>gate := 1\<rparr>
   | Barrier b # k \<Rightarrow> s\<lparr>threads := (threads s)(t := (threads s t)\<lparr>code := k\<rparr>)\<rparr>
   | Act f # k \<Rightarrow> (case f (locals (threads s t), shared s) of (r, m) \<Rightarrow> s\<lparr>shared := m, threads := (threads s)(t := (threads s t)\<lparr>code := k, locals := r\<rparr>)\<rparr>)
   | Unlock # k \<Rightarrow> s\<lparr>gate := 0, threads := (threads s)(t := (threads s t)\<lparr>code := k, current := None,
       answers := answers (threads s t) @ [same (locals (threads s t))]\<rparr>)\<rparr>)"

lemma advance_step: "step\<^sup>*\<^sup>* s (advance s t)"
  by (auto simp: advance_def split: list.split micro.split prod.split intro: step.intros [unfolded One_nat_def])

lemma advance_steps: "step\<^sup>*\<^sup>* s (foldl advance s ts)"
  by (induction ts arbitrary: s) (auto intro: rtranclp_trans advance_step)

definition two_threads :: machine where
  "two_threads = \<lparr>gate = 0, shared = (\<lambda>_. 0), threads = (\<lambda>t. \<lparr>todo = (if t < 2 then [Rmw Add 0x1000 0x2000 (0x3000 + of_nat (16 * t)) LOKE_RT_ORDER_SEQ_CST] else []),
     current = None, code = [], locals = regs0, answers = []\<rparr>)\<rparr>"

theorem atomic128_serializable_witness:
  "let s = foldl advance two_threads (concat (replicate 100 [0, 1])) in
   \<exists>log. (\<forall>t. todo (threads two_threads t) = calls_of t log @ pending (threads s t)) \<and>
    (gate s = 0 \<longrightarrow> shared s = replay log (shared two_threads))"
proof -
  have "fresh two_threads" by (simp add: fresh_def two_threads_def)
  from atomic128_serializable [OF this advance_steps, of "concat (replicate 100 [0, 1])"] show ?thesis
    unfolding Let_def by (elim exE conjE) (intro exI conjI)
qed

section \<open>What a call does\<close>

definition bytes_word :: "u8 list \<Rightarrow> u64" where
  "bytes_word bs = fold (\<lambda>k w. set_byte w k (bs ! k)) [0..<8] 0"

definition word128 :: "memory \<Rightarrow> addr \<Rightarrow> u128" where
  "word128 m p = halves (bytes_word (load m p 8)) (bytes_word (load m (p + 8) 8))"

lemma bit_set_byte: "bit (set_byte w k b) n \<longleftrightarrow> (if n div 8 = k then n < 64 \<and> bit b (n mod 8) else bit w n)"
proof -
  have "n div 8 = k \<longleftrightarrow> 8 * k \<le> n \<and> n - 8 * k < 8" by auto
  moreover have "n mod 8 = n - 8 * k" if "n div 8 = k" using that by (auto simp: minus_mult_div_eq_mod)
  moreover have "bit (255 :: u64) j \<longleftrightarrow> j < 8" for j
  proof -
    have "(255 :: u64) = mask 8" by (simp add: mask_eq_exp_minus_1)
    then show ?thesis by (simp only: bit_mask_iff) auto
  qed
  moreover have "bit b j \<Longrightarrow> j < 8" for j using bit_imp_le_length [of b j] by simp
  ultimately show ?thesis using bit_imp_le_length [of w n] unfolding set_byte_def by (auto simp: bit_simps)
qed

lemma bit_fold_set_byte: "bit (fold (\<lambda>k w. set_byte w k (f k)) [0..<j] w) n \<longleftrightarrow> (if n div 8 < j then n < 64 \<and> bit (f (n div 8)) (n mod 8) else bit w n)"
  by (induction j) (auto simp: bit_set_byte)

lemma bytes_word_fold: "fold (\<lambda>k w. set_byte w k (f k)) [0..<8] w = bytes_word (map f [0..<8])"
proof -
  have "bytes_word (map f [0..<8]) = fold (\<lambda>k w. set_byte w k (f k)) [0..<8] 0"
    unfolding bytes_word_def by (rule fold_cong) auto
  moreover have "bit (fold (\<lambda>k w. set_byte w k (f k)) [0..<8] w) n = bit (fold (\<lambda>k w. set_byte w k (f k)) [0..<8] 0) n" for n
    unfolding bit_fold_set_byte using bit_imp_le_length [of w n] by auto
  ultimately show ?thesis by (simp add: bit_eq_iff)
qed

lemma bytes_word_of: "fold (\<lambda>k w. set_byte w k (f k)) [0..<8] = (\<lambda>_. bytes_word (map f [0..<8]))"
  by (rule ext) (rule bytes_word_fold)

lemma bytes_word_bytes: "bytes_word (map (byte_of w) [0..<8]) = w"
proof (rule bit_eqI)
  fix n
  have "bit (byte_of w (n div 8)) (n mod 8) = bit w n" by (simp add: byte_of_def bit_simps)
  then show "bit (bytes_word (map (byte_of w) [0..<8])) n = bit w n"
    unfolding bytes_word_fold [symmetric, where w = 0] bit_fold_set_byte using bit_imp_le_length [of w n] by auto
qed


text \<open>Runs of byte accesses.\<close>

lemma span_Suc: "span p (Suc n) = insert (p + of_nat n) (span p n)"
  by (auto simp: span_def lessThan_Suc)

lemma store_snoc: "length bs < 2 ^ 64 \<Longrightarrow> (store m p bs)(p + of_nat (length bs) := b) = store m p (bs @ [b])"
  using store_append [of bs "[b]" m p] by (simp add: store_one)

lemma run_copy:
  assumes "span src n \<inter> span dst n = {}" and "n \<le> 16"
  shows "run (copy_bytes c dst src n) (r, m) = (r, if c r then store m dst (load m src n) else m)"
  using assms
proof (induction n)
  case (Suc n)
  let ?m = "store m dst (load m src n)"
  have IH: "run (copy_bytes c dst src n) (r, m) = (r, if c r then ?m else m)" using Suc by (auto simp: span_Suc)
  have "src + of_nat n \<notin> span dst n" using Suc.prems(1) by (auto simp: span_Suc)
  then have "?m (src + of_nat n) = m (src + of_nat n)" using Suc.prems(2) by (intro store_outside) simp_all
  moreover have "load m src (Suc n) = load m src n @ [m (src + of_nat n)]" by (simp add: load_def)
  moreover have "copy_bytes c dst src (Suc n) = copy_bytes c dst src n @ [Act (\<lambda>(r, m). (r, if c r then m(dst + of_nat n := m (src + of_nat n)) else m))]"
    by (simp add: copy_bytes_def)
  ultimately show ?case using store_snoc [of "load m src n" m dst "m (src + of_nat n)"] Suc.prems(2) IH by (auto simp: run_append)
qed (simp add: copy_bytes_def)

lemma run_compare: "run (compare_bytes p q n) (r, m) = (r\<lparr>same := load m p n = load m q n\<rparr>, m)"
proof (induction n)
  case (Suc n)
  have "compare_bytes p q (Suc n) = compare_bytes p q n @ [Act (\<lambda>(r, m). (r\<lparr>same := same r \<and> m (p + of_nat n) = m (q + of_nat n)\<rparr>, m))]"
    by (simp add: compare_bytes_def)
  with Suc show ?case by (simp add: run_append load_def)
qed (simp add: compare_bytes_def)

lemma run_read_half:
  assumes "\<And>f g r. upd f (upd g r) = upd (f \<circ> g) r" and "\<And>r. upd (\<lambda>w. w) r = r"
  shows "run (read_half upd p n) (r, m) = (upd (fold (\<lambda>k w. set_byte w k (m (p + of_nat k))) [0..<n]) r, m)"
proof (induction n)
  case (Suc n)
  have "read_half upd p (Suc n) = read_half upd p n @ [Act (\<lambda>(r, m). (upd (\<lambda>w. set_byte w n (m (p + of_nat n))) r, m))]"
    by (simp add: read_half_def)
  with Suc show ?case by (simp add: run_append assms(1) comp_def)
qed (simp add: read_half_def assms(2) id_def)

lemma run_read_halves:
  assumes "\<And>f g r. lo f (lo g r) = lo (f \<circ> g) r" and "\<And>r. lo (\<lambda>w. w) r = r" and "\<And>f g r. hi f (hi g r) = hi (f \<circ> g) r" and "\<And>r. hi (\<lambda>w. w) r = r"
  shows "run (read_halves lo hi p) (r, m) = (hi (\<lambda>_. bytes_word (load m (p + 8) 8)) (lo (\<lambda>_. bytes_word (load m p 8)) r), m)"
  unfolding read_halves_def run_append run_read_half [of lo, OF assms(1,2)] run_read_half [of hi, OF assms(3,4)]
  by (simp add: bytes_word_of load_def)

lemma run_write_half: "n \<le> 8 \<Longrightarrow> run (write_half sel p n) (r, m) = (r, store m p (map (byte_of (sel r)) [0..<n]))"
proof (induction n)
  case (Suc n)
  have "write_half sel p (Suc n) = write_half sel p n @ [Act (\<lambda>(r, m). (r, m(p + of_nat n := byte_of (sel r) n)))]"
    by (simp add: write_half_def)
  with Suc store_snoc [of "map (byte_of (sel r)) [0..<n]" m p "byte_of (sel r) n"] show ?case by (simp add: run_append)
qed (simp add: write_half_def)

definition put128 :: "memory \<Rightarrow> addr \<Rightarrow> u64 \<Rightarrow> u64 \<Rightarrow> memory" where
  "put128 m p low high = store (store m p (map (byte_of low) [0..<8])) (p + 8) (map (byte_of high) [0..<8])"

lemma run_write_halves: "run (write_halves p f g) (r, m) = (r, put128 m p (f r) (g r))"
  by (simp add: write_halves_def run_append run_write_half put128_def)

lemma spans_of_16: "span p 16 = span p 8 \<union> span (p + 8) 8" "span p 8 \<inter> span (p + 8) 8 = {}"
proof -
  have "{..<16 :: nat} = {..<8} \<union> (\<lambda>k. 8 + k) ` {..<8}" 
  proof (intro set_eqI iffI)
    fix x :: nat assume "x \<in> {..<16}"
    then show "x \<in> {..<8} \<union> (\<lambda>k. 8 + k) ` {..<8}" by (cases "x < 8") (auto intro: image_eqI [of _ _ "x - 8"])
  qed auto
  then show "span p 16 = span p 8 \<union> span (p + 8) 8" unfolding span_def by (simp only: image_Un image_image of_nat_add) (simp add: add.assoc)
  show "span p 8 \<inter> span (p + 8) 8 = {}" using span_apart [of 0 8 8 8 p] by simp
qed


lemma halves_bit: "bit (halves low high) n \<longleftrightarrow> (if n < 64 then bit low n else bit high (n - 64))"
  using bit_imp_le_length [of low n] bit_imp_le_length [of high "n - 64"] by (auto simp: halves_def bit_simps)

lemma halves_inject: "halves low high = halves low' high' \<longleftrightarrow> low = low' \<and> high = high'"
proof
  assume eq: "halves low high = halves low' high'"
  have "bit low n = bit low' n" if "n < 64" for n using arg_cong [OF eq, of "\<lambda>w. bit w n"] that by (simp add: halves_bit)
  moreover have "bit high n = bit high' n" for n using arg_cong [OF eq, of "\<lambda>w. bit w (n + 64)"] by (simp add: halves_bit)
  ultimately show "low = low' \<and> high = high'" by (auto intro: bit_word_eqI)
qed simp

lemma put128_outside: "a \<notin> span p 16 \<Longrightarrow> put128 m p low high a = m a"
  by (simp add: put128_def store_outside spans_of_16)

lemma word128_put: "word128 (put128 m p low high) p = halves low high"
proof -
  have "load (put128 m p low high) (p + 8) 8 = map (byte_of high) [0..<8]"
    using load_store_same [of "map (byte_of high) [0..<8]" _ "p + 8"] by (simp add: put128_def)
  moreover have "load (put128 m p low high) p 8 = map (byte_of low) [0..<8]"
    using load_store_same [of "map (byte_of low) [0..<8]" _ p] load_store_apart [of p 8 "p + 8" "map (byte_of high) [0..<8]"] spans_of_16(2) [of p]
    by (simp add: put128_def)
  ultimately show ?thesis by (simp add: word128_def bytes_word_bytes)
qed

lemma word128_cong: "(\<And>a. a \<in> span p 16 \<Longrightarrow> m a = m' a) \<Longrightarrow> word128 m p = word128 m' p"
  unfolding word128_def spans_of_16 by (intro arg_cong2 [where f = halves] arg_cong [where f = bytes_word] load_cong) auto

lemma word128_load: "load m p 16 = load m' q 16 \<Longrightarrow> word128 m p = word128 m' q"
  using load_append [of m p 8 8] load_append [of m' q 8 8] by (simp add: word128_def)

lemma word128_eq_iff: "word128 m p = word128 m q \<longleftrightarrow> load m p 16 = load m q 16"
proof
  assume eq: "word128 m p = word128 m q"
  have inj: "bs = cs" if "bytes_word bs = bytes_word cs" "length bs = 8" "length cs = 8" for bs cs
  proof (rule nth_equalityI)
    fix i assume i: "i < length bs"
    have "bit (bs ! i) j = bit (cs ! i) j" if "j < 8" for j
    proof -
      have "bit (bytes_word bs) (8 * i + j) = bit (bytes_word cs) (8 * i + j)" using \<open>bytes_word bs = bytes_word cs\<close> by simp
      moreover have "(8 * i + j) div 8 = i" "(8 * i + j) mod 8 = j" "8 * i + j < 64" using that i \<open>length bs = 8\<close> by simp_all
      ultimately show ?thesis using i \<open>length bs = 8\<close> unfolding bytes_word_def bit_fold_set_byte by simp
    qed
    then show "bs ! i = cs ! i" by (intro bit_word_eqI) simp
  qed (simp add: that)
  have "bytes_word (load m p 8) = bytes_word (load m q 8) \<and> bytes_word (load m (p + 8) 8) = bytes_word (load m (q + 8) 8)"
    using eq by (simp add: word128_def halves_inject)
  then show "load m p 16 = load m q 16"
    using inj load_append [of m p 8 8] load_append [of m q 8 8] by auto
qed (rule word128_load)

text \<open>The two halves with their carry and borrow are the 128-bit operation.\<close>

fun rmw_word :: "rmw \<Rightarrow> u128 \<Rightarrow> u128 \<Rightarrow> u128" where
  "rmw_word Add a b = a + b"
| "rmw_word Sub a b = a - b"
| "rmw_word And a b = a AND b"
| "rmw_word Or a b = a OR b"
| "rmw_word Xor a b = a XOR b"

definition wide :: "u64 \<Rightarrow> u128" where
  "wide x = of_nat (unat x)"

lemma halves_num: "halves low high = wide high * 2 ^ 64 + wide low"
proof -
  have "halves low high = of_nat (unat (halves low high))" by simp
  then show ?thesis unfolding wide_def by (simp only: unat_halves) simp
qed

lemma high_add: "wide (x + y) * 2 ^ 64 = (wide x + wide y) * 2 ^ 64"
proof -
  define n where "n = unat x + unat y"
  have zero: "(2 ^ 64 * 2 ^ 64 :: u128) = 0" by simp
  have "(of_nat n * 2 ^ 64 :: u128) = of_nat (n div 2 ^ 64 * 2 ^ 64 + n mod 2 ^ 64) * 2 ^ 64" by (simp only: div_mult_mod_eq)
  also have "\<dots> = of_nat (n div 2 ^ 64) * (2 ^ 64 * 2 ^ 64) + of_nat (n mod 2 ^ 64) * 2 ^ 64"
    by (simp only: of_nat_add of_nat_mult of_nat_power of_nat_numeral distrib_right mult.assoc)
  finally have "(of_nat n * 2 ^ 64 :: u128) = of_nat (n mod 2 ^ 64) * 2 ^ 64" by (simp only: zero mult_zero_right add_0)
  moreover have "unat (x + y) = n mod 2 ^ 64" unfolding n_def by (simp add: unat_word_ariths)
  ultimately show ?thesis unfolding wide_def by (simp only: n_def of_nat_add)
qed

lemma high_diff: "wide (x - y) * 2 ^ 64 = (wide x - wide y) * 2 ^ 64"
  using high_add [of "x - y" y] by (simp add: algebra_simps)

lemma low_add: "wide (x + y) = wide x + wide y - (if x + y < x then 2 ^ 64 else 0)"
proof (cases "x + y < x")
  case True
  then have "2 ^ 64 \<le> unat x + unat y" using plus_no_wrap [of x y] by (simp add: not_less [symmetric])
  then have "unat x + unat y = unat (x + y) + 2 ^ 64" using unat_plus_if' [of x y] by simp
  from arg_cong [OF this, of "of_nat :: nat \<Rightarrow> u128"] have "wide x + wide y = wide (x + y) + 2 ^ 64"
    unfolding wide_def by (simp only: of_nat_add of_nat_power of_nat_numeral)
  with True show ?thesis by simp
next
  case False
  then have "unat x + unat y < 2 ^ 64" using plus_no_wrap [of x y] by (simp add: not_less)
  with False show ?thesis by (simp add: wide_def unat_plus_exact del: of_nat_unat)
qed

lemma low_diff: "wide (x - y) = wide x - wide y + (if x < y then 2 ^ 64 else 0)"
proof -
  have "x - y + y < x - y \<longleftrightarrow> x < y"
  proof -
    have "x < x - y \<longleftrightarrow> x < y"
    proof (cases "x < y")
      case True
      then show ?thesis by unat_arith
    qed unat_arith
    then show ?thesis by simp
  qed
  then show ?thesis using low_add [of "x - y" y] by (auto simp: algebra_simps)
qed

lemma wide_bits: "wide 0 = 0" "wide 1 = 1"
  by (simp_all add: wide_def)

lemma halves_rmw:
  shows "halves low high + halves low' high' = halves (low + low') (high + high' + (if low + low' < low then 1 else 0))"
    and "halves low high - halves low' high' = halves (low - low') (high - high' - (if low < low' then 1 else 0))"
    and "halves low high AND halves low' high' = halves (low AND low') (high AND high')"
    and "halves low high OR halves low' high' = halves (low OR low') (high OR high')"
    and "halves low high XOR halves low' high' = halves (low XOR low') (high XOR high')"
proof -
  define M :: u128 where "M = 2 ^ 64"
  note num = halves_num [folded M_def] and high = high_add [folded M_def] high_diff [folded M_def]
  show "halves low high + halves low' high' = halves (low + low') (high + high' + (if low + low' < low then 1 else 0))"
  proof -
    define c :: u64 where "c = (if low + low' < low then 1 else 0)"
    have "wide (low + low') = wide low + wide low' - wide c * M" using low_add [of low low'] by (simp add: c_def wide_bits M_def)
    moreover have "wide (high + high' + c) * M = wide high * M + wide high' * M + wide c * M" by (simp only: high distrib_right)
    ultimately show ?thesis unfolding num c_def [symmetric] by (simp add: distrib_right)
  qed
  show "halves low high - halves low' high' = halves (low - low') (high - high' - (if low < low' then 1 else 0))"
  proof -
    define c :: u64 where "c = (if low < low' then 1 else 0)"
    have "wide (low - low') = wide low - wide low' + wide c * M" using low_diff [of low low'] by (simp add: c_def wide_bits M_def)
    moreover have "wide (high - high' - c) * M = wide high * M - wide high' * M - wide c * M" by (simp only: high left_diff_distrib)
    ultimately show ?thesis unfolding num c_def [symmetric] by (simp add: left_diff_distrib)
  qed
qed (rule bit_word_eqI, simp add: bit_simps halves_bit)+

lemma body_of_halves:
  "halves (r_low (body_of op r)) (r_high (body_of op r)) = rmw_word op (halves (a_low r) (a_high r)) (halves (b_low r) (b_high r))"
  "a_low (body_of op r) = a_low r" "a_high (body_of op r) = a_high r"
  by (cases op; simp add: add_body_def sub_body_def and_body_def or_body_def xor_body_def Let_def halves_rmw)+


lemma run_enter_leave: "run (enter order) s = s" "run (leave f) s = s"
  by (simp_all add: enter_def leave_def)

lemma run_read_operands:
  "run (read_halves a_low_update a_high_update p) (r, m) = (r\<lparr>a_low := bytes_word (load m p 8), a_high := bytes_word (load m (p + 8) 8)\<rparr>, m)"
  "run (read_halves b_low_update b_high_update p) (r, m) = (r\<lparr>b_low := bytes_word (load m p 8), b_high := bytes_word (load m (p + 8) 8)\<rparr>, m)"
  by (rule run_read_halves; simp)+

lemmas run_steps = run_append run_enter_leave run_copy run_compare run_read_operands run_write_halves LOKE_RT_ATOMIC128_BYTES_def

text \<open>C39. What one call does, on operands of 16 bytes that do not overlap: the read-modify-writes put the sum,
  difference, conjunction, disjunction or exclusive disjunction of the two 128-bit integers at the address, with
  wrap-around, computed through 64-bit halves with their carry or borrow, and the previous integer in \<^verbatim>\<open>out\<close>; a
  load, store and exchange move the value; a compare-exchange answers whether the values were equal, and writes
  the desired value, or reports the one it found; and no other byte of memory changes.\<close>

theorem atomic128_calls:
  assumes "span address 16 \<inter> span v 16 = {}" and "span address 16 \<inter> span out 16 = {}" and "span v 16 \<inter> span out 16 = {}"
  shows "(\<exists>b m'. apply_call (Rmw op address v out order) m = (b, m') \<and> word128 m' address = rmw_word op (word128 m address) (word128 m v) \<and>
      word128 m' out = word128 m address \<and> (\<forall>a. a \<notin> span address 16 \<union> span out 16 \<longrightarrow> m' a = m a)) \<and>
    (\<exists>b m'. apply_call (Exchange address v out order) m = (b, m') \<and> word128 m' address = word128 m v \<and>
      word128 m' out = word128 m address \<and> (\<forall>a. a \<notin> span address 16 \<union> span out 16 \<longrightarrow> m' a = m a)) \<and>
    (\<exists>b m'. apply_call (Load address out order) m = (b, m') \<and> word128 m' out = word128 m address \<and> (\<forall>a. a \<notin> span out 16 \<longrightarrow> m' a = m a)) \<and>
    (\<exists>b m'. apply_call (Store address v order) m = (b, m') \<and> word128 m' address = word128 m v \<and> (\<forall>a. a \<notin> span address 16 \<longrightarrow> m' a = m a)) \<and>
    (\<exists>b m'. apply_call (Compare_exchange address out v order failure) m = (b, m') \<and> (b \<longleftrightarrow> word128 m address = word128 m out) \<and>
      (if b then word128 m' address = word128 m v \<and> (\<forall>a. a \<notin> span address 16 \<longrightarrow> m' a = m a)
       else word128 m' out = word128 m address \<and> (\<forall>a. a \<notin> span out 16 \<longrightarrow> m' a = m a)))"
proof -
  have copied: "word128 (store m' dst (load m' src 16)) dst = word128 m' src" for m' dst src
    using load_store_same [of "load m' src 16" m' dst] by (intro word128_load) simp
  have kept: "word128 (store m' dst (load m'' src 16)) p = word128 m' p" if "span p 16 \<inter> span dst 16 = {}" for m' m'' dst src p
    using load_store_apart [of p 16 dst "load m'' src 16" m'] that by (intro word128_load) simp
  have outside: "store m' dst (load m'' src 16) a = m' a" if "a \<notin> span dst 16" for m' m'' dst src a
    using that by (intro store_outside) simp_all
  note apart = assms assms [THEN trans [OF Int_commute]]
  show ?thesis
  proof (intro conjI)
    let ?r = "body_of op (regs0\<lparr>a_low := bytes_word (load m address 8), a_high := bytes_word (load m (address + 8) 8),
        b_low := bytes_word (load m v 8), b_high := bytes_word (load m (v + 8) 8)\<rparr>)"
    let ?m = "put128 m out (a_low ?r) (a_high ?r)"
    let ?m' = "put128 ?m address (r_low ?r) (r_high ?r)"
    have run: "apply_call (Rmw op address v out order) m = (same ?r, ?m')"
      by (simp add: apply_call_def loke_rt_v1_atomic128_rmw_def run_steps comp_def)
    have "word128 ?m' address = rmw_word op (word128 m address) (word128 m v)"
      unfolding word128_put body_of_halves(1) by (simp add: word128_def)
    moreover have "word128 ?m' out = word128 ?m out" using apart by (intro word128_cong put128_outside) auto
    then have "word128 ?m' out = word128 m address" unfolding word128_put body_of_halves(2,3) by (simp add: word128_def)
    moreover have "\<forall>a. a \<notin> span address 16 \<union> span out 16 \<longrightarrow> ?m' a = m a" by (simp add: put128_outside)
    ultimately show "\<exists>b m'. apply_call (Rmw op address v out order) m = (b, m') \<and> word128 m' address = rmw_word op (word128 m address) (word128 m v) \<and>
        word128 m' out = word128 m address \<and> (\<forall>a. a \<notin> span address 16 \<union> span out 16 \<longrightarrow> m' a = m a)"
      using run by blast
  qed (use apart in \<open>auto simp: apply_call_def run_steps loke_rt_v1_atomic128_exchange_def loke_rt_v1_atomic128_load_def
      loke_rt_v1_atomic128_store_def loke_rt_v1_atomic128_compare_exchange_def copied kept outside word128_eq_iff\<close>)
qed


theorem atomic128_calls_witness:
  "\<exists>b m'. apply_call (Rmw Add 0x1000 0x2000 0x3000 4) (\<lambda>_. 255) = (b, m') \<and>
     word128 m' 0x1000 = word128 (\<lambda>_. 255) 0x1000 + word128 (\<lambda>_. 255) 0x2000 \<and> word128 m' 0x3000 = word128 (\<lambda>_. 255) 0x1000"
proof -
  have "span 0x1000 16 \<inter> span 0x2000 16 = {}" "span 0x1000 16 \<inter> span 0x3000 16 = {}" "span 0x2000 16 \<inter> span 0x3000 16 = {}"
    by (auto simp: span_nowrap)
  from conjunct1 [OF atomic128_calls [OF this, where op = Add and order = 4 and m = "\<lambda>_. 255"]] show ?thesis by auto
qed

end
