(* ===== verification/Loke_Panic.thy ===== *)
theory Loke_Panic
  imports Loke_Alloc
begin

text \<open>
  Panic and the per-thread frame records (\<^verbatim>\<open>runtime/panic.c\<close>), the immediate stop (\<^verbatim>\<open>runtime/fail.c\<close>) and the stack
  trace of a panic (\<^verbatim>\<open>runtime/trace.c\<close>).  The other theories end a call with the value \<open>Panic\<close> or \<open>Abort\<close>; here is what
  the runtime does then.
\<close>

section \<open>Definitions\<close>

subsection \<open>Per-thread state\<close>

text \<open>A cleanup thunk is an address of generated code, the parameter \<open>thunk\<close>; frame records live in a store.  \<open>err\<close> is
  what has been written to the error stream.\<close>

record frame_v1 =
  fr_previous :: addr
  fr_cleanup :: addr
  fr_context :: addr

record 'w thread_rt =
  frames :: addr
  frame_at :: "addr \<Rightarrow> frame_v1"
  panicking :: bool
  attached :: bool
  err :: string
  trace_enabled :: bool
  trace_taken :: bool
  outside :: 'w

type_synonym 'w thunk = "addr \<Rightarrow> addr \<Rightarrow> ('w thread_rt, unit) proc"

definition newline :: string where
  "newline = [CHR 0x0A]"

definition put_err :: "string \<Rightarrow> ('w thread_rt, unit) proc" where
  "put_err s = modify (\<lambda>st. st\<lparr>err := err st @ s\<rparr>)"

definition loke_rt_v1_thread_attach :: "('w thread_rt, unit) proc" where
  "loke_rt_v1_thread_attach = modify (\<lambda>st. st\<lparr>frames := 0, panicking := False, attached := True\<rparr>)"

definition loke_rt_v1_thread_detach :: "('w thread_rt, unit) proc \<Rightarrow> ('w thread_rt, unit) proc" where
  "loke_rt_v1_thread_detach program_tls_cleanup =
     bind (modify (\<lambda>st. st\<lparr>frames := 0\<rparr>)) (\<lambda>_. bind get_state (\<lambda>st.
     if attached st then bind (modify (\<lambda>st. st\<lparr>attached := False\<rparr>)) (\<lambda>_. program_tls_cleanup) else return ()))"

definition loke_rt_v1_run_task :: "(addr \<Rightarrow> ('w thread_rt, unit) proc) \<Rightarrow> addr \<Rightarrow> ('w thread_rt, unit) proc" where
  "loke_rt_v1_run_task run frame = run frame"

definition loke_rt_v1_frame_push :: "addr \<Rightarrow> addr \<Rightarrow> addr \<Rightarrow> ('w thread_rt, unit) proc" where
  "loke_rt_v1_frame_push frame cleanup ctx =
     modify (\<lambda>st. st\<lparr>frame_at := (frame_at st)(frame := \<lparr>fr_previous = frames st, fr_cleanup = cleanup, fr_context = ctx\<rparr>), frames := frame\<rparr>)"

definition loke_rt_v1_frame_pop :: "addr \<Rightarrow> ('w thread_rt, unit) proc" where
  "loke_rt_v1_frame_pop frame =
     modify (\<lambda>st. if frames st = frame then st\<lparr>frames := fr_previous (frame_at st frame)\<rparr> else st)"

subsection \<open>Failure\<close>

definition loke_rt_v1_abort :: "string option \<Rightarrow> ('w thread_rt, 'a) proc" where
  "loke_rt_v1_abort what =
     (let text = (case what of None \<Rightarrow> ''runtime failure'' | Some s \<Rightarrow> s) in
      bind (put_err (''loke: '' @ text @ newline)) (\<lambda>_. stop (Abort text)))"

definition loke_rt_v1_panic_begin :: "string option \<Rightarrow> ('w thread_rt, unit) proc" where
  "loke_rt_v1_panic_begin message = bind get_state (\<lambda>st.
     if panicking st then loke_rt_v1_abort (Some ''panic while unwinding a panic'')
     else bind (modify (\<lambda>st. st\<lparr>panicking := True\<rparr>)) (\<lambda>_.
       put_err (''loke: panic: '' @ (case message of None \<Rightarrow> ''runtime failure'' | Some s \<Rightarrow> s))))"

subsection \<open>Stack traces\<close>

text \<open>DbgHelp and the kernel are parameters: the return addresses of the stack, and for an address the name of
  the procedure and the file and line, of the physical frame or of one inlined there.  An entry point that is
  missing is \<open>None\<close>.\<close>

record dbghelp_api =
  from_addr :: "(u64 \<Rightarrow> string option) option"
  line_from_addr :: "(u64 \<Rightarrow> (string \<times> nat) option) option"
  inline_count :: "(u64 \<Rightarrow> nat) option"
  inline_query :: "(u64 \<Rightarrow> u32 option) option"
  inline_symbol :: "(u64 \<Rightarrow> u32 \<Rightarrow> string option) option"
  inline_line :: "(u64 \<Rightarrow> u32 \<Rightarrow> (string \<times> nat) option) option"

record trace_host =
  backtrace :: "u64 list"
  dbghelp :: "dbghelp_api option"
  initialize :: "bool option"
  set_options :: bool

definition loke_rt_v1_enable_panic_trace :: "('w thread_rt, unit) proc" where
  "loke_rt_v1_enable_panic_trace = modify (\<lambda>st. st\<lparr>trace_enabled := True\<rparr>)"

definition tolower :: "char \<Rightarrow> char" where
  "tolower c = (let n = of_char c in if 65 \<le> n \<and> n \<le> (90 :: nat) then char_of (n + 32) else c)"

definition is_loke_source :: "string \<Rightarrow> bool" where
  "is_loke_source path = (length path > 5 \<and> map tolower (drop (length path - 5) path) = ''.loke'')"

fun last_component :: "string \<Rightarrow> string \<Rightarrow> string" where
  "last_component file [] = file"
| "last_component file (c # at) = last_component (if c = CHR 0x5C \<or> c = CHR ''/'' then at else file) at"

definition print_frame :: "(string \<times> nat) option \<Rightarrow> string option \<Rightarrow> bool \<Rightarrow> ('w thread_rt, bool) proc" where
  "print_frame line symbol printed = (case line of
     None \<Rightarrow> return printed
   | Some (file_name, line_number) \<Rightarrow>
       if \<not> is_loke_source file_name then return printed
       else bind (if printed then return () else put_err (''loke: stack trace, newest call first:'' @ newline)) (\<lambda>_.
         bind (put_err (''    '' @ (case symbol of Some name \<Rightarrow> name | None \<Rightarrow> ''?'') @ '' at '' @
           last_component file_name file_name @ '':'' @ decimal line_number @ newline)) (\<lambda>_. return True)))"

text \<open>The inlined frames at an address, innermost first.\<close>

fun print_inlined :: "(u64 \<Rightarrow> u32 \<Rightarrow> (string \<times> nat) option) \<Rightarrow> (u64 \<Rightarrow> u32 \<Rightarrow> string option) \<Rightarrow> u64 \<Rightarrow> u32 \<Rightarrow> nat \<Rightarrow> bool \<Rightarrow> ('w thread_rt, bool) proc" where
  "print_inlined line symbol address ctx 0 printed = return printed"
| "print_inlined line symbol address ctx (Suc k) printed =
     bind (print_frame (line address ctx) (symbol address ctx) printed) (\<lambda>printed.
     print_inlined line symbol address (ctx + 1) k printed)"

definition print_inline_frames :: "dbghelp_api \<Rightarrow> u64 \<Rightarrow> bool \<Rightarrow> ('w thread_rt, bool) proc" where
  "print_inline_frames api address printed = (case (inline_count api, inline_query api, inline_symbol api, inline_line api) of
     (Some count, Some query, Some symbol, Some line) \<Rightarrow>
       (let inlined = count address in
        if inlined > 0 then (case query address of Some ctx \<Rightarrow> print_inlined line symbol address ctx inlined printed | None \<Rightarrow> return printed)
        else return printed)
   | _ \<Rightarrow> return printed)"

fun print_frames :: "dbghelp_api \<Rightarrow> u64 list \<Rightarrow> bool \<Rightarrow> ('w thread_rt, unit) proc" where
  "print_frames api [] printed = return ()"
| "print_frames api (f # fs) printed =
     (let address = f - 1 in
      bind (print_inline_frames api address printed) (\<lambda>printed.
      bind (print_frame (the (line_from_addr api) address) (the (from_addr api) address) printed) (\<lambda>printed.
      print_frames api fs printed)))"

definition loke_rt_v1_panic_trace :: "trace_host \<Rightarrow> ('w thread_rt, unit) proc" where
  "loke_rt_v1_panic_trace T = bind get_state (\<lambda>st.
     if \<not> trace_enabled st then return ()
     else if trace_taken st then return ()
     else bind (modify (\<lambda>st. st\<lparr>trace_taken := True\<rparr>)) (\<lambda>_.
       case dbghelp T of
         None \<Rightarrow> return ()
       | Some api \<Rightarrow>
           if initialize T = None \<or> \<not> set_options T \<or> from_addr api = None \<or> line_from_addr api = None then return ()
           else if \<not> the (initialize T) then return ()
           else print_frames api (take 64 (backtrace T)) False))"

subsection \<open>Panic\<close>

definition unwind_loop :: "'w thunk \<Rightarrow> addr \<Rightarrow> ('w thread_rt, addr) proc" where
  "unwind_loop thunk =
     while_proc (\<lambda>frame st. frame \<noteq> 0) (\<lambda>frame. bind get_state (\<lambda>st.
       bind (if fr_cleanup (frame_at st frame) \<noteq> 0 then thunk (fr_cleanup (frame_at st frame)) (fr_context (frame_at st frame)) else return ()) (\<lambda>_.
       bind get_state (\<lambda>st. return (fr_previous (frame_at st frame))))))"

definition loke_rt_v1_panic_end :: "trace_host \<Rightarrow> 'w thunk \<Rightarrow> ('w thread_rt, unit) proc" where
  "loke_rt_v1_panic_end T thunk =
     bind (put_err newline) (\<lambda>_.
     bind (loke_rt_v1_panic_trace T) (\<lambda>_.
     bind get_state (\<lambda>st.
     bind (unwind_loop thunk (frames st)) (\<lambda>_.
     loke_rt_v1_abort (Some ''panicked'')))))"

definition loke_rt_v1_panic :: "trace_host \<Rightarrow> 'w thunk \<Rightarrow> string option \<Rightarrow> ('w thread_rt, unit) proc" where
  "loke_rt_v1_panic T thunk message = bind (loke_rt_v1_panic_begin message) (\<lambda>_. loke_rt_v1_panic_end T thunk)"

section \<open>The frames of a thread\<close>

text \<open>The stack of frames as a list, newest first, and what the calls of the generated code do to it.\<close>

datatype frame_op = Push addr addr addr | Pop addr

fun do_op :: "frame_op \<Rightarrow> ('w thread_rt, unit) proc" where
  "do_op (Push f c x) = loke_rt_v1_frame_push f c x"
| "do_op (Pop f) = loke_rt_v1_frame_pop f"

fun stack_op :: "frame_op \<Rightarrow> (addr \<times> addr \<times> addr) list \<Rightarrow> (addr \<times> addr \<times> addr) list" where
  "stack_op (Push f c x) s = (f, c, x) # s"
| "stack_op (Pop f) [] = []"
| "stack_op (Pop f) ((g, c, x) # s) = (if g = f then s else (g, c, x) # s)"

text \<open>A frame record is in use at most once at a time.\<close>

fun op_ok :: "frame_op \<Rightarrow> (addr \<times> addr \<times> addr) list \<Rightarrow> bool" where
  "op_ok (Push f c x) s \<longleftrightarrow> f \<noteq> 0 \<and> f \<notin> fst ` set s"
| "op_ok (Pop f) s \<longleftrightarrow> f \<noteq> 0"

fun ops_ok :: "frame_op list \<Rightarrow> (addr \<times> addr \<times> addr) list \<Rightarrow> bool" where
  "ops_ok [] s \<longleftrightarrow> True"
| "ops_ok (p # ps) s \<longleftrightarrow> op_ok p s \<and> ops_ok ps (stack_op p s)"

fun do_ops :: "frame_op list \<Rightarrow> ('w thread_rt, unit) proc" where
  "do_ops [] = return ()"
| "do_ops (p # ps) = bind (do_op p) (\<lambda>_. do_ops ps)"

fun chain :: "(addr \<Rightarrow> frame_v1) \<Rightarrow> addr \<Rightarrow> (addr \<times> addr \<times> addr) list \<Rightarrow> bool" where
  "chain F p [] \<longleftrightarrow> p = 0"
| "chain F p ((f, c, x) # s) \<longleftrightarrow> p = f \<and> f \<noteq> 0 \<and> fr_cleanup (F f) = c \<and> fr_context (F f) = x \<and> chain F (fr_previous (F f)) s"

lemma chain_cong: "(\<And>f. f \<in> fst ` set s \<Longrightarrow> F f = G f) \<Longrightarrow> chain F p s = chain G p s"
  by (induction F p s rule: chain.induct) auto

lemma do_op_chain:
  assumes "chain (frame_at st) (frames st) s" and "op_ok p s"
  obtains st' where "do_op p st = (Inr (), st')" and "chain (frame_at st') (frames st') (stack_op p s)"
    and "panicking st' = panicking st" and "err st' = err st" and "trace_enabled st' = trace_enabled st" and "trace_taken st' = trace_taken st"
    and "outside st' = outside st"
proof (cases p)
  case (Push f c x)
  have "chain ((frame_at st)(f := \<lparr>fr_previous = frames st, fr_cleanup = c, fr_context = x\<rparr>)) (frames st) s"
    using assms Push by (subst chain_cong [where G = "frame_at st"]) auto
  with assms(2) Push show thesis by (intro that [of "snd (do_op p st)"]) (simp_all add: loke_rt_v1_frame_push_def rt_simps)
next
  case (Pop f)
  show thesis
  proof (cases s)
    case Nil
    with assms Pop show thesis by (intro that [of "snd (do_op p st)"]) (simp_all add: loke_rt_v1_frame_pop_def rt_simps)
  next
    case (Cons a t)
    obtain g c x where "a = (g, c, x)" by (cases a) auto
    with assms Pop Cons show thesis by (intro that [of "snd (do_op p st)"]) (auto simp: loke_rt_v1_frame_pop_def rt_simps)
  qed
qed

lemma do_ops_chain:
  "chain (frame_at st) (frames st) s \<Longrightarrow> ops_ok ps s \<Longrightarrow> \<exists>st'. do_ops ps st = (Inr (), st') \<and> chain (frame_at st') (frames st') (fold stack_op ps s) \<and>
     panicking st' = panicking st \<and> err st' = err st \<and> trace_enabled st' = trace_enabled st \<and> trace_taken st' = trace_taken st \<and> outside st' = outside st"
proof (induction ps arbitrary: s st)
  case (Cons p ps)
  then have ok: "op_ok p s" "ops_ok ps (stack_op p s)" by simp_all
  from do_op_chain [OF Cons.prems(1) ok(1)] obtain st1 where st1: "do_op p st = (Inr (), st1)" "chain (frame_at st1) (frames st1) (stack_op p s)"
    "panicking st1 = panicking st" "err st1 = err st" "trace_enabled st1 = trace_enabled st" "trace_taken st1 = trace_taken st" "outside st1 = outside st" .
  from Cons.IH [OF st1(2) ok(2)] show ?case using st1 by (auto simp: bind_def)
qed (simp add: rt_simps)


section \<open>The unwind\<close>

text \<open>Cleanups run one after the other, until one does not return.\<close>

fun cleanups :: "'w thunk \<Rightarrow> (addr \<times> addr \<times> addr) list \<Rightarrow> ('w thread_rt, unit) proc" where
  "cleanups thunk [] = return ()"
| "cleanups thunk ((f, c, x) # s) = bind (if c \<noteq> 0 then thunk c x else return ()) (\<lambda>_. cleanups thunk s)"

text \<open>What the generated code promises: a cleanup that returns has not written the records of live frames.\<close>

definition keeps_frames :: "'w thunk \<Rightarrow> addr set \<Rightarrow> bool" where
  "keeps_frames thunk A \<longleftrightarrow> (\<forall>c x st st'. thunk c x st = (Inr (), st') \<longrightarrow> (\<forall>f \<in> A. frame_at st' f = frame_at st f))"

lemma unwind_loop_runs:
  assumes "keeps_frames thunk (fst ` set s)" and "chain (frame_at st) p s"
  shows "unwind_loop thunk p st = bind (cleanups thunk s) (\<lambda>_. return 0) st"
  using assms
proof (induction s arbitrary: p st)
  case Nil
  then show ?case by (simp add: unwind_loop_def rt_simps bind_def)
next
  case (Cons a s)
  obtain f c x where a: "a = (f, c, x)" by (cases a) auto
  have f: "p = f" "f \<noteq> 0" "fr_cleanup (frame_at st f) = c" "fr_context (frame_at st f) = x" "chain (frame_at st) (fr_previous (frame_at st f)) s"
    using Cons.prems(2) by (simp_all add: a)
  let ?run = "if c \<noteq> 0 then thunk c x else return ()"
  obtain r st1 where r: "?run st = (r, st1)" by (metis surj_pair)
  have keep: "keeps_frames thunk (fst ` set s)" using Cons.prems(1) by (auto simp: keeps_frames_def)
  show ?case
  proof (cases r)
    case (Inl e)
    then show ?thesis using r f unfolding unwind_loop_def
      by (subst while_proc_fault [where e = e and t = st1]) (auto simp: a bind_def rt_simps split: if_splits)
  next
    case (Inr u)
    have same: "frame_at st1 g = frame_at st g" if "g \<in> insert f (fst ` set s)" for g
    proof (cases "c = 0")
      case True
      then show ?thesis using r by (simp add: rt_simps)
    next
      case False
      then have "thunk c x st = (Inr (), st1)" using r Inr by simp
      then show ?thesis using Cons.prems(1) that unfolding keeps_frames_def a by fastforce
    qed
    then have "chain (frame_at st1) (fr_previous (frame_at st f)) s" using f(5) by (subst chain_cong [where G = "frame_at st"]) auto
    from Cons.IH [OF keep this] have IH: "unwind_loop thunk (fr_previous (frame_at st f)) st1 = bind (cleanups thunk s) (\<lambda>_. return 0) st1" .
    have "(bind get_state (\<lambda>st. bind (if fr_cleanup (frame_at st p) \<noteq> 0 then thunk (fr_cleanup (frame_at st p)) (fr_context (frame_at st p)) else return ()) (\<lambda>_.
        bind get_state (\<lambda>st. return (fr_previous (frame_at st p)))))) st = (Inr (fr_previous (frame_at st f)), st1)"
      using r f Inr same [of f] by (simp add: bind_def rt_simps cong: if_cong split del: if_split)
    then have "unwind_loop thunk p st = unwind_loop thunk (fr_previous (frame_at st f)) st1"
      unfolding unwind_loop_def using f(1,2) by (intro while_proc_step) simp_all
    also have "\<dots> = bind (cleanups thunk (a # s)) (\<lambda>_. return 0) st" unfolding IH using r Inr by (simp add: a bind_def)
    finally show ?thesis .
  qed
qed

text \<open>The trace, as the text it adds to the error stream.\<close>

definition frame_text :: "(string \<times> nat) option \<times> string option \<Rightarrow> string" where
  "frame_text q = (case fst q of None \<Rightarrow> [] | Some (file, line) \<Rightarrow>
     if is_loke_source file then ''    '' @ (case snd q of Some name \<Rightarrow> name | None \<Rightarrow> ''?'') @ '' at '' @ last_component file file @ '':'' @ decimal line @ newline
     else [])"

definition inlined_at :: "dbghelp_api \<Rightarrow> u64 \<Rightarrow> ((string \<times> nat) option \<times> string option) list" where
  "inlined_at api address = (case (inline_count api, inline_query api, inline_symbol api, inline_line api) of
     (Some count, Some query, Some symbol, Some line) \<Rightarrow>
       (case query address of Some ctx \<Rightarrow> map (\<lambda>k. (line address (ctx + of_nat k), symbol address (ctx + of_nat k))) [0..<count address] | None \<Rightarrow> [])
   | _ \<Rightarrow> [])"

definition frames_at :: "dbghelp_api \<Rightarrow> u64 \<Rightarrow> ((string \<times> nat) option \<times> string option) list" where
  "frames_at api f = inlined_at api (f - 1) @ [(the (line_from_addr api) (f - 1), the (from_addr api) (f - 1))]"

definition trace_text :: "trace_host \<Rightarrow> string" where
  "trace_text T = (case dbghelp T of None \<Rightarrow> [] | Some api \<Rightarrow>
     if initialize T = Some True \<and> set_options T \<and> from_addr api \<noteq> None \<and> line_from_addr api \<noteq> None
     then (let body = concat (map frame_text (concat (map (frames_at api) (take 64 (backtrace T))))) in
       if body = [] then [] else ''loke: stack trace, newest call first:'' @ newline @ body)
     else [])"

definition header_then :: "bool \<Rightarrow> string \<Rightarrow> string" where
  "header_then printed body = (if printed \<or> body = [] then body else ''loke: stack trace, newest call first:'' @ newline @ body)"

lemma print_frame_run:
  "print_frame line symbol printed st = (Inr (printed \<or> frame_text (line, symbol) \<noteq> []), st\<lparr>err := err st @ header_then printed (frame_text (line, symbol))\<rparr>)"
  by (auto simp: print_frame_def frame_text_def header_then_def put_err_def bind_def rt_simps split: option.splits)

lemma header_then_append: "header_then printed a @ header_then (printed \<or> a \<noteq> []) b = header_then printed (a @ b)"
  by (simp add: header_then_def)

lemma err_append: "st\<lparr>err := err st @ a\<rparr>\<lparr>err := err (st\<lparr>err := err st @ a\<rparr>) @ b\<rparr> = st\<lparr>err := err st @ a @ b\<rparr>"
  by simp

lemma print_inlined_run:
  "print_inlined line symbol address ctx k printed st =
    (let body = concat (map frame_text (map (\<lambda>k. (line address (ctx + of_nat k), symbol address (ctx + of_nat k))) [0..<k])) in
     (Inr (printed \<or> body \<noteq> []), st\<lparr>err := err st @ header_then printed body\<rparr>))"
proof (induction k arbitrary: ctx printed st)
  case 0
  then show ?case by (simp add: rt_simps header_then_def)
next
  case (Suc k)
  have shift: "map (\<lambda>k. (line address (ctx + of_nat k), symbol address (ctx + of_nat k))) [0..<Suc k] =
      (line address ctx, symbol address ctx) # map (\<lambda>k. (line address (ctx + 1 + of_nat k), symbol address (ctx + 1 + of_nat k))) [0..<k]"
    unfolding upt_conv_Cons [OF zero_less_Suc] map_Suc_upt [symmetric] by (simp add: add.assoc)
  show ?case unfolding shift
    by (simp add: bind_def print_frame_run Suc.IH Let_def header_then_append [symmetric])
qed

lemma print_inline_frames_run:
  "print_inline_frames api address printed st =
    (Inr (printed \<or> concat (map frame_text (inlined_at api address)) \<noteq> []),
     st\<lparr>err := err st @ header_then printed (concat (map frame_text (inlined_at api address)))\<rparr>)"
  by (auto simp: print_inline_frames_def inlined_at_def print_inlined_run header_then_def rt_simps Let_def split: option.split)

lemma print_frames_run:
  "print_frames api fs printed st =
    (Inr (), st\<lparr>err := err st @ header_then printed (concat (map frame_text (concat (map (frames_at api) fs))))\<rparr>)"
proof (induction fs arbitrary: printed st)
  case Nil
  then show ?case by (simp add: rt_simps header_then_def)
next
  case (Cons f fs)
  show ?case
    by (simp only: print_frames.simps Let_def bind_return [OF print_inline_frames_run] bind_return [OF print_frame_run] Cons.IH)
      (simp add: frames_at_def header_then_append [symmetric])
qed

lemma panic_trace_run:
  "loke_rt_v1_panic_trace T st =
    (Inr (), if trace_enabled st \<and> \<not> trace_taken st then st\<lparr>trace_taken := True, err := err st @ trace_text T\<rparr> else st)"
  by (auto simp: loke_rt_v1_panic_trace_def trace_text_def bind_def rt_simps print_frames_run header_then_def Let_def split: option.splits)


definition report :: "trace_host \<Rightarrow> string option \<Rightarrow> 'w thread_rt \<Rightarrow> 'w thread_rt" where
  "report T message st =
     (let line = ''loke: panic: '' @ (case message of None \<Rightarrow> ''runtime failure'' | Some s \<Rightarrow> s) @ newline in
      if trace_enabled st \<and> \<not> trace_taken st then st\<lparr>panicking := True, trace_taken := True, err := err st @ line @ trace_text T\<rparr>
      else st\<lparr>panicking := True, err := err st @ line\<rparr>)"

lemma panic_run:
  assumes "chain (frame_at st) (frames st) s" and "\<not> panicking st" and "keeps_frames thunk (fst ` set s)"
  shows "loke_rt_v1_panic T thunk message st = bind (cleanups thunk s) (\<lambda>_. loke_rt_v1_abort (Some ''panicked'')) (report T message st)"
proof -
  have fr: "frame_at (report T message st) = frame_at st" "frames (report T message st) = frames st"
    by (simp_all add: report_def Let_def)
  have "chain (frame_at (report T message st)) (frames st) s" using assms(1) by (simp add: fr)
  note loop = unwind_loop_runs [OF assms(3) this]
  have "loke_rt_v1_panic T thunk message st =
      bind (unwind_loop thunk (frames st)) (\<lambda>_. loke_rt_v1_abort (Some ''panicked'')) (report T message st)"
    using assms(2) by (simp add: loke_rt_v1_panic_def loke_rt_v1_panic_begin_def loke_rt_v1_panic_end_def put_err_def panic_trace_run rt_simps bind_def report_def Let_def)
  also have "\<dots> = bind (cleanups thunk s) (\<lambda>_. loke_rt_v1_abort (Some ''panicked'')) (report T message st)"
    using loop by (auto simp: bind_def rt_simps split: prod.splits sum.splits)
  finally show ?thesis .
qed

text \<open>C11. A panic unwinds the thread: after any well-bracketed sequence of frame pushes and pops on an attached
  thread, a panic reports its message and the stack trace, runs the cleanups of exactly the frames then live,
  the newest first and each once, and ends the process; a cleanup that does not return ends it there, with the
  cleanups of older frames not run; and a panic while one is unwinding runs no cleanup at all.\<close>

theorem panic_unwinds:
  assumes "ops_ok ops []" and "keeps_frames thunk (fst ` set (fold stack_op ops []))"
    and "bind loke_rt_v1_thread_attach (\<lambda>_. do_ops ops) st = (r, st')"
  shows "r = Inr () \<and> (case cleanups thunk (fold stack_op ops []) (report T message st') of
      (Inl e, u) \<Rightarrow> loke_rt_v1_panic T thunk message st' = (Inl e, u)
    | (Inr _, u) \<Rightarrow> loke_rt_v1_panic T thunk message st' = (Inl (Abort ''panicked''), u\<lparr>err := err u @ ''loke: panicked'' @ newline\<rparr>)) \<and>
    (\<forall>u. panicking u \<longrightarrow> loke_rt_v1_panic T thunk message u =
      (Inl (Abort ''panic while unwinding a panic''), u\<lparr>err := err u @ ''loke: panic while unwinding a panic'' @ newline\<rparr>))"
proof -
  let ?st = "st\<lparr>frames := 0, panicking := False, attached := True\<rparr>"
  have "chain (frame_at ?st) (frames ?st) []" by simp
  from do_ops_chain [OF this assms(1)] obtain u where u: "do_ops ops ?st = (Inr (), u)" "chain (frame_at u) (frames u) (fold stack_op ops [])" "\<not> panicking u"
    by auto
  then have "r = Inr ()" "st' = u" using assms(3) by (simp_all add: loke_rt_v1_thread_attach_def bind_def rt_simps)
  moreover have "case cleanups thunk (fold stack_op ops []) (report T message u) of
      (Inl e, t) \<Rightarrow> loke_rt_v1_panic T thunk message u = (Inl e, t)
    | (Inr _, t) \<Rightarrow> loke_rt_v1_panic T thunk message u = (Inl (Abort ''panicked''), t\<lparr>err := err t @ ''loke: panicked'' @ newline\<rparr>)"
    unfolding panic_run [OF u(2,3) assms(2)] by (auto simp: bind_def loke_rt_v1_abort_def put_err_def rt_simps split: prod.splits sum.splits)
  moreover have "\<forall>u. panicking u \<longrightarrow> loke_rt_v1_panic T thunk message u =
      (Inl (Abort ''panic while unwinding a panic''), u\<lparr>err := err u @ ''loke: panic while unwinding a panic'' @ newline\<rparr>)"
    by (simp add: loke_rt_v1_panic_def loke_rt_v1_panic_begin_def loke_rt_v1_abort_def put_err_def bind_def rt_simps)
  ultimately show ?thesis by (intro conjI) (simp_all only:)
qed

text \<open>Two frames are pushed, the newer one is popped, a third is pushed: the panic runs the cleanups 30 and 10.\<close>

definition log_thunk :: "addr list thunk" where
  "log_thunk c x = modify (\<lambda>st. st\<lparr>outside := outside st @ [c]\<rparr>)"

definition no_trace :: trace_host where
  "no_trace = \<lparr>backtrace = [], dbghelp = None, initialize = None, set_options = False\<rparr>"

definition thread0 :: "addr list thread_rt" where
  "thread0 = \<lparr>frames = 0, frame_at = (\<lambda>_. \<lparr>fr_previous = 0, fr_cleanup = 0, fr_context = 0\<rparr>), panicking = False, attached = False, err = [],
     trace_enabled = False, trace_taken = False, outside = []\<rparr>"

theorem panic_unwinds_witness:
  "\<exists>st'. bind loke_rt_v1_thread_attach (\<lambda>_. do_ops [Push 0x100 10 0, Push 0x200 20 0, Pop 0x200, Push 0x300 30 0]) thread0 = (Inr (), st') \<and>
    (case loke_rt_v1_panic no_trace log_thunk None st' of
      (r, u) \<Rightarrow> r = Inl (Abort ''panicked'') \<and> outside u = [30, 10] \<and> err u = ''loke: panic: runtime failure'' @ newline @ ''loke: panicked'' @ newline)"
proof -
  let ?ops = "[Push 0x100 10 0, Push 0x200 20 0, Pop 0x200, Push 0x300 30 0]"
  obtain r st' where run: "bind loke_rt_v1_thread_attach (\<lambda>_. do_ops ?ops) thread0 = (r, st')" by fastforce
  have "ops_ok ?ops []" by simp
  moreover have "keeps_frames log_thunk A" for A by (auto simp: keeps_frames_def log_thunk_def rt_simps)
  moreover have "outside st' = []" "err st' = []" "\<not> trace_enabled st'"
    using run by (auto simp: loke_rt_v1_thread_attach_def thread0_def loke_rt_v1_frame_push_def loke_rt_v1_frame_pop_def bind_def rt_simps)
  ultimately show ?thesis
    using panic_unwinds [where T = no_trace and message = None and thunk = log_thunk, OF _ _ run] run
    by (auto simp: log_thunk_def bind_def rt_simps report_def Let_def)
qed

end
