(* ===== verification/Loke_Cpu.thy ===== *)
theory Loke_Cpu
  imports Loke_Panic
begin

text \<open>
  CPU levels, from \<^verbatim>\<open>runtime/cpu.c\<close>: whether this processor runs the instruction set of a level, whether a
  dispatched procedure runs its copy for a level, and the check at the start of a build above baseline.  The
  detection of \<^verbatim>\<open>compiler-rt\<close> is the parameter \<open>detects\<close>, the environment the parameter \<open>getenv\<close>.
\<close>

section \<open>Definitions\<close>

definition level_names :: "string list" where
  "level_names = [''x86-64'', ''x86-64-v2'', ''x86-64-v3'']"

definition LEVEL_COUNT :: int where
  "LEVEL_COUNT = int (length level_names)"

definition loke_rt_v1_cpu_supports :: "(string \<Rightarrow> int) \<Rightarrow> int \<Rightarrow> int" where
  "loke_rt_v1_cpu_supports detects level =
     (if level = 0 then 1
      else if level = 1 then of_bool (detects ''x86-64-v2'' \<noteq> 0)
      else if level = 2 then of_bool (detects ''x86-64-v3'' \<noteq> 0)
      else 0)"

text \<open>The loop over the names, at \<open>index\<close>; a later match replaces an earlier one.\<close>

fun allowed_level :: "string \<Rightarrow> string list \<Rightarrow> int \<Rightarrow> int \<Rightarrow> int" where
  "allowed_level cap [] index allowed = allowed"
| "allowed_level cap (name # names) index allowed =
     allowed_level cap names (index + 1) (if cap = name then index else allowed)"

definition loke_rt_v1_cpu_dispatch :: "(string \<Rightarrow> int) \<Rightarrow> (string \<Rightarrow> string option) \<Rightarrow> int \<Rightarrow> int" where
  "loke_rt_v1_cpu_dispatch detects getenv level =
     (case getenv ''LOKE_DISPATCH_CPU'' of
        Some cap \<Rightarrow> if level > allowed_level cap level_names 0 (- 1) then 0 else loke_rt_v1_cpu_supports detects level
      | None \<Rightarrow> loke_rt_v1_cpu_supports detects level)"

text \<open>The names are read only after the range check.  The last step is the exit with the status of an abort.\<close>

definition unknown_level :: string where
  "unknown_level = ''the program was built for a CPU level this runtime does not know''"

definition loke_rt_v1_require_cpu :: "(string \<Rightarrow> int) \<Rightarrow> int \<Rightarrow> ('w thread_rt, unit) proc" where
  "loke_rt_v1_require_cpu detects level =
     (if loke_rt_v1_cpu_supports detects level \<noteq> 0 then return ()
      else
        let what = (if level \<ge> 0 \<and> level < LEVEL_COUNT
          then ''this processor does not support '' @ level_names ! nat level @ '', which the program was built for''
          else unknown_level)
        in bind (put_err (''loke: '' @ what @ newline)) (\<lambda>_. stop (Abort what)))"

section \<open>Dispatch\<close>

lemma supports_range: "loke_rt_v1_cpu_supports detects level \<noteq> 0 \<Longrightarrow> 0 \<le> level \<and> level < LEVEL_COUNT"
  by (auto simp: loke_rt_v1_cpu_supports_def LEVEL_COUNT_def level_names_def split: if_splits)

text \<open>The cap names a level by position; a name of no level allows none.\<close>

lemma allowed_names:
  "k < length level_names \<Longrightarrow> allowed_level (level_names ! k) level_names 0 (- 1) = int k"
  "cap \<notin> set level_names \<Longrightarrow> allowed_level cap level_names 0 (- 1) = - 1"
  by (auto simp: level_names_def less_Suc_eq)

text \<open>A copy runs only on a processor that supports its level, and under a cap only at the level named or below it.\<close>

lemma dispatch_iff:
  "loke_rt_v1_cpu_dispatch detects getenv level \<noteq> 0 \<longleftrightarrow> loke_rt_v1_cpu_supports detects level \<noteq> 0 \<and>
     (\<forall>cap. getenv ''LOKE_DISPATCH_CPU'' = Some cap \<longrightarrow> (\<exists>k<length level_names. cap = level_names ! k \<and> level \<le> int k))"
proof (cases "getenv ''LOKE_DISPATCH_CPU''")
  case None
  then show ?thesis by (simp add: loke_rt_v1_cpu_dispatch_def)
next
  case (Some cap)
  have one: "j = k" if "j < length level_names" "k < length level_names" "level_names ! j = level_names ! k" for j k
    using allowed_names(1) [OF that(1)] allowed_names(1) [OF that(2)] unfolding that(3) by linarith
  show ?thesis
  proof (cases "cap \<in> set level_names")
    case True
    then obtain k where k: "k < length level_names" "cap = level_names ! k" by (auto simp: in_set_conv_nth)
    have "(\<exists>j<length level_names. cap = level_names ! j \<and> level \<le> int j) \<longleftrightarrow> level \<le> int k"
      using k one by blast
    then show ?thesis using Some allowed_names(1) [OF k(1)] k(2) by (auto simp: loke_rt_v1_cpu_dispatch_def)
  next
    case False
    then have "\<not> (\<exists>k<length level_names. cap = level_names ! k \<and> level \<le> int k)" by auto
    moreover have "loke_rt_v1_cpu_dispatch detects getenv level = 0"
      using Some allowed_names(2) [OF False] by (auto simp: loke_rt_v1_cpu_dispatch_def loke_rt_v1_cpu_supports_def)
    ultimately show ?thesis using Some by simp
  qed
qed

text \<open>The check at the start returns on a processor of the level and otherwise stops the program with a report.\<close>

lemma require_cpu_cases:
  obtains (supported) "loke_rt_v1_cpu_supports detects level \<noteq> 0" and "loke_rt_v1_require_cpu detects level st = (Inr (), st)"
  | (missing) what where "loke_rt_v1_cpu_supports detects level = 0"
      and "loke_rt_v1_require_cpu detects level st = (Inl (Abort what), st\<lparr>err := err st @ ''loke: '' @ what @ newline\<rparr>)"
proof (cases "loke_rt_v1_cpu_supports detects level = 0")
  case True
  then show thesis by (intro missing) (simp_all add: loke_rt_v1_require_cpu_def Let_def bind_def put_err_def rt_simps)
next
  case False
  then show thesis by (intro supported) (simp_all add: loke_rt_v1_require_cpu_def rt_simps)
qed

end
