(* ===== verification/Spec2Isabelle.thy ===== *)
theory Spec2Isabelle
  imports Loke_Sort_Order Loke_Nested Loke_Map_Refine Loke_Map_Unwind Loke_Runes Loke_Numeric Loke_Args Loke_Atomic Loke_Cpu
begin

text \<open>
  A verification development for the runtime library of the Loke language, the C code of \<^verbatim>\<open>src/runtime/\<close>.

  \<^bold>\<open>The program.\<close>  Loke is a compiled language.  Its compiler emits code that calls a small C library for
  everything that is not straight-line code: allocation through provider handles and local regions, the
  built-in containers, strings, sorting, formatting, 128-bit atomics, panics and start-up.  Every entry point is a
  function \<^verbatim>\<open>loke_rt_v1_...\<close> declared in \<^verbatim>\<open>loke_rt.h\<close>; the definitions here have the same names.  The parts interact in
  layers: containers and strings allocate through the dispatch of \<^verbatim>\<open>alloc.c\<close>, which calls the table of a provider;
  a provider may be the system heap, an arena of \<^verbatim>\<open>arena.c\<close> (which allocates from its parent through the same
  dispatch) or code of the program; every failure ends in \<^verbatim>\<open>panic.c\<close> or \<^verbatim>\<open>fail.c\<close>.

  \<^bold>\<open>Model.\<close>  A function that may stop the program or that changes state is a \<open>proc\<close> of \<open>Loke_Prelude\<close>: from a state to an
  outcome and the state reached.  The outcome is the answer, or a \<open>fault\<close>: a panic, an abort, or a loop that does not
  end.  The state at a fault is kept, since the unwind that follows a panic drops the containers as it finds
  them.  A \<^verbatim>\<open>uintN_t\<close> is a word of \<open>N\<close> bits and wraps; an \<^verbatim>\<open>int64_t\<close> is an integer, and the operations that could leave its range
  are the checked ones of the source.  \<open>Loke_State\<close> has the shared state: memory is a function from addresses to
  bytes, and the runtime's own structs are in typed stores by address, so that aliasing of pointers is aliasing
  of addresses.  What the compiler generates (drop, clone, hash and compare hooks, cleanup thunks, writers,
  providers of the program) and what the C library and the system provide is a parameter.

  \<^bold>\<open>Theories.\<close>
    \<^item> \<open>Loke_Prelude\<close>: integer types, faults, the monad, loops, facts on words and lists.
    \<^item> \<open>Loke_Checked\<close> (\<^verbatim>\<open>container.c\<close>, checked arithmetic): sizes are exact or refused.
    \<^item> \<open>Loke_Utf8\<close> (\<^verbatim>\<open>text.c\<close>, decoding, encoding, validation, comparison): the decoder inverts the encoder at every
      position of every buffer; the validator accepts exactly the concatenations of encoded scalar values; byte order
      is code point order.
    \<^item> \<open>Loke_Sort\<close>, \<open>Loke_Sort_Safety\<close>, \<open>Loke_Sort_Order\<close> (\<^verbatim>\<open>container.c\<close>, introsort): with any comparison the sort ends, stays
      inside the array and permutes it; with a strict weak order (locale \<open>strict_weak_order\<close>) the result is sorted.  Every
      loop is a \<^theory_text>\<open>partial_function\<close>, so that not ending or reading outside is \<open>None\<close>, and the theorems say \<open>Some\<close>.
    \<^item> \<open>Loke_State\<close>: the state, memory, copies, arrays of equally sized elements.
    \<^item> \<open>Loke_Alloc\<close> (\<^verbatim>\<open>alloc.c\<close>): the system provider, selection and initialization of the default, the dispatch, the refusal
      note and the failure report.
    \<^item> \<open>Loke_Arena\<close>, \<open>Loke_Region\<close> (\<^verbatim>\<open>arena.c\<close>): arenas, opened over a buffer or over a parent.  The locale \<open>provider\<close> is the
      contract of an allocator handle over the set of live blocks, \<open>region_provider\<close> adds the reset.  The fixed-buffer arena
      interprets both; what \<^verbatim>\<open>open\<close> establishes is the invariant the interpretation starts from.
    \<^item> \<open>Loke_Chain\<close>, \<open>Loke_Nested\<close> (\<^verbatim>\<open>arena.c\<close>): arenas over a parent, with a chain of blocks.  The locale \<open>nested\<close> turns a \<open>provider\<close> into the
      \<open>region_provider\<close> of an arena opened on it, and is interpreted on an arena inside a fixed-buffer one: allocation, growth, reset
      and drop, with everything given back.
    \<^item> \<open>Loke_Dyn\<close>, \<open>Loke_Dyn_Correct\<close>, \<open>Loke_Dyn_Ops\<close> (\<^verbatim>\<open>container.c\<close>, dynamic array): proved in \<open>provider\<close>; every operation refines a
      list operation, and what it does not own is untouched; drops under a panicking hook.
    \<^item> \<open>Loke_Map\<close>, \<open>Loke_Map_Table\<close>, \<open>Loke_Map_Probe\<close>, \<open>Loke_Map_Correct\<close>, \<open>Loke_Map_Ops\<close>, \<open>Loke_Map_Resize\<close>, \<open>Loke_Map_Clone\<close>, \<open>Loke_Map_Refine\<close>,
      \<open>Loke_Map_Unwind\<close> (\<^verbatim>\<open>container.c\<close>, hash map): from the block layout and the probe sequence over cells up to the refinement of a
      finite map, in the locale \<open>map_provider\<close> (\<open>provider\<close> and the contract \<open>key_hooks\<close> of a key type), interpreted on byte keys
      hashed by the runtime in a fixed-buffer arena.
    \<^item> \<open>Loke_String\<close>, \<open>Loke_Runes\<close> (\<^verbatim>\<open>text.c\<close>, and \<^verbatim>\<open>loke_rt_v1_string_to_runes\<close>): reference-counted buffers and what creates them, in
      \<open>provider\<close>.
    \<^item> \<open>Loke_Format\<close>, \<open>Loke_Float\<close>, \<open>Loke_Numeric\<close> (\<^verbatim>\<open>format.c\<close>): spellings of integers, runes, quoted text and floats, read back by
      a reference reader; the numeric locale shared between threads.
    \<^item> \<open>Loke_Args\<close> (\<^verbatim>\<open>args.c\<close>): UTF-16 arguments to UTF-8, getters, test selection.
    \<^item> \<open>Loke_Atomic\<close> (\<^verbatim>\<open>atomic.c\<close>): threads as an inductive step relation over byte accesses; serializability by rule induction.
    \<^item> \<open>Loke_Panic\<close>, \<open>Loke_Cpu\<close> (\<^verbatim>\<open>panic.c\<close>, \<^verbatim>\<open>fail.c\<close>, \<^verbatim>\<open>trace.c\<close>, \<^verbatim>\<open>cpu.c\<close>): frames, unwinding, stack traces, CPU levels.

  \<^bold>\<open>Loops and bounds.\<close>  Loops that the C code bounds by a counter are structural recursion; the others are \<open>while_proc\<close>
  (over \<open>while_option\<close>) or \<^theory_text>\<open>partial_function (option)\<close>, with no fuel, and the properties state the outcome, so they include that
  the loop ends.  The one depth bound is the number \<open>k\<close> of \<open>providers H k\<close>, which limits how many parents a chain of arenas is
  followed; a fixed-buffer arena has none, so its theorems hold for every \<open>k\<close>, and those of an arena inside it for every \<open>Suc k\<close>.

  \<^bold>\<open>Not modelled.\<close>  \<^verbatim>\<open>loke_rt_v1_flush_stdout\<close> and the flushes are input and output of the C library only.  Struct layouts of
  DbgHelp in \<^verbatim>\<open>trace.c\<close> and the prototypes of \<^verbatim>\<open>loke_rt.h\<close> have no behaviour.  Weak memory: interleavings of the 128-bit atomics
  are sequentially consistent, and the memory orders only decide where a barrier stands; the reference counts of
  strings are updated in one step.  Headers of string buffers are in a store of their own, not in the bytes of the
  block, so a write into a header through a byte pointer is outside the model.  The system heap is a parameter: no contract of it
  is assumed, and the containers are interpreted on arenas only.  The rest of the repository
  (the compiler under \<^verbatim>\<open>src/src\<close>, the language server, the libraries written in Loke) is not C code of the runtime.

  \<^bold>\<open>What modelling showed.\<close>  A clone hook that panics inside \<^verbatim>\<open>loke_rt_v1_dyn_insert\<close> finds the tail of the array already moved
  and the old length still set; the drop of the unwind then drops one element twice
  (\<open>Loke_Dyn_Ops.insert_clone_panic_drops_twice\<close>).
\<close>

section \<open>Containers inside nested regions\<close>

text \<open>The refinement of a list by the dynamic array, for an array in an arena that was opened on another arena.\<close>

lemma dyn_refines_list_nested:
  assumes "child_inv (fixed_inv a b n) a c R L st" and "dyn_ok c (fixed_territory a b n - spans R) L st self (elem_size ops)"
    and "pow2 (sane_container_align (elem_align ops))" and "elem_clone ops = None" and "elem_drop ops = None"
    and "call_ok (fixed_territory a b n - spans R) L st self ops call"
  shows "\<exists>r st' L'. dyn_run (providers H (Suc k)) self ops call st = (Inr r, st') \<and>
    simulated c (fixed_territory a b n - spans R) (child_inv (fixed_inv a b n) a c R) self ops call L st r L' st'"
  using assms by (rule nested_fixed.child.call_simulates)

section \<open>Strings and arrays of runes\<close>


definition sample_runes :: "unit text_rt" where
  "sample_runes = \<lparr>base = sample_arena\<lparr>mem := (\<lambda>x. if x = 0x101 then 0x20 else 0)\<rparr>, headers = headers sample_text, strings = strings sample_text\<rparr>"

lemma write_runes_returns: "\<exists>st'. write_runes bytes cursor runes i n st = (Inr (), st')"
  by (induction n arbitrary: st cursor i) (simp_all add: bind_def rt_simps poke_def lift_def Let_def)

lemma sample_made: "\<exists>st1. loke_rt_v1_string_from_runes sample_host (providers sample_host 0) 0x10 0x100 2 4096 sample_runes = (Inr 1, st1)"
proof -
  have t: "runes_total (emptied 0x10 sample_runes) 0x100 0 2 0 = Some 4" by code_simp
  have "fst (loke_rt_v1_alloc (providers sample_host 0) 4096 29 8 (base sample_runes)) = Inr 4208" by code_simp
  then obtain b where alloc: "loke_rt_v1_alloc (providers sample_host 0) 4096 29 8 (base sample_runes) = (Inr 4208, b)" by (metis prod.collapse)
  obtain p st1 where got: "allocate_buffer (providers sample_host 0) 0x10 4 4096 (emptied 0x10 sample_runes) = (Inr p, st1)" "p \<noteq> 0"
    by (simp add: allocate_buffer_def SIZEOF_STRING_HEADER_def HEADER_ALIGN_def bind_def lift_def alloc set_string_def set_header_def poke_def rt_simps Let_def)
  obtain st2 where "write_runes p 0 0x100 0 2 st1 = (Inr (), st2)" using write_runes_returns by blast
  then show ?thesis using got t by (simp add: loke_rt_v1_string_from_runes_def bind_def rt_simps emptied_run)
qed


end
